(* ===== verification/Nacl_Prelude.thy ===== *)
theory Nacl_Prelude
  imports Main "HOL-Library.Word"
begin

text \<open>
  Shared vocabulary of the Native Client development: the C integer types of the
  x86-32 build as words, the ways a C routine of the trusted runtime can fail to return
  (\<open>NaClLog(LOG_FATAL)\<close>, a failed \<open>CHECK\<close>, a bad memory access, a loop that never ends),
  checked array access, and the word and list lemmas the component theories share.
\<close>

unbundle bit_operations_syntax

section \<open>Machine integers of the x86-32 build\<close>

type_synonym u8 = "8 word"
type_synonym u16 = "16 word"
type_synonym u32 = "32 word"
type_synonym u64 = "64 word"

text \<open>On the x86-32 target \<open>size_t\<close> and \<open>uintptr_t\<close> are unsigned 32-bit integers.\<close>

type_synonym size_t = "32 word"
type_synonym uintptr_t = "32 word"

abbreviation SIZE_T_MAX :: size_t where
  "SIZE_T_MAX \<equiv> - 1"

named_theorems nat_of_word "rewrite word comparisons and operations to natural numbers"

section \<open>Outcomes that are not a return value\<close>

datatype abort =
    LogFatal      \<comment> \<open>\<open>NaClLog(LOG_FATAL, ...)\<close> aborts the process\<close>
  | CheckFailed   \<comment> \<open>a \<open>CHECK(...)\<close> that does not hold aborts the process\<close>
  | NullDeref     \<comment> \<open>a read or write through a NULL pointer\<close>
  | OutOfBounds   \<comment> \<open>an access outside the allocated block\<close>
  | UseAfterFree  \<comment> \<open>an access to an object that was destroyed and freed\<close>
  | Diverges      \<comment> \<open>the routine never returns\<close>

type_synonym 'a res = "abort + 'a"

fun bind_res :: "'a res \<Rightarrow> ('a \<Rightarrow> 'b res) \<Rightarrow> 'b res" where
  "bind_res (Inl e) f = Inl e"
| "bind_res (Inr x) f = f x"

lemma bind_res_Inr_iff:
  "bind_res m f = Inr y \<longleftrightarrow> (\<exists>x. m = Inr x \<and> f x = Inr y)"
  by (cases m) auto

lemma bind_res_Inl_iff:
  "bind_res m f = Inl e \<longleftrightarrow> m = Inl e \<or> (\<exists>x. m = Inr x \<and> f x = Inl e)"
  by (cases m) auto

lemma bind_res_cong [fundef_cong]:
  assumes "m = m'" and "\<And>x. m' = Inr x \<Longrightarrow> f x = g x"
  shows "bind_res m f = bind_res m' g"
  using assms by (cases m') auto

text \<open>A \<open>CHECK(b)\<close> in statement position.\<close>

definition check_res :: "bool \<Rightarrow> 'a res \<Rightarrow> 'a res" where
  "check_res b m = (if b then m else Inl CheckFailed)"

lemma check_res_Inr_iff [simp]: "check_res b m = Inr x \<longleftrightarrow> b \<and> m = Inr x"
  by (simp add: check_res_def)

lemma check_res_True [simp]: "check_res True m = m"
  by (simp add: check_res_def)

section \<open>Checked access to allocated blocks\<close>

definition load :: "'a list \<Rightarrow> nat \<Rightarrow> 'a res" where
  "load xs i = (if i < length xs then Inr (xs ! i) else Inl OutOfBounds)"

definition store :: "'a list \<Rightarrow> nat \<Rightarrow> 'a \<Rightarrow> 'a list res" where
  "store xs i v = (if i < length xs then Inr (xs[i := v]) else Inl OutOfBounds)"

lemma load_Inr_iff: "load xs i = Inr v \<longleftrightarrow> i < length xs \<and> v = xs ! i"
  by (auto simp: load_def)

lemma store_Inr_iff: "store xs i v = Inr ys \<longleftrightarrow> i < length xs \<and> ys = xs[i := v]"
  by (auto simp: store_def)

lemma load_ok [simp]: "i < length xs \<Longrightarrow> load xs i = Inr (xs ! i)"
  by (simp add: load_def)

lemma store_ok [simp]: "i < length xs \<Longrightarrow> store xs i v = Inr (xs[i := v])"
  by (simp add: store_def)

text \<open>
  \<open>memset\<close> of \<open>n\<close> elements from index \<open>i\<close>, refused when it leaves the block.
\<close>

definition memset_from :: "'a list \<Rightarrow> nat \<Rightarrow> nat \<Rightarrow> 'a \<Rightarrow> 'a list res" where
  "memset_from xs i n v =
     (if n = 0 then Inr xs
      else if i + n \<le> length xs then Inr (take i xs @ replicate n v @ drop (i + n) xs)
      else Inl OutOfBounds)"

lemma memset_from_ok:
  assumes "i + n \<le> length xs"
  shows "memset_from xs i n v = Inr (take i xs @ replicate n v @ drop (i + n) xs)"
  using assms by (auto simp: memset_from_def)

lemma nth_memset_from:
  assumes "memset_from xs i n v = Inr ys" and "j < length xs"
  shows "ys ! j = (if i \<le> j \<and> j < i + n then v else xs ! j)"
  using assms
  by (auto simp: memset_from_def nth_append min_def split: if_splits)

lemma length_memset_from:
  "memset_from xs i n v = Inr ys \<Longrightarrow> length ys = length xs"
  by (auto simp: memset_from_def min_def split: if_splits)

section \<open>Words read as natural numbers\<close>

lemma unat_lt_size_t: "unat (w :: size_t) < 4294967296"
  using unsigned_less [of w] by simp

lemma unat_add_no_wrap:
  fixes a b :: "'a :: len word"
  assumes "unat a + unat b < 2 ^ LENGTH('a)"
  shows "unat (a + b) = unat a + unat b"
  using assms by (simp add: unat_word_ariths)

lemma unat_sub_le:
  fixes a b :: "'a :: len word"
  assumes "b \<le> a"
  shows "unat (a - b) = unat a - unat b"
  using assms by (rule unat_sub)

lemma unat_drop_bit_div: "unat (drop_bit n (w :: 'a :: len word)) = unat w div 2 ^ n"
proof -
  have "unat (drop_bit n w) = drop_bit n (unat w)"
    by (rule unat_drop_bit_eq)
  then show ?thesis by (simp only: drop_bit_eq_div)
qed

lemma unat_and_mask_mod: "unat ((w :: 'a :: len word) AND mask n) = unat w mod 2 ^ n"
  by (metis take_bit_eq_mask take_bit_eq_mod unsigned_take_bit_eq)

lemma word_and_not_mask: "(w :: 'a :: len word) AND NOT (mask n) = w - (w AND mask n)"
proof -
  have "w = (w AND NOT (mask n)) + (w AND mask n)"
  proof -
    have "(w AND NOT (mask n)) AND (w AND mask n) = 0"
      by (auto simp: bit_eq_iff bit_simps)
    then have "(w AND NOT (mask n)) + (w AND mask n) = (w AND NOT (mask n)) OR (w AND mask n)"
      by (rule disjunctive_add_eq_or)
    also have "\<dots> = w"
      by (auto simp: bit_eq_iff bit_simps)
    finally show ?thesis by simp
  qed
  then show ?thesis by (simp add: algebra_simps)
qed

lemma unat_and_not_mask:
  "unat ((w :: 'a :: len word) AND NOT (mask n)) = unat w - unat w mod 2 ^ n"
proof -
  have "w AND mask n \<le> w"
    by (rule word_and_le2)
  then show ?thesis
    by (simp add: word_and_not_mask unat_sub unat_and_mask_mod)
qed

lemma unat_and_not_mask_dvd: "2 ^ n dvd unat ((w :: 'a :: len word) AND NOT (mask n))"
  by (simp add: unat_and_not_mask dvd_minus_mod)

lemma unat_and_not_mask_le: "unat ((w :: 'a :: len word) AND NOT (mask n)) \<le> unat w"
  by (simp add: unat_and_not_mask)

lemma unat_and_not_mask_gt:
  "unat (w :: 'a :: len word) < unat (w AND NOT (mask n)) + 2 ^ n"
proof -
  have "unat w mod 2 ^ n < 2 ^ n" by simp
  moreover have "unat w mod 2 ^ n \<le> unat w" by simp
  ultimately show ?thesis by (simp only: unat_and_not_mask)
qed

declare word_less_nat_alt [nat_of_word] word_le_nat_alt [nat_of_word]

section \<open>Lists\<close>

lemma list_all_nth_iff: "list_all P xs \<longleftrightarrow> (\<forall>i < length xs. P (xs ! i))"
  by (simp add: list_all_length)

end
