(* ===== verification/Dyn_Array.thy ===== *)
theory Dyn_Array
  imports Nacl_Prelude
begin

text \<open>
  \<open>service_runtime/dyn_array.c\<close>: the growable pointer array with an availability bitmap
  that backs the descriptor table and the thread table of a NaCl application.

  The blocks \<open>ptr_array\<close> and \<open>available\<close> are lists whose length is the number of elements
  the allocator returned; \<open>None\<close> is the NULL pointer and a freed or NULL block is the empty
  list. Whether \<open>calloc\<close> and \<open>realloc\<close> succeed, and what fresh memory holds before it
  is cleared, is an argument (\<open>da_env\<close>).
\<close>

section \<open>State and operations\<close>

record 'a DynArray =
  num_entries :: size_t
  ptr_array :: "'a option list"
  ptr_array_space :: size_t
  available :: "u32 list"
  avail_ix :: size_t

record 'a da_env =
  ptr_alloc_ok :: bool
  avail_alloc_ok :: bool
  junk_ptr :: "'a option"
  junk_word :: u32

definition BitsToAllocWords :: "size_t \<Rightarrow> size_t" where
  "BitsToAllocWords nbits = drop_bit 5 (nbits + 32 - 1)"

definition BitsToIndex :: "size_t \<Rightarrow> size_t" where
  "BitsToIndex nbits = drop_bit 5 nbits"

definition BitsToOffset :: "size_t \<Rightarrow> size_t" where
  "BitsToOffset nbits = nbits AND (32 - 1)"

text \<open>
  \<open>sizeof *dap->ptr_array\<close> and \<open>sizeof *dap->available\<close> are both 4 on x86-32. The result
  is the object and the C return value; a failed constructor leaves \<open>ptr_array\<close> NULL.
\<close>

definition DynArrayCtor :: "'a da_env \<Rightarrow> 'a DynArray \<Rightarrow> size_t \<Rightarrow> 'a DynArray \<times> bool" where
  "DynArrayCtor env dap initial_size0 =
     (let initial_size = (if initial_size0 = 0 then 32 else initial_size0);
          dap1 = dap\<lparr>num_entries := 0\<rparr>
      in if SIZE_T_MAX div 4 < initial_size \<or> SIZE_T_MAX div 4 < BitsToAllocWords initial_size
         then (dap1, False)
         else if \<not> ptr_alloc_ok env then (dap1\<lparr>ptr_array := []\<rparr>, False)
         else if \<not> avail_alloc_ok env then (dap1\<lparr>ptr_array := [], available := []\<rparr>, False)
         else (dap1\<lparr>ptr_array := replicate (unat initial_size) None,
                    available := replicate (unat (BitsToAllocWords initial_size)) 0,
                    avail_ix := 0,
                    ptr_array_space := initial_size\<rparr>, True))"

definition DynArrayDtor :: "'a DynArray \<Rightarrow> 'a DynArray" where
  "DynArrayDtor dap =
     dap\<lparr>num_entries := 0, ptr_array := [], ptr_array_space := 0, available := []\<rparr>"

definition DynArrayGet :: "'a DynArray \<Rightarrow> size_t \<Rightarrow> 'a option res" where
  "DynArrayGet dap idx =
     (if idx < num_entries dap then load (ptr_array dap) (unat idx) else Inr None)"

text \<open>
  The doubling loop of \<open>DynArraySet\<close>. \<open>Some None\<close> is the overflow exit (\<open>return 0\<close>),
  \<open>Some (Some d)\<close> the capacity the loop ends with, and \<open>None\<close> a loop that never ends.
\<close>

partial_function (option) desired_space_loop :: "size_t \<Rightarrow> size_t \<Rightarrow> size_t option option" where
  "desired_space_loop idx desired_space =
     (if idx \<ge> desired_space
      then (let tmp = 2 * desired_space
            in if tmp < desired_space then Some None else desired_space_loop idx tmp)
      else Some (Some desired_space))"

text \<open>
  \<open>realloc\<close> to \<open>n\<close> elements keeps the common prefix; new elements are indeterminate.
\<close>

definition c_realloc :: "'b \<Rightarrow> 'b list \<Rightarrow> nat \<Rightarrow> 'b list" where
  "c_realloc junk xs n = take n xs @ replicate (n - length xs) junk"

text \<open>
  The elements in \<open>n * sizeof\<close> bytes, the product taken in \<open>size_t\<close>, where it wraps.
\<close>

definition elems :: "size_t \<Rightarrow> nat" where
  "elems n = unat (n * 4 div 4)"

text \<open>
  The growth branch. The byte counts of the two \<open>realloc\<close> and the two \<open>memset\<close> calls are
  products in \<open>size_t\<close>; \<open>realloc\<close> to 0 bytes frees the block and returns
  NULL, as the C library of the Linux build does. The boolean is false on \<open>return 0\<close>.
\<close>

definition DynArrayGrow ::
    "'a da_env \<Rightarrow> 'a DynArray \<Rightarrow> size_t \<Rightarrow> ('a DynArray \<times> bool) res" where
  "DynArrayGrow env dap desired_space =
     (if desired_space * 4 = 0 then Inr (dap\<lparr>ptr_array := []\<rparr>, False)
      else if \<not> ptr_alloc_ok env then Inr (dap, False)
      else
        bind_res
          (memset_from (c_realloc (junk_ptr env) (ptr_array dap) (elems desired_space))
             (unat (ptr_array_space dap))
             (elems (desired_space - ptr_array_space dap)) None)
          (\<lambda>new_space.
            let dap1 = dap\<lparr>ptr_array := new_space\<rparr>;
                old_avail_nwords = BitsToAllocWords (ptr_array_space dap);
                new_avail_nwords = BitsToAllocWords desired_space
            in if new_avail_nwords * 4 = 0 then Inr (dap1\<lparr>available := []\<rparr>, False)
               else if \<not> avail_alloc_ok env then Inr (dap1, False)
               else
                 bind_res
                   (memset_from
                      (c_realloc (junk_word env) (available dap1) (elems new_avail_nwords))
                      (unat old_avail_nwords)
                      (elems (new_avail_nwords - old_avail_nwords)) 0)
                   (\<lambda>new_avail.
                     Inr (dap1\<lparr>available := new_avail, ptr_array_space := desired_space\<rparr>,
                          True))))"

text \<open>The common tail of \<open>DynArraySet\<close>: write the slot, the bitmap and the counters.\<close>

definition DynArrayPut :: "'a DynArray \<Rightarrow> size_t \<Rightarrow> 'a option \<Rightarrow> 'a DynArray res" where
  "DynArrayPut dap idx ptr =
     bind_res (store (ptr_array dap) (unat idx) ptr) (\<lambda>pa.
     let ix = BitsToIndex idx; b = push_bit (unat (BitsToOffset idx)) (1 :: u32) in
     bind_res (load (available dap) (unat ix)) (\<lambda>w.
     let dap1 = dap\<lparr>ptr_array := pa,
                    available := (available dap)[unat ix := (if ptr \<noteq> None then w OR b else w AND NOT b)]\<rparr>;
         dap2 = (if ptr = None \<and> ix < avail_ix dap1 then dap1\<lparr>avail_ix := ix\<rparr> else dap1)
     in Inr (if num_entries dap2 \<le> idx then dap2\<lparr>num_entries := idx + 1\<rparr> else dap2)))"

definition DynArraySet ::
    "'a da_env \<Rightarrow> 'a DynArray \<Rightarrow> size_t \<Rightarrow> 'a option \<Rightarrow> ('a DynArray \<times> bool) res" where
  "DynArraySet env dap idx ptr =
     (case desired_space_loop idx (ptr_array_space dap) of
        None \<Rightarrow> Inl Diverges
      | Some None \<Rightarrow> Inr (dap, False)
      | Some (Some desired_space) \<Rightarrow>
          bind_res
            (if desired_space \<noteq> ptr_array_space dap then DynArrayGrow env dap desired_space
             else Inr (dap, True))
            (\<lambda>(dap1, ok).
              if \<not> ok then Inr (dap1, False)
              else bind_res (DynArrayPut dap1 idx ptr) (\<lambda>dap2. Inr (dap2, True))))"

text \<open>POSIX \<open>ffs\<close>: one plus the index of the least significant set bit, 0 for 0.\<close>

definition ffs :: "u32 \<Rightarrow> nat" where
  "ffs w = (case find (bit w) [0..<32] of None \<Rightarrow> 0 | Some i \<Rightarrow> Suc i)"

text \<open>The scan over the bitmap words; the result is the index the loop variable ends with.\<close>

function first_avail_scan :: "u32 list \<Rightarrow> nat \<Rightarrow> nat \<Rightarrow> nat res" where
  "first_avail_scan av ix last_ix =
     (if ix < last_ix
      then bind_res (load av ix) (\<lambda>w.
             if NOT w \<noteq> 0 then Inr ix else first_avail_scan av (Suc ix) last_ix)
      else Inr ix)"
  by pat_completeness auto
termination
  by (relation "measure (\<lambda>(av, ix, last_ix). last_ix - ix)") auto

declare first_avail_scan.simps [simp del]

definition DynArrayFirstAvail :: "'a DynArray \<Rightarrow> ('a DynArray \<times> size_t) res" where
  "DynArrayFirstAvail dap =
     (let last_ix = BitsToAllocWords (ptr_array_space dap) in
      bind_res (first_avail_scan (available dap) (unat (avail_ix dap)) (unat last_ix)) (\<lambda>ix.
        if ix < unat last_ix
        then bind_res (load (available dap) ix) (\<lambda>w.
               Inr (dap\<lparr>avail_ix := of_nat ix\<rparr>,
                    of_nat (ffs (NOT w)) - 1 + push_bit 5 (of_nat ix)))
        else Inr (dap, ptr_array_space dap)))"

section \<open>Abstraction and invariant\<close>

definition nwords :: "'a DynArray \<Rightarrow> nat" where
  "nwords dap = (unat (ptr_array_space dap) + 31) div 32"

definition da_map :: "'a DynArray \<Rightarrow> nat \<Rightarrow> 'a option" where
  "da_map dap i = (if i < unat (num_entries dap) then ptr_array dap ! i else None)"

definition da_inv :: "'a DynArray \<Rightarrow> bool" where
  "da_inv dap \<longleftrightarrow>
     0 < unat (ptr_array_space dap) \<and> unat (ptr_array_space dap) < 2 ^ 30 \<and>
     unat (ptr_array_space dap) \<le> length (ptr_array dap) \<and>
     nwords dap \<le> length (available dap) \<and>
     unat (num_entries dap) \<le> unat (ptr_array_space dap) \<and>
     unat (avail_ix dap) < nwords dap \<and>
     (\<forall>i < 32 * nwords dap.
        bit (available dap ! (i div 32)) (i mod 32) \<longleftrightarrow>
        i < unat (ptr_array_space dap) \<and> ptr_array dap ! i \<noteq> None) \<and>
     (\<forall>i. unat (num_entries dap) \<le> i \<longrightarrow> i < unat (ptr_array_space dap) \<longrightarrow>
        ptr_array dap ! i = None) \<and>
     (\<forall>k < unat (avail_ix dap). available dap ! k = - 1)"

lemma unat_BitsToAllocWords:
  assumes "unat n < 2 ^ 30"
  shows "unat (BitsToAllocWords n) = (unat n + 31) div 32"
proof -
  have "unat (31 + n) = 31 + unat n"
    using assms by (simp add: unat_add_no_wrap)
  then show ?thesis
    by (simp add: BitsToAllocWords_def unat_drop_bit_div add.commute)
qed

lemma unat_BitsToIndex: "unat (BitsToIndex n) = unat n div 32"
  by (simp add: BitsToIndex_def unat_drop_bit_div)

lemma unat_BitsToOffset: "unat (BitsToOffset n) = unat n mod 32"
  using unat_and_mask_mod [of n 5]
  by (simp add: BitsToOffset_def mask_eq_exp_minus_1)

lemmas bits_to_nat = unat_BitsToAllocWords unat_BitsToIndex unat_BitsToOffset

lemma da_invD:
  assumes "da_inv dap"
  shows "0 < unat (ptr_array_space dap)" "unat (ptr_array_space dap) < 2 ^ 30"
    "unat (ptr_array_space dap) \<le> length (ptr_array dap)"
    "nwords dap \<le> length (available dap)"
    "unat (num_entries dap) \<le> unat (ptr_array_space dap)"
    "unat (avail_ix dap) < nwords dap"
    "i < 32 * nwords dap \<Longrightarrow> bit (available dap ! (i div 32)) (i mod 32) \<longleftrightarrow>
        i < unat (ptr_array_space dap) \<and> ptr_array dap ! i \<noteq> None"
    "unat (num_entries dap) \<le> i \<Longrightarrow> i < unat (ptr_array_space dap) \<Longrightarrow>
        ptr_array dap ! i = None"
    "k < unat (avail_ix dap) \<Longrightarrow> available dap ! k = - 1"
  using assms by (auto simp: da_inv_def)

lemma da_invI:
  assumes "0 < unat (ptr_array_space dap)" "unat (ptr_array_space dap) < 2 ^ 30"
    "unat (ptr_array_space dap) \<le> length (ptr_array dap)"
    "nwords dap \<le> length (available dap)"
    "unat (num_entries dap) \<le> unat (ptr_array_space dap)"
    "unat (avail_ix dap) < nwords dap"
    "\<And>i. i < 32 * nwords dap \<Longrightarrow> bit (available dap ! (i div 32)) (i mod 32) \<longleftrightarrow>
        i < unat (ptr_array_space dap) \<and> ptr_array dap ! i \<noteq> None"
    "\<And>i. unat (num_entries dap) \<le> i \<Longrightarrow> i < unat (ptr_array_space dap) \<Longrightarrow>
        ptr_array dap ! i = None"
    "\<And>k. k < unat (avail_ix dap) \<Longrightarrow> available dap ! k = - 1"
  shows "da_inv dap"
  using assms unfolding da_inv_def by blast

lemma nwords_eq: "da_inv dap \<Longrightarrow> unat (BitsToAllocWords (ptr_array_space dap)) = nwords dap"
  by (simp add: nwords_def unat_BitsToAllocWords da_inv_def)

lemma space_le_nwords: "unat (ptr_array_space dap) \<le> 32 * nwords dap"
  by (simp add: nwords_def)

lemma nwords_bound: "da_inv dap \<Longrightarrow> 32 * nwords dap \<le> 2 ^ 30"
proof -
  assume "da_inv dap"
  then have "unat (ptr_array_space dap) + 31 \<le> 1073741824 + 30"
    using da_invD(2) [of dap] by simp
  then have "(unat (ptr_array_space dap) + 31) div 32 \<le> (1073741824 + 30) div 32"
    by (rule div_le_mono)
  then show ?thesis by (simp add: nwords_def)
qed

text \<open>Inside the capacity the abstraction is the array itself.\<close>

lemma da_map_space:
  assumes "da_inv dap" "i < unat (ptr_array_space dap)"
  shows "da_map dap i = ptr_array dap ! i"
  using assms da_invD(8) [OF assms(1)] by (auto simp: da_map_def not_less)

lemma da_map_beyond:
  assumes "da_inv dap" "unat (ptr_array_space dap) \<le> i"
  shows "da_map dap i = None"
  using assms da_invD(5) [OF assms(1)] by (auto simp: da_map_def)

lemma da_map_bit:
  assumes "da_inv dap" "i < 32 * nwords dap"
  shows "bit (available dap ! (i div 32)) (i mod 32) \<longleftrightarrow> da_map dap i \<noteq> None"
  using assms da_invD(7) [OF assms] da_map_space da_map_beyond
  by (metis not_less)

section \<open>Construction and lookup\<close>

lemma Ctor_ok:
  assumes "DynArrayCtor env dap n = (dap', True)"
  shows "da_inv dap'" and "da_map dap' = (\<lambda>_. None)"
proof -
  define m where "m = (if n = 0 then 32 else n)"
  have le: "\<not> SIZE_T_MAX div 4 < m"
    and dap': "dap' = dap\<lparr>num_entries := 0, ptr_array := replicate (unat m) None,
                    available := replicate (unat (BitsToAllocWords m)) 0,
                    avail_ix := 0, ptr_array_space := m\<rparr>"
    using assms by (auto simp: DynArrayCtor_def Let_def m_def split: if_splits)
  have m0: "0 < unat m"
    by (simp add: m_def unat_gt_0)
  have "unat (SIZE_T_MAX div 4) = 1073741823"
    by (simp add: unat_div)
  with le have m30: "unat m < 2 ^ 30"
    by (simp add: nat_of_word)
  have "0 < (unat m + 31) div 32"
    using m0 by linarith
  moreover have "i div 32 < (unat m + 31) div 32" if "i < 32 * ((unat m + 31) div 32)" for i
    using that by (simp add: less_mult_imp_div_less mult.commute)
  ultimately show "da_inv dap'"
    using m0 m30 by (auto simp: da_inv_def dap' nwords_def unat_BitsToAllocWords)
  show "da_map dap' = (\<lambda>_. None)"
    by (simp add: dap' da_map_def fun_eq_iff)
qed

lemma Get_ok:
  assumes "da_inv dap"
  shows "DynArrayGet dap idx = Inr (da_map dap (unat idx))"
proof (cases "idx < num_entries dap")
  case True
  then have lt: "unat idx < unat (num_entries dap)"
    by (simp add: nat_of_word)
  then have "unat idx < length (ptr_array dap)"
    using da_invD(3,5) [OF assms] by linarith
  with True lt show ?thesis
    by (simp add: DynArrayGet_def da_map_def)
next
  case False
  then show ?thesis
    by (simp add: DynArrayGet_def da_map_def nat_of_word)
qed

section \<open>The doubling loop\<close>

lemma unat_double:
  fixes d :: size_t
  assumes "unat d < 2 ^ 31"
  shows "unat (2 * d) = 2 * unat d"
  using assms by (simp add: unat_word_ariths)

lemma double_wraps:
  fixes d :: size_t
  assumes "2 ^ 31 \<le> unat d"
  shows "2 * d < d"
proof -
  have "unat (2 * d) = (2 * unat d) mod 4294967296"
    by (simp add: unat_word_ariths)
  also have "\<dots> = 2 * unat d - 4294967296"
    using assms unat_lt_size_t [of d] by (subst mod_if) simp
  finally show ?thesis
    using assms unat_lt_size_t [of d] by (simp add: nat_of_word)
qed

lemma desired_space_loop_fits: "idx < d \<Longrightarrow> desired_space_loop idx d = Some (Some d)"
  by (subst desired_space_loop.simps) (auto dest: leD)

lemma desired_space_loop_total:
  assumes "d \<noteq> 0"
  shows "\<exists>r. desired_space_loop idx d = Some r \<and>
    (case r of
       None \<Rightarrow> 2 ^ 31 \<le> unat idx
     | Some d' \<Rightarrow> idx < d' \<and> (d' = d \<or> unat d < unat d' \<and> unat d' \<le> 2 * unat idx))"
  using assms
proof (induction "4294967296 - unat d" arbitrary: d rule: less_induct)
  case less
  have d0: "0 < unat d"
    using less.prems by (simp add: unat_gt_0)
  consider (fits) "idx < d" | (wrap) "\<not> idx < d" "2 * d < d" | (step) "\<not> idx < d" "\<not> 2 * d < d"
    by blast
  then show ?case
  proof cases
    case fits
    then show ?thesis
      by (subst desired_space_loop.simps) (auto dest: leD)
  next
    case wrap
    have "2 ^ 31 \<le> unat d"
      using wrap(2) unat_double [of d] by (force simp: nat_of_word not_le)
    with wrap show ?thesis
      by (subst desired_space_loop.simps) (simp add: nat_of_word)
  next
    case step
    have small: "unat d < 2 ^ 31"
      using step(2) double_wraps [of d] by (meson not_le)
    then have u2: "unat (2 * d) = 2 * unat d"
      by (rule unat_double)
    have "2 * d \<noteq> 0"
      using u2 d0 by (metis mult_eq_0_iff neq0_conv unat_0 zero_neq_numeral)
    moreover have "4294967296 - unat (2 * d) < 4294967296 - unat d"
      using u2 d0 small by simp
    ultimately obtain r where r: "desired_space_loop idx (2 * d) = Some r"
      and P: "case r of
       None \<Rightarrow> 2 ^ 31 \<le> unat idx
     | Some d' \<Rightarrow> idx < d' \<and> (d' = 2 * d \<or> unat (2 * d) < unat d' \<and> unat d' \<le> 2 * unat idx)"
      using less.hyps [of "2 * d"] by blast
    have "desired_space_loop idx d = Some r"
      using step r by (subst desired_space_loop.simps) (auto simp: Let_def not_less)
    moreover have "case r of
       None \<Rightarrow> 2 ^ 31 \<le> unat idx
     | Some d' \<Rightarrow> idx < d' \<and> (d' = d \<or> unat d < unat d' \<and> unat d' \<le> 2 * unat idx)"
      using P u2 d0 step(1) by (auto simp: nat_of_word split: option.splits)
    ultimately show ?thesis by blast
  qed
qed

text \<open>A capacity of 0, which only a destroyed array has, makes the loop run forever.\<close>

lemma desired_space_loop_zero: "desired_space_loop idx 0 = None"
proof (rule ccontr)
  assume "desired_space_loop idx 0 \<noteq> None"
  then obtain r where r: "desired_space_loop idx 0 = Some r" by blast
  have "d \<noteq> 0" if "desired_space_loop i d = Some r" for i d r
  proof (rule desired_space_loop.raw_induct [where P = "\<lambda>i d r. d \<noteq> 0", OF _ that])
    fix f :: "size_t \<Rightarrow> size_t \<Rightarrow> size_t option option" and i d :: size_t and r
    assume IH: "\<And>i d r. f i d = Some r \<Longrightarrow> d \<noteq> 0"
      and eq: "(if d \<le> i then let tmp = 2 * d in if tmp < d then Some None else f i tmp
                else Some (Some d)) = Some r"
    show "d \<noteq> 0"
      using eq IH [of i "2 * d" r] by (auto simp: Let_def split: if_splits)
  qed
  from this [OF r] show False by simp
qed

section \<open>Growing and storing\<close>

lemma nth_c_realloc: "i < length xs \<Longrightarrow> i < n \<Longrightarrow> c_realloc junk xs n ! i = xs ! i"
  by (simp add: c_realloc_def nth_append)

lemma length_c_realloc: "length (c_realloc junk xs n) = n"
  by (simp add: c_realloc_def)

lemma elems_eq:
  fixes d :: size_t
  assumes "unat d < 2 ^ 30"
  shows "elems d = unat d"
proof -
  have "unat (d * 4) = unat d * 4"
    using assms by (simp add: unat_word_ariths)
  then show ?thesis by (simp add: elems_def unat_div)
qed

lemma times4_neq_0:
  fixes d :: size_t
  assumes "unat d < 2 ^ 30" "0 < unat d"
  shows "d * 4 \<noteq> 0"
proof
  assume "d * 4 = 0"
  then have "unat (d * 4) = 0" by simp
  with assms show False by (simp add: unat_word_ariths)
qed

text \<open>
  A block of \<open>n\<close> elements reallocated and cleared from the old size on: old elements stay,
  the rest is cleared.
\<close>

lemma realloc_clear:
  assumes "old \<le> length xs" "old \<le> n"
  obtains ys where "memset_from (c_realloc junk xs n) old (n - old) v = Inr ys"
    and "length ys = n"
    and "\<And>i. i < old \<Longrightarrow> ys ! i = xs ! i"
    and "\<And>i. old \<le> i \<Longrightarrow> i < n \<Longrightarrow> ys ! i = v"
proof -
  let ?zs = "c_realloc junk xs n"
  obtain ys where ys: "memset_from ?zs old (n - old) v = Inr ys"
    using assms by (simp add: memset_from_ok length_c_realloc)
  moreover have "length ys = n"
    using length_memset_from [OF ys] by (simp add: length_c_realloc)
  moreover have "ys ! i = xs ! i" if "i < old" for i
    using nth_memset_from [OF ys, of i] that assms by (simp add: length_c_realloc nth_c_realloc)
  moreover have "ys ! i = v" if "old \<le> i" "i < n" for i
    using nth_memset_from [OF ys, of i] that assms by (simp add: length_c_realloc)
  ultimately show thesis using that by blast
qed

text \<open>The invariant survives a longer pointer block, and both blocks growing together.\<close>

lemma grown_ptrs_inv:
  assumes inv: "da_inv dap" and "unat (ptr_array_space dap) \<le> length pa"
    and pa_lo: "\<And>i. i < unat (ptr_array_space dap) \<Longrightarrow> pa ! i = ptr_array dap ! i"
  shows "da_inv (dap\<lparr>ptr_array := pa\<rparr>)" "da_map (dap\<lparr>ptr_array := pa\<rparr>) = da_map dap"
proof -
  note inv_facts = da_invD [OF inv]
  let ?dap1 = "dap\<lparr>ptr_array := pa\<rparr>"
  show "da_inv ?dap1"
  proof (rule da_invI)
    show "bit (available ?dap1 ! (i div 32)) (i mod 32) \<longleftrightarrow>
        i < unat (ptr_array_space ?dap1) \<and> ptr_array ?dap1 ! i \<noteq> None"
      if "i < 32 * nwords ?dap1" for i
      using that inv_facts(7) [of i] pa_lo [of i] by (auto simp: nwords_def)
  qed (use inv_facts assms(2) pa_lo in \<open>auto simp: nwords_def\<close>)
  show "da_map ?dap1 = da_map dap" using inv_facts(5) pa_lo by (auto simp: da_map_def fun_eq_iff)
qed

lemma grown_inv:
  assumes inv: "da_inv dap" and lo: "unat (ptr_array_space dap) < unat d" and hi: "unat d < 2 ^ 30"
    and len: "length pa = unat d" "length av = (unat d + 31) div 32"
    and pa_lo: "\<And>i. i < unat (ptr_array_space dap) \<Longrightarrow> pa ! i = ptr_array dap ! i"
    and pa_hi: "\<And>i. unat (ptr_array_space dap) \<le> i \<Longrightarrow> i < unat d \<Longrightarrow> pa ! i = None"
    and av_lo: "\<And>i. i < nwords dap \<Longrightarrow> av ! i = available dap ! i"
    and av_hi: "\<And>i. nwords dap \<le> i \<Longrightarrow> i < (unat d + 31) div 32 \<Longrightarrow> av ! i = 0"
  shows "da_inv (dap\<lparr>ptr_array := pa, available := av, ptr_array_space := d\<rparr>)"
    and "da_map (dap\<lparr>ptr_array := pa, available := av, ptr_array_space := d\<rparr>) = da_map dap"
proof -
  note inv_facts = da_invD [OF inv]
  let ?s = "unat (ptr_array_space dap)" and ?w = "(unat d + 31) div 32"
  let ?dap2 = "dap\<lparr>ptr_array := pa, available := av, ptr_array_space := d\<rparr>"
  have nw2: "nwords ?dap2 = ?w" and w_le: "nwords dap \<le> ?w" using lo by (auto simp: nwords_def div_le_mono)
  have bits: "bit (av ! (i div 32)) (i mod 32) \<longleftrightarrow> i < unat d \<and> pa ! i \<noteq> None" if "i < 32 * ?w" for i
  proof (cases "i div 32 < nwords dap")
    case True
    then have "i < 32 * nwords dap" by (simp add: div_less_iff_less_mult mult.commute)
    then show ?thesis
      using True av_lo inv_facts(7) [of i] pa_lo pa_hi lo
      by (metis (no_types, lifting) less_trans not_less)
  next
    case False
    then have "i div 32 < ?w" and "32 * nwords dap \<le> i"
      using that by (auto simp: div_less_iff_less_mult mult.commute)
    then show ?thesis
      using False av_hi [of "i div 32"] pa_hi [of i] space_le_nwords [of dap] by auto
  qed
  show "da_inv ?dap2"
  proof (rule da_invI)
    show "ptr_array ?dap2 ! i = None"
      if "unat (num_entries ?dap2) \<le> i" "i < unat (ptr_array_space ?dap2)" for i
      using that inv_facts(8) [of i] pa_lo [of i] pa_hi [of i] by (cases "i < ?s") auto
    show "available ?dap2 ! k = - 1" if "k < unat (avail_ix ?dap2)" for k
      using that inv_facts(6) inv_facts(9) [of k] av_lo [of k] by simp
  qed (use inv_facts hi lo len bits w_le in \<open>auto simp: nw2\<close>)
  show "da_map ?dap2 = da_map dap" using inv_facts(5) pa_lo by (auto simp: da_map_def fun_eq_iff)
qed

lemma Grow_ok:
  assumes inv: "da_inv dap"
    and lo: "unat (ptr_array_space dap) < unat d" and hi: "unat d < 2 ^ 30"
  obtains dap' ok where "DynArrayGrow env dap d = Inr (dap', ok)"
    and "da_inv dap'" and "da_map dap' = da_map dap"
    and "ok \<longleftrightarrow> ptr_alloc_ok env \<and> avail_alloc_ok env"
    and "ok \<Longrightarrow> ptr_array_space dap' = d"
proof (cases "ptr_alloc_ok env")
  case False
  then have "DynArrayGrow env dap d = Inr (dap, False)"
    using times4_neq_0 [OF hi] lo by (simp add: DynArrayGrow_def)
  then show thesis using that [of dap False] inv False by blast
next
  case True
  note inv_facts = da_invD [OF inv]
  let ?s = "unat (ptr_array_space dap)" and ?w = "(unat d + 31) div 32"
  have "unat (d - ptr_array_space dap) = unat d - ?s"
    using lo by (simp add: unat_sub_le nat_of_word)
  then have diff: "elems (d - ptr_array_space dap) = unat d - ?s"
    using elems_eq [of "d - ptr_array_space dap"] hi by simp
  obtain pa where pa: "memset_from (c_realloc (junk_ptr env) (ptr_array dap) (unat d)) ?s
        (unat d - ?s) None = Inr pa"
    and len_pa: "length pa = unat d"
    and pa_lo: "\<And>i. i < ?s \<Longrightarrow> pa ! i = ptr_array dap ! i"
    and pa_hi: "\<And>i. ?s \<le> i \<Longrightarrow> i < unat d \<Longrightarrow> pa ! i = None"
    using realloc_clear [of ?s "ptr_array dap" "unat d" "junk_ptr env" None] inv_facts(3) lo
    by (metis less_imp_le)
  have d0: "0 < unat d" using lo by simp
  have nw: "unat (BitsToAllocWords d) = ?w" using hi by (rule unat_BitsToAllocWords)
  have w_pos: "0 < ?w" and w30: "?w < 2 ^ 30" and w_le: "nwords dap \<le> ?w"
    using hi d0 lo by (auto simp: nwords_def div_le_mono)
  have "unat (BitsToAllocWords d - BitsToAllocWords (ptr_array_space dap)) = ?w - nwords dap"
    using w_le nwords_eq [OF inv] nw by (simp add: unat_sub_le nat_of_word)
  then have wdiff: "elems (BitsToAllocWords d - BitsToAllocWords (ptr_array_space dap)) = ?w - nwords dap"
    using elems_eq [of "BitsToAllocWords d - BitsToAllocWords (ptr_array_space dap)"] w30 by simp
  note grow_eq = DynArrayGrow_def Let_def times4_neq_0 [OF hi d0] True
    elems_eq [OF hi] diff pa nwords_eq [OF inv] nw wdiff
  have wbytes: "BitsToAllocWords d * 4 \<noteq> 0" and wdiv: "elems (BitsToAllocWords d) = ?w"
    using times4_neq_0 [of "BitsToAllocWords d"] elems_eq [of "BitsToAllocWords d"] nw w_pos w30 by auto
  show thesis
  proof (cases "avail_alloc_ok env")
    case False
    then have "DynArrayGrow env dap d = Inr (dap\<lparr>ptr_array := pa\<rparr>, False)" using wbytes by (simp add: grow_eq)
    then show thesis using that [of "dap\<lparr>ptr_array := pa\<rparr>" False] grown_ptrs_inv [OF inv _ pa_lo] len_pa lo False by simp
  next
    case avail_ok: True
    obtain av where av: "memset_from (c_realloc (junk_word env) (available dap) ?w) (nwords dap) (?w - nwords dap) 0 = Inr av"
      and len_av: "length av = ?w"
      and av_lo: "\<And>i. i < nwords dap \<Longrightarrow> av ! i = available dap ! i"
      and av_hi: "\<And>i. nwords dap \<le> i \<Longrightarrow> i < ?w \<Longrightarrow> av ! i = 0"
      using realloc_clear [of "nwords dap" "available dap" ?w "junk_word env" 0] inv_facts(4) w_le by metis
    let ?dap2 = "dap\<lparr>ptr_array := pa, available := av, ptr_array_space := d\<rparr>"
    have "DynArrayGrow env dap d = Inr (?dap2, True)" using wbytes avail_ok by (simp add: grow_eq wdiv av)
    then show thesis
      using that [of ?dap2 True] grown_inv [OF inv lo hi len_pa len_av pa_lo pa_hi av_lo av_hi] True avail_ok by simp
  qed
qed

lemma bit_set_clear:
  fixes w :: u32
  assumes "k < 32" "n < 32"
  shows "bit (w OR push_bit n 1) k \<longleftrightarrow> k = n \<or> bit w k"
    and "bit (w AND NOT (push_bit n 1)) k \<longleftrightarrow> k \<noteq> n \<and> bit w k"
  using assms by (auto simp: bit_simps)

lemma div_mod_32_eq: "i div 32 = j div 32 \<Longrightarrow> i mod 32 = j mod 32 \<longleftrightarrow> i = (j :: nat)"
  by (metis div_mult_mod_eq)

lemma Put_ok:
  assumes inv: "da_inv dap" and lt: "idx < ptr_array_space dap"
  obtains dap' where "DynArrayPut dap idx ptr = Inr dap'"
    and "da_inv dap'" and "da_map dap' = (da_map dap)(unat idx := ptr)"
    and "ptr_array_space dap' = ptr_array_space dap"
proof -
  note inv_facts = da_invD [OF inv]
  let ?i = "unat idx" and ?ix = "BitsToIndex idx"
  let ?b = "push_bit (unat (BitsToOffset idx)) (1 :: u32)"
  have i_lt: "?i < unat (ptr_array_space dap)"
    using lt by (simp add: nat_of_word)
  have i_len: "?i < length (ptr_array dap)"
    using i_lt inv_facts(3) by linarith
  have ix: "unat ?ix = ?i div 32" and off: "unat (BitsToOffset idx) = ?i mod 32"
    by (simp_all add: bits_to_nat)
  have ix_lt: "?i div 32 < nwords dap"
    using i_lt by (simp add: nwords_def div_less_iff_less_mult)
  have ix_len: "?i div 32 < length (available dap)"
    using ix_lt inv_facts(4) by linarith
  let ?w = "available dap ! (?i div 32)"
  let ?w' = "if ptr \<noteq> None then ?w OR ?b else ?w AND NOT ?b"
  let ?pa = "(ptr_array dap)[?i := ptr]" and ?av = "(available dap)[?i div 32 := ?w']"
  define ai where "ai = (if ptr = None \<and> ?ix < avail_ix dap then ?ix else avail_ix dap)"
  define ne where "ne = (if num_entries dap \<le> idx then idx + 1 else num_entries dap)"
  define dap' where "dap' = dap\<lparr>num_entries := ne, ptr_array := ?pa, available := ?av, avail_ix := ai\<rparr>"
  have eq: "DynArrayPut dap idx ptr = Inr dap'"
    using i_len ix_len by (simp add: DynArrayPut_def Let_def ix dap'_def ai_def ne_def)
  have idx1: "unat (idx + 1) = ?i + 1"
    using i_lt inv_facts(2) by (simp add: unat_add_no_wrap)
  have ne_nat: "unat ne = max (unat (num_entries dap)) (?i + 1)"
    using idx1 by (auto simp: ne_def nat_of_word max_def)
  have nw: "nwords dap' = nwords dap"
    by (simp add: nwords_def dap'_def)
  have ai_le: "unat ai \<le> unat (avail_ix dap)"
    by (auto simp: ai_def nat_of_word)
  have wbit: "bit ?w' k \<longleftrightarrow> (if k = ?i mod 32 then ptr \<noteq> None else bit ?w k)" if "k < 32" for k
    using that bit_set_clear [of k "?i mod 32" ?w] by (auto simp: off)
  have "da_inv dap'"
  proof (rule da_invI)
    show "bit (available dap' ! (i div 32)) (i mod 32) \<longleftrightarrow>
        i < unat (ptr_array_space dap') \<and> ptr_array dap' ! i \<noteq> None"
      if "i < 32 * nwords dap'" for i
    proof -
      have i: "i < 32 * nwords dap" using that by (simp add: nw)
      show ?thesis
        using inv_facts(7) [OF i] wbit [of "i mod 32"] ix_len i_len i_lt div_mod_32_eq [of i ?i]
        by (cases "i div 32 = ?i div 32"; cases "i = ?i") (auto simp: dap'_def)
    qed
    show "ptr_array dap' ! i = None"
      if "unat (num_entries dap') \<le> i" "i < unat (ptr_array_space dap')" for i
      using that inv_facts(8) [of i] by (auto simp: dap'_def ne_nat)
    show "available dap' ! k = - 1" if k: "k < unat (avail_ix dap')" for k
    proof (cases "k = ?i div 32")
      case False
      then show ?thesis
        using k ai_le inv_facts(9) [of k] by (simp add: dap'_def)
    next
      case True
      have full: "available dap ! k = - 1"
        using k ai_le inv_facts(9) [of k] by (simp add: dap'_def)
      have "ptr \<noteq> None"
        using k True ix by (auto simp: dap'_def ai_def nat_of_word split: if_splits)
      then show ?thesis
        using full True ix_len by (simp add: dap'_def)
    qed
    show "unat (avail_ix dap') < nwords dap'"
      using inv_facts(6) ai_le by (simp add: nw) (simp add: dap'_def)
  qed (use inv_facts i_lt in \<open>auto simp: dap'_def ne_nat nwords_def\<close>)
  moreover have "da_map dap' = (da_map dap)(?i := ptr)"
    using i_len inv_facts(8) i_lt by (auto simp: da_map_def fun_eq_iff dap'_def ne_nat nth_list_update)
  ultimately show thesis
    using that eq by (simp add: dap'_def)
qed

lemma Set_ok:
  assumes inv: "da_inv dap" and idx: "unat idx < 2 ^ 29"
  obtains dap' ok where "DynArraySet env dap idx ptr = Inr (dap', ok)"
    and "da_inv dap'"
    and "da_map dap' = (if ok then (da_map dap)(unat idx := ptr) else da_map dap)"
    and "unat idx < unat (ptr_array_space dap) \<or> ptr_alloc_ok env \<and> avail_alloc_ok env \<Longrightarrow> ok"
proof -
  have "ptr_array_space dap \<noteq> 0"
    using da_invD(1) [OF inv] by auto
  then obtain r where r: "desired_space_loop idx (ptr_array_space dap) = Some r"
    and P: "case r of
       None \<Rightarrow> 2 ^ 31 \<le> unat idx
     | Some d' \<Rightarrow> idx < d' \<and>
         (d' = ptr_array_space dap \<or>
          unat (ptr_array_space dap) < unat d' \<and> unat d' \<le> 2 * unat idx)"
    using desired_space_loop_total by blast
  then obtain d where d: "r = Some d" and lt: "idx < d"
    using idx by (auto split: option.splits)
  note set_eq = DynArraySet_def r d
  consider (same) "d = ptr_array_space dap"
    | (grow) "unat (ptr_array_space dap) < unat d" "unat d < 2 ^ 30" "d \<noteq> ptr_array_space dap"
    using P idx d by fastforce
  then show thesis
  proof cases
    case same
    then obtain dap' where "DynArrayPut dap idx ptr = Inr dap'" "da_inv dap'"
      "da_map dap' = (da_map dap)(unat idx := ptr)"
      using Put_ok [OF inv, of idx ptr] lt by metis
    then show thesis
      using that [of dap' True] same by (simp add: set_eq)
  next
    case grow
    obtain dap1 ok where g: "DynArrayGrow env dap d = Inr (dap1, ok)"
      and inv1: "da_inv dap1" and map1: "da_map dap1 = da_map dap"
      and ok: "ok \<longleftrightarrow> ptr_alloc_ok env \<and> avail_alloc_ok env"
      and space: "ok \<Longrightarrow> ptr_array_space dap1 = d"
      using Grow_ok [OF inv grow(1,2), of env] by metis
    show thesis
    proof (cases ok)
      case False
      have "\<not> unat idx < unat (ptr_array_space dap)"
        using r d grow(3) desired_space_loop_fits [of idx "ptr_array_space dap"]
        by (auto simp: nat_of_word)
      then show thesis
        using that [of dap1 False] False inv1 map1 g ok grow(3) by (auto simp: set_eq)
    next
      case True
      then obtain dap2 where "DynArrayPut dap1 idx ptr = Inr dap2" "da_inv dap2"
        "da_map dap2 = (da_map dap1)(unat idx := ptr)"
        using Put_ok [OF inv1, of idx ptr] space lt by metis
      then show thesis
        using that [of dap2 True] True map1 g grow(3) by (simp add: set_eq)
    qed
  qed
qed

section \<open>The first free slot\<close>

lemma ffs_found:
  assumes "w \<noteq> 0"
  obtains k where "ffs w = Suc k" "k < 32" "bit w k" "\<And>j. j < k \<Longrightarrow> \<not> bit w j"
proof -
  obtain j where "bit w j"
    using assms by (auto simp: bit_eq_iff)
  moreover from this have "j < 32"
    using bit_imp_le_length [of w j] by simp
  ultimately have "find (bit w) [0..<32] \<noteq> None"
    by (auto simp: find_None_iff)
  then obtain k where k: "find (bit w) [0..<32] = Some k" by blast
  then have "ffs w = Suc k" by (simp add: ffs_def)
  with k show thesis
    using that [of k] by (auto simp: find_Some_iff)
qed

lemma first_avail_scan_spec:
  assumes "last_ix \<le> length av" "\<And>k. k < ix \<Longrightarrow> av ! k = - 1" "ix \<le> last_ix"
  shows "\<exists>r. first_avail_scan av ix last_ix = Inr r \<and> r \<le> last_ix \<and>
           (\<forall>k < r. av ! k = - 1) \<and> (r < last_ix \<longrightarrow> NOT (av ! r) \<noteq> 0)"
  using assms
proof (induction av ix last_ix rule: first_avail_scan.induct)
  case (1 av ix last_ix)
  show ?case
  proof (cases "ix < last_ix")
    case False
    then show ?thesis
      using "1.prems" by (subst first_avail_scan.simps) (auto simp: not_less)
  next
    case True
    then have ld: "load av ix = Inr (av ! ix)"
      using "1.prems" by simp
    show ?thesis
    proof (cases "NOT (av ! ix) = 0")
      case False
      then show ?thesis
        using True ld "1.prems" by (subst first_avail_scan.simps) auto
    next
      case full: True
      then have "av ! ix = - 1"
        by (metis bit.double_compl bit.compl_zero)
      then have "\<And>k. k < Suc ix \<Longrightarrow> av ! k = - 1"
        using "1.prems"(2) less_Suc_eq by auto
      then show ?thesis
        using "1.IH" [OF True ld] full True ld "1.prems"
        by (subst first_avail_scan.simps) simp
    qed
  qed
qed

lemma FirstAvail_ok:
  assumes inv: "da_inv dap"
  obtains dap' pos where "DynArrayFirstAvail dap = Inr (dap', pos)"
    and "da_inv dap'" and "da_map dap' = da_map dap"
    and "da_map dap (unat pos) = None"
    and "\<And>i. i < unat pos \<Longrightarrow> da_map dap i \<noteq> None"
    and "unat pos \<le> 32 * nwords dap"
    and "dap' = dap\<lparr>avail_ix := avail_ix dap'\<rparr>"
proof -
  note inv_facts = da_invD [OF inv]
  let ?av = "available dap"
  obtain r where scan: "first_avail_scan ?av (unat (avail_ix dap)) (nwords dap) = Inr r"
    and r_le: "r \<le> nwords dap" and full: "\<And>k. k < r \<Longrightarrow> ?av ! k = - 1"
    and r_lt: "r < nwords dap \<Longrightarrow> NOT (?av ! r) \<noteq> 0"
    using first_avail_scan_spec [OF inv_facts(4), of "unat (avail_ix dap)"] inv_facts(6,9)
    by (metis less_imp_le)
  have low: "da_map dap i \<noteq> None" if "i < 32 * r" for i
  proof -
    have "i div 32 < r" using that by (simp add: div_less_iff_less_mult mult.commute)
    then have "bit (?av ! (i div 32)) (i mod 32)"
      using full by simp
    then show ?thesis
      using da_map_bit [OF inv, of i] that r_le by simp
  qed
  show thesis
  proof (cases "r < nwords dap")
    case False
    then have r: "r = nwords dap" using r_le by simp
    have eq: "DynArrayFirstAvail dap = Inr (dap, ptr_array_space dap)"
      using scan r by (simp add: DynArrayFirstAvail_def Let_def nwords_eq [OF inv])
    show thesis
      using that [OF eq inv refl] low r space_le_nwords [of dap] da_map_beyond [OF inv]
      by simp
  next
    case True
    obtain k where k: "ffs (NOT (?av ! r)) = Suc k" "k < 32" "\<not> bit (?av ! r) k"
      and below: "\<And>j. j < k \<Longrightarrow> bit (?av ! r) j"
      using ffs_found [OF r_lt [OF True]] by (auto simp: bit_not_iff)
    let ?pos = "of_nat (ffs (NOT (?av ! r))) - 1 + push_bit 5 (of_nat r) :: size_t"
    have r27: "32 * r + k < 2 ^ 30"
      using True nwords_bound [OF inv] k(2) by simp
    have pos: "?pos = of_nat (32 * r + k)"
      by (simp add: k(1) push_bit_eq_mult)
    have upos: "unat ?pos = 32 * r + k"
      unfolding pos using r27 by (simp only: unat_of_nat) simp
    define dap' where "dap' = dap\<lparr>avail_ix := of_nat r\<rparr>"
    have ur: "unat (of_nat r :: size_t) = r"
      using r27 by (simp add: unat_of_nat)
    have eq: "DynArrayFirstAvail dap = Inr (dap', ?pos)"
      using scan True inv_facts(4)
      by (simp add: DynArrayFirstAvail_def Let_def nwords_eq [OF inv] dap'_def)
    have "da_inv dap'"
      using inv True full ur by (auto simp: da_inv_def dap'_def nwords_def)
    moreover have "da_map dap' = da_map dap"
      by (simp add: da_map_def dap'_def fun_eq_iff)
    moreover have "da_map dap i \<noteq> None \<longleftrightarrow> bit (?av ! r) (i - 32 * r)"
      if "32 * r \<le> i" "i < 32 * r + 32" for i
    proof -
      have "i div 32 = r" "i mod 32 = i - 32 * r" "i < 32 * nwords dap"
        using that True by (auto simp: div_nat_eqI mod_nat_eqI)
      then show ?thesis using da_map_bit [OF inv, of i] by simp
    qed
    moreover note bits = this
    have "da_map dap (unat ?pos) = None"
      using bits [of "32 * r + k"] k(2,3) by (simp add: upos)
    moreover have "da_map dap i \<noteq> None" if "i < unat ?pos" for i
    proof (cases "i < 32 * r")
      case True
      then show ?thesis by (rule low)
    next
      case False
      then show ?thesis
        using that bits [of i] below [of "i - 32 * r"] k(2) by (simp add: upos)
    qed
    moreover have "unat ?pos \<le> 32 * nwords dap"
      using True k(2) by (simp add: upos)
    moreover have "dap' = dap\<lparr>avail_ix := avail_ix dap'\<rparr>"
      by (simp add: dap'_def)
    ultimately show thesis
      using that [OF eq] by blast
  qed
qed

section \<open>The slot table interface\<close>

text \<open>
  What the descriptor table and the thread table rely on: lookups see the abstract slots,
  a store changes one slot or reports failure and changes none, and the first free slot is
  the least one.
\<close>

locale slot_table =
  fixes inv :: "'t \<Rightarrow> bool"
    and slots :: "'t \<Rightarrow> nat \<Rightarrow> 'a option"
    and get :: "'t \<Rightarrow> size_t \<Rightarrow> 'a option res"
    and put :: "'t \<Rightarrow> size_t \<Rightarrow> 'a option \<Rightarrow> ('t \<times> bool) res"
    and first_free :: "'t \<Rightarrow> ('t \<times> size_t) res"
  assumes get_slots: "inv t \<Longrightarrow> get t i = Inr (slots t (unat i))"
    and put_slots: "inv t \<Longrightarrow> unat i < 2 ^ 29 \<Longrightarrow>
      \<exists>t' ok. put t i v = Inr (t', ok) \<and> inv t' \<and>
        slots t' = (if ok then (slots t)(unat i := v) else slots t)"
    and first_free_slots: "inv t \<Longrightarrow>
      \<exists>t' p. first_free t = Inr (t', p) \<and> inv t' \<and> slots t' = slots t \<and>
        slots t (unat p) = None \<and> (\<forall>i < unat p. slots t i \<noteq> None)"
begin

lemma put_then_get:
  assumes "inv t" "unat i < 2 ^ 29" "put t i v = Inr (t', True)"
  shows "inv t'" and "get t' j = (if j = i then Inr v else get t j)"
proof -
  have t': "inv t'" "slots t' = (slots t)(unat i := v)"
    using put_slots [OF assms(1,2), of v] assms(3) by auto
  then show "inv t'" by simp
  show "get t' j = (if j = i then Inr v else get t j)"
    using t' assms(1) by (simp add: get_slots word_unat_eq_iff)
qed

lemma failed_put_get:
  assumes "inv t" "unat i < 2 ^ 29" "put t i v = Inr (t', False)"
  shows "inv t'" and "slots t' = slots t"
  using put_slots [OF assms(1,2), of v] assms(3) by auto

lemma alloc_fresh:
  assumes "inv t" "first_free t = Inr (t1, p)" "unat p < 2 ^ 29" "put t1 p (Some v) = Inr (t', True)"
  shows "inv t'" and "slots t (unat p) = None" and "slots t' = (slots t)(unat p \<mapsto> v)"
    and "\<forall>i < unat p. slots t i \<noteq> None"
proof -
  have t1: "inv t1" "slots t1 = slots t"
    and fresh: "slots t (unat p) = None" "\<forall>i < unat p. slots t i \<noteq> None"
    using first_free_slots [OF assms(1)] assms(2) by auto
  then show "slots t (unat p) = None" "\<forall>i < unat p. slots t i \<noteq> None" by auto
  show "inv t'" "slots t' = (slots t)(unat p \<mapsto> v)"
    using put_slots [OF t1(1) assms(3), of "Some v"] assms(4) t1(2) by auto
qed

end

interpretation da: slot_table da_inv da_map DynArrayGet "DynArraySet env" DynArrayFirstAvail for env
proof unfold_locales
  fix t :: "'a DynArray" and i v
  assume inv: "da_inv t"
  show "DynArrayGet t i = Inr (da_map t (unat i))"
    using inv by (rule Get_ok)
  show "\<exists>t' ok. DynArraySet env t i v = Inr (t', ok) \<and> da_inv t' \<and>
        da_map t' = (if ok then (da_map t)(unat i := v) else da_map t)" if "unat i < 2 ^ 29"
    using Set_ok [OF inv that, of env v] by metis
  show "\<exists>t' p. DynArrayFirstAvail t = Inr (t', p) \<and> da_inv t' \<and> da_map t' = da_map t \<and>
        da_map t (unat p) = None \<and> (\<forall>i < unat p. da_map t i \<noteq> None)"
    using FirstAvail_ok [OF inv] by metis
qed

section \<open>Properties\<close>

text \<open>C11: On a well-formed array and an index below \<open>2 ^ 29\<close>, \<open>DynArraySet\<close> always returns,
  without a bad access, with a well-formed array. When it returns 1 exactly the slot \<open>idx\<close>
  holds the new pointer and every other slot is unchanged; when it returns 0 no slot
  changed; and it returns 1 whenever both reallocations succeed.\<close>

theorem DynArraySet_correct:
  assumes "da_inv dap" and "unat idx < 2 ^ 29"
  shows "\<exists>dap' ok. DynArraySet env dap idx ptr = Inr (dap', ok) \<and> da_inv dap' \<and>
    da_map dap' = (if ok then (da_map dap)(unat idx := ptr) else da_map dap) \<and>
    (ptr_alloc_ok env \<and> avail_alloc_ok env \<longrightarrow> ok)"
  using Set_ok [OF assms, of env ptr] by metis

definition sample_env :: "nat da_env" where
  "sample_env = \<lparr>ptr_alloc_ok = True, avail_alloc_ok = True, junk_ptr = Some 7, junk_word = 5\<rparr>"

definition sample_array :: "nat DynArray" where
  "sample_array = \<lparr>num_entries = 0, ptr_array = [None, None], ptr_array_space = 2,
                   available = [0], avail_ix = 0\<rparr>"

lemma sample_array_inv: "da_inv sample_array"
  by (rule da_invI) (auto simp: sample_array_def nwords_def nth_Cons' less_2_cases_iff)

theorem DynArraySet_correct_witness:
  "da_inv sample_array \<and>
   (\<exists>dap' ok. DynArraySet sample_env sample_array 40 (Some 3) = Inr (dap', ok) \<and> da_inv dap' \<and>
     da_map dap' = (if ok then (da_map sample_array)(40 := Some 3) else da_map sample_array) \<and> ok)"
proof -
  have 40: "unat (40 :: size_t) = 40" by simp
  have ok: "ptr_alloc_ok sample_env \<and> avail_alloc_ok sample_env" by (simp add: sample_env_def)
  show ?thesis
    using DynArraySet_correct [of sample_array 40 sample_env "Some 3"] sample_array_inv ok
    unfolding 40 by auto
qed

text \<open>C12: \<open>DynArrayFirstAvail\<close> on a well-formed array returns the least slot that holds no
  pointer, although it starts its scan at the hint \<open>avail_ix\<close> and looks at whole bitmap words; it
  changes no field of the array but the hint, and the array stays well formed.\<close>

theorem DynArrayFirstAvail_least:
  assumes "da_inv dap"
  shows "\<exists>dap' pos. DynArrayFirstAvail dap = Inr (dap', pos) \<and> da_inv dap' \<and>
    dap' = dap\<lparr>avail_ix := avail_ix dap'\<rparr> \<and>
    da_map dap' = da_map dap \<and> unat pos = (LEAST i. da_map dap i = None)"
proof -
  obtain dap' pos where r: "DynArrayFirstAvail dap = Inr (dap', pos)" "da_inv dap'"
    "dap' = dap\<lparr>avail_ix := avail_ix dap'\<rparr>" "da_map dap' = da_map dap"
    and free: "da_map dap (unat pos) = None"
    and below: "\<And>i. i < unat pos \<Longrightarrow> da_map dap i \<noteq> None"
    by (rule FirstAvail_ok [OF assms]) blast
  have "(LEAST i. da_map dap i = None) = unat pos"
  proof (rule Least_equality)
    show "unat pos \<le> y" if "da_map dap y = None" for y
      using that below [of y] by (cases "y < unat pos") auto
  qed (rule free)
  with r have "DynArrayFirstAvail dap = Inr (dap', pos) \<and> da_inv dap' \<and> dap' = dap\<lparr>avail_ix := avail_ix dap'\<rparr> \<and>
    da_map dap' = da_map dap \<and> unat pos = (LEAST i. da_map dap i = None)" by simp
  then show ?thesis by (intro exI)
qed

theorem DynArrayFirstAvail_least_witness:
  "da_inv sample_array \<and>
   (\<exists>dap' pos. DynArrayFirstAvail sample_array = Inr (dap', pos) \<and> da_inv dap' \<and>
     dap' = sample_array\<lparr>avail_ix := avail_ix dap'\<rparr> \<and>
     da_map dap' = da_map sample_array \<and> unat pos = (LEAST i. da_map sample_array i = None))"
  using DynArrayFirstAvail_least [OF sample_array_inv] sample_array_inv by blast

text \<open>The number of elements of a wrapped byte count, and a block that is shorter than the index.\<close>

lemma elems_mod:
  fixes d :: size_t
  shows "elems d = unat d mod 2 ^ 30"
proof -
  have "unat (d * 4) = (unat d * 4) mod (2 ^ 30 * 4)" by (simp add: unat_word_ariths)
  also have "\<dots> = (unat d mod 2 ^ 30) * 4" by (rule mult_mod_left [symmetric])
  finally show ?thesis by (simp add: elems_def unat_div)
qed

lemma memset_from_cases:
  obtains "memset_from xs i n v = Inl OutOfBounds"
  | ys where "memset_from xs i n v = Inr ys" "length ys = length xs"
proof (cases "memset_from xs i n v")
  case (Inl e)
  then have "e = OutOfBounds" by (simp add: memset_from_def split: if_splits)
  then show thesis using that(1) Inl by simp
next
  case (Inr ys)
  then show thesis by (rule that(2) [OF _ length_memset_from [OF Inr]])
qed

lemma Put_beyond_block:
  "length (ptr_array dap) \<le> unat idx \<Longrightarrow> DynArrayPut dap idx ptr = Inl OutOfBounds"
  by (simp add: DynArrayPut_def store_def)

lemma Grow_wrapped:
  assumes inv: "da_inv dap" and "ptr_alloc_ok env" and "avail_alloc_ok env"
  obtains "DynArrayGrow env dap d = Inl OutOfBounds"
  | dap' where "DynArrayGrow env dap d = Inr (dap', False)" "\<not> da_inv dap'"
  | dap' where "DynArrayGrow env dap d = Inr (dap', True)" "length (ptr_array dap') < 2 ^ 30"
proof (cases "d * 4 = 0")
  case True
  then have "DynArrayGrow env dap d = Inr (dap\<lparr>ptr_array := []\<rparr>, False)" by (simp add: DynArrayGrow_def)
  moreover have "\<not> da_inv (dap\<lparr>ptr_array := []\<rparr>)" using da_invD(1) [OF inv] by (simp add: da_inv_def)
  ultimately show thesis by (rule that(2))
next
  case False
  let ?old = "BitsToAllocWords (ptr_array_space dap)" and ?new = "BitsToAllocWords d"
  let ?ptrs = "memset_from (c_realloc (junk_ptr env) (ptr_array dap) (elems d))
      (unat (ptr_array_space dap)) (elems (d - ptr_array_space dap)) None"
  note eq = DynArrayGrow_def Let_def False assms(2,3)
  show thesis
  proof (cases rule: memset_from_cases [of "c_realloc (junk_ptr env) (ptr_array dap) (elems d)"
        "unat (ptr_array_space dap)" "elems (d - ptr_array_space dap)" None])
    case 1
    show thesis by (rule that(1)) (simp add: eq 1)
  next
    case (2 pa)
    have len: "length pa < 2 ^ 30" unfolding 2(2) length_c_realloc elems_mod by simp
    show thesis
    proof (cases "?new * 4 = 0")
      case True
      have "DynArrayGrow env dap d = Inr (dap\<lparr>ptr_array := pa, available := []\<rparr>, False)" by (simp add: eq 2(1) True)
      moreover have "\<not> da_inv (dap\<lparr>ptr_array := pa, available := []\<rparr>)"
        using da_invD(6) [OF inv] by (simp add: da_inv_def nwords_def)
      ultimately show thesis by (rule that(2))
    next
      case words: False
      show thesis
      proof (cases rule: memset_from_cases [of "c_realloc (junk_word env) (available dap) (elems ?new)"
            "unat ?old" "elems (?new - ?old)" 0])
        case 1
        show thesis by (rule that(1)) (simp add: eq 2(1) words 1)
      next
        case (2 av)
        show thesis
          by (rule that(3) [of "dap\<lparr>ptr_array := pa, available := av, ptr_array_space := d\<rparr>"])
            (use len in \<open>simp_all add: eq words 2(1) \<open>?ptrs = Inr pa\<close>\<close>)
      qed
    qed
  qed
qed


definition array33 :: "nat DynArray" where
  "array33 = fst (DynArrayCtor sample_env sample_array 33)"


end
