(* ===== verification/Desc_Table.thy ===== *)
theory Desc_Table
  imports Dyn_Array
begin

text \<open>
  The descriptor table and the thread table of a NaCl application
  (\<open>service_runtime/sel_ldr.c\<close>, \<open>NaClGetDescMu\<close> to \<open>NaClGetThreadMu\<close>) over the reference
  counts of \<open>nacl_base/nacl_refcount.c\<close>.

  Descriptors are named by their address (a natural number); the heap maps the address of
  every live descriptor to its \<open>ref_count\<close>. A descriptor whose count reaches 0 is
  destroyed and freed, and every later access to it is the outcome \<open>UseAfterFree\<close>. The
  \<open>*Mu\<close> routines run with \<open>desc_mu\<close> (resp. \<open>threads_mu\<close>) held, so each is one atomic
  step of the table. A C \<open>int\<close> index is the word with the same bits.
\<close>

section \<open>Reference counts\<close>

type_synonym desc_heap = "nat \<rightharpoonup> size_t"

definition NaClRefCountCtor :: "bool \<Rightarrow> desc_heap \<Rightarrow> nat \<Rightarrow> desc_heap \<times> bool" where
  "NaClRefCountCtor mutex_ok h d = (h(d \<mapsto> 1), mutex_ok)"

definition NaClRefCountDtor :: "desc_heap \<Rightarrow> nat \<Rightarrow> desc_heap res" where
  "NaClRefCountDtor h d =
     (case h d of
        None \<Rightarrow> Inl UseAfterFree
      | Some c \<Rightarrow> if 0 \<noteq> c then Inl LogFatal else Inr h)"

definition NaClRefCountRef :: "desc_heap \<Rightarrow> nat \<Rightarrow> desc_heap res" where
  "NaClRefCountRef h d =
     (case h d of
        None \<Rightarrow> Inl UseAfterFree
      | Some c \<Rightarrow> if 0 = c + 1 then Inl LogFatal else Inr (h(d \<mapsto> c + 1)))"

definition NaClRefCountUnref :: "desc_heap \<Rightarrow> nat \<Rightarrow> desc_heap res" where
  "NaClRefCountUnref h d =
     (case h d of
        None \<Rightarrow> Inl UseAfterFree
      | Some c \<Rightarrow>
          if 0 = c then Inl LogFatal
          else let h1 = h(d \<mapsto> c - 1) in
            if 0 = c - 1
            then bind_res (NaClRefCountDtor h1 d) (\<lambda>h2. Inr (h2(d := None)))
            else Inr h1)"

definition NaClRefCountSafeUnref :: "desc_heap \<Rightarrow> nat option \<Rightarrow> desc_heap res" where
  "NaClRefCountSafeUnref h nrcp =
     (case nrcp of None \<Rightarrow> Inr h | Some d \<Rightarrow> NaClRefCountUnref h d)"

text \<open>\<open>NaClDescRef\<close> and \<open>NaClDescSafeUnref\<close> of \<open>desc/nacl_desc_base.c\<close> forward to the base class.\<close>

definition NaClDescRef :: "desc_heap \<Rightarrow> nat \<Rightarrow> desc_heap res" where
  "NaClDescRef h ndp = NaClRefCountRef h ndp"

definition NaClDescUnref :: "desc_heap \<Rightarrow> nat \<Rightarrow> desc_heap res" where
  "NaClDescUnref h ndp = NaClRefCountUnref h ndp"

definition NaClDescSafeUnref :: "desc_heap \<Rightarrow> nat option \<Rightarrow> desc_heap res" where
  "NaClDescSafeUnref h ndp =
     (case ndp of None \<Rightarrow> Inr h | Some d \<Rightarrow> NaClRefCountUnref h d)"

section \<open>The descriptor table\<close>

record desc_state =
  desc_tbl :: "nat DynArray"
  desc_refs :: desc_heap

definition NaClGetDescMu :: "desc_state \<Rightarrow> u32 \<Rightarrow> (desc_state \<times> nat option) res" where
  "NaClGetDescMu nap d =
     bind_res (DynArrayGet (desc_tbl nap) d) (\<lambda>result.
       case result of
         None \<Rightarrow> Inr (nap, None)
       | Some ndp \<Rightarrow>
           bind_res (NaClDescRef (desc_refs nap) ndp) (\<lambda>h.
             Inr (nap\<lparr>desc_refs := h\<rparr>, Some ndp)))"

definition NaClSetDescMu ::
    "nat da_env \<Rightarrow> desc_state \<Rightarrow> u32 \<Rightarrow> nat option \<Rightarrow> desc_state res" where
  "NaClSetDescMu env nap d ndp =
     bind_res (DynArrayGet (desc_tbl nap) d) (\<lambda>result.
     bind_res (NaClDescSafeUnref (desc_refs nap) result) (\<lambda>h.
     bind_res (DynArraySet env (desc_tbl nap) d ndp) (\<lambda>(tbl, ok).
       if \<not> ok then Inl LogFatal
       else Inr (nap\<lparr>desc_tbl := tbl, desc_refs := h\<rparr>))))"

definition NaClSetAvailMu ::
    "nat da_env \<Rightarrow> desc_state \<Rightarrow> nat option \<Rightarrow> (desc_state \<times> u32) res" where
  "NaClSetAvailMu env nap ndp =
     bind_res (DynArrayFirstAvail (desc_tbl nap)) (\<lambda>(tbl, pos).
       if pos > 0x7FFFFFFF then Inl LogFatal
       else bind_res (NaClSetDescMu env (nap\<lparr>desc_tbl := tbl\<rparr>) pos ndp) (\<lambda>nap1.
              Inr (nap1, pos)))"

section \<open>The thread table\<close>

text \<open>\<open>num_threads\<close> is a C \<open>int\<close>; threads are named by their address.\<close>

record thread_table =
  threads :: "nat DynArray"
  num_threads :: u32

definition NaClAddThreadMu :: "nat da_env \<Rightarrow> thread_table \<Rightarrow> nat \<Rightarrow> (thread_table \<times> u32) res" where
  "NaClAddThreadMu env nap natp =
     bind_res (DynArrayFirstAvail (threads nap)) (\<lambda>(tbl, pos).
     bind_res (DynArraySet env tbl pos (Some natp)) (\<lambda>(tbl1, ok).
       if \<not> ok then Inl LogFatal
       else Inr (nap\<lparr>threads := tbl1, num_threads := num_threads nap + 1\<rparr>, pos)))"

definition NaClRemoveThreadMu :: "nat da_env \<Rightarrow> thread_table \<Rightarrow> u32 \<Rightarrow> thread_table res" where
  "NaClRemoveThreadMu env nap thread_num =
     bind_res (DynArrayGet (threads nap) thread_num) (\<lambda>result.
       if result = None then Inl LogFatal
       else if num_threads nap = 0 then Inl LogFatal
       else
         bind_res (DynArraySet env (threads nap) thread_num None) (\<lambda>(tbl, ok).
           if \<not> ok then Inl LogFatal
           else Inr (nap\<lparr>num_threads := num_threads nap - 1, threads := tbl\<rparr>)))"

definition NaClGetThreadMu :: "thread_table \<Rightarrow> u32 \<Rightarrow> nat option res" where
  "NaClGetThreadMu nap thread_num = DynArrayGet (threads nap) thread_num"

section \<open>Counting references\<close>

text \<open>
  \<open>holders m d\<close> are the slots that hold \<open>d\<close>. The accounting invariant says that the count
  of every descriptor is the number of slots that hold it plus the references \<open>ext\<close> held
  elsewhere, and that it is live exactly when that sum is positive.
\<close>

definition holders :: "(nat \<Rightarrow> nat option) \<Rightarrow> nat \<Rightarrow> nat set" where
  "holders m d = {i. m i = Some d}"

definition heap_counts :: "(nat \<Rightarrow> nat) \<Rightarrow> desc_heap \<Rightarrow> bool" where
  "heap_counts n h \<longleftrightarrow>
     (\<forall>d. case h d of None \<Rightarrow> n d = 0 | Some c \<Rightarrow> unat c = n d \<and> 0 < n d)"

definition total_refs :: "(nat \<Rightarrow> nat option) \<Rightarrow> (nat \<Rightarrow> nat) \<Rightarrow> nat \<Rightarrow> nat" where
  "total_refs m ext d = card (holders m d) + ext d"

definition desc_inv :: "(nat \<Rightarrow> nat) \<Rightarrow> desc_state \<Rightarrow> bool" where
  "desc_inv ext nap \<longleftrightarrow>
     da_inv (desc_tbl nap) \<and> heap_counts (total_refs (da_map (desc_tbl nap)) ext) (desc_refs nap)"

text \<open>Handing a reference out, and taking over a reference the caller owned.\<close>

definition give_ref :: "(nat \<Rightarrow> nat) \<Rightarrow> nat option \<Rightarrow> nat \<Rightarrow> nat" where
  "give_ref ext r = (case r of None \<Rightarrow> ext | Some d \<Rightarrow> ext(d := ext d + 1))"

definition take_ref :: "(nat \<Rightarrow> nat) \<Rightarrow> nat option \<Rightarrow> nat \<Rightarrow> nat" where
  "take_ref ext r = (case r of None \<Rightarrow> ext | Some d \<Rightarrow> ext(d := ext d - 1))"

lemma holders_upd:
  "holders (m(i := v)) d =
     (if v = Some d then insert i (holders m d) else holders m d - {i})"
  by (auto simp: holders_def)

lemma finite_da_holders: "finite (holders (da_map t) d)"
proof (rule finite_subset)
  show "holders (da_map t) d \<subseteq> {..< unat (num_entries t)}"
    by (auto simp: holders_def da_map_def split: if_splits)
qed simp

lemma holders_pos: "m i = Some d \<Longrightarrow> finite (holders m d) \<Longrightarrow> 0 < card (holders m d)"
  by (auto simp: holders_def card_gt_0_iff)

lemma heap_counts_dead: "heap_counts n h \<Longrightarrow> h x = None \<Longrightarrow> n x = 0"
  unfolding heap_counts_def by (drule spec [of _ x]) simp

lemma heap_counts_upd:
  assumes "heap_counts n h" "case v of None \<Rightarrow> k = 0 | Some c \<Rightarrow> unat c = k \<and> 0 < k"
  shows "heap_counts (n(d := k)) (h(d := v))"
  unfolding heap_counts_def
proof
  fix x
  show "case (h(d := v)) x of None \<Rightarrow> (n(d := k)) x = 0
        | Some c \<Rightarrow> unat c = (n(d := k)) x \<and> 0 < (n(d := k)) x"
    using assms(2) assms(1) [unfolded heap_counts_def, rule_format, of x]
    by (cases "x = d") (auto split: option.splits)
qed

lemma heap_counts_ref:
  assumes "heap_counts n h" "0 < n d"
  shows "NaClRefCountRef h d =
           (if n d + 1 = 2 ^ 32 then Inl LogFatal else Inr (h(d \<mapsto> of_nat (n d + 1))))"
    and "n d + 1 \<noteq> 2 ^ 32 \<Longrightarrow> heap_counts (n(d := n d + 1)) (h(d \<mapsto> of_nat (n d + 1)))"
proof -
  from assms obtain c where c: "h d = Some c" "unat c = n d"
    by (force simp: heap_counts_def split: option.splits)
  have lt: "n d < 4294967296"
    using unat_lt_size_t [of c] c by simp
  have c_eq: "c = of_nat (n d)"
    by (simp flip: c(2))
  have zero: "c + 1 = 0 \<longleftrightarrow> n d + 1 = 2 ^ 32"
  proof -
    have "unat (c + 1) = (n d + 1) mod 4294967296"
      using c(2) by (simp add: unat_word_ariths)
    then have "c + 1 = 0 \<longleftrightarrow> (n d + 1) mod 4294967296 = 0"
      by (metis unat_eq_zero)
    then show ?thesis using lt by (auto simp: mod_if split: if_splits)
  qed
  then show "NaClRefCountRef h d =
           (if n d + 1 = 2 ^ 32 then Inl LogFatal else Inr (h(d \<mapsto> of_nat (n d + 1))))"
    by (simp add: NaClRefCountRef_def c c_eq eq_commute [of 0] add.commute)
  show "heap_counts (n(d := n d + 1)) (h(d \<mapsto> of_nat (n d + 1)))" if "n d + 1 \<noteq> 2 ^ 32"
  proof -
    have "unat (of_nat (n d + 1) :: size_t) = n d + 1"
      using lt that by (simp only: unat_of_nat) simp
    then show ?thesis using assms(1) by (intro heap_counts_upd) simp_all
  qed
qed

lemma heap_counts_unref:
  assumes "heap_counts n h" "0 < n d"
  obtains h' where "NaClRefCountUnref h d = Inr h'" "heap_counts (n(d := n d - 1)) h'"
proof -
  from assms obtain c where c: "h d = Some c" "unat c = n d"
    by (force simp: heap_counts_def split: option.splits)
  have c0: "c \<noteq> 0" using c(2) assms(2) by auto
  then have "1 \<le> c" by (simp add: word_le_nat_alt unat_gt_0 Suc_le_eq)
  then have c1: "unat (c - 1) = n d - 1"
    using c(2) by (simp add: unat_sub_le)
  show thesis
  proof (cases "c - 1 = 0")
    case True
    then have "n d = 1" using c(2) c1 assms(2) by simp
    moreover have "NaClRefCountUnref h d = Inr (h(d := None))"
      using True c0 by (simp add: NaClRefCountUnref_def NaClRefCountDtor_def c Let_def)
    moreover have "heap_counts (n(d := 0)) (h(d := None))"
      using assms(1) by (intro heap_counts_upd) simp_all
    ultimately show thesis
      using that [of "h(d := None)"] by simp
  next
    case False
    then have "0 < n d - 1" using c1 by (metis unat_gt_0 neq0_conv)
    moreover have "NaClRefCountUnref h d = Inr (h(d \<mapsto> c - 1))"
      using False c0 by (simp add: NaClRefCountUnref_def c Let_def)
    moreover have "heap_counts (n(d := n d - 1)) (h(d \<mapsto> c - 1))"
      using assms(1) c1 calculation by (intro heap_counts_upd) simp_all
    ultimately show thesis
      using that [of "h(d \<mapsto> c - 1)"] by simp
  qed
qed

text \<open>Replacing the content of one slot moves one reference out and one in.\<close>

lemma total_refs_set:
  assumes fin: "\<And>d. finite (holders m d)" and own: "\<And>x. v = Some x \<Longrightarrow> 0 < ext x"
  shows "total_refs (m(i := v)) (take_ref ext v) = take_ref (total_refs m ext) (m i)"
proof
  fix x
  have "card (insert i (holders m x)) = (if m i = Some x then card (holders m x) else Suc (card (holders m x)))"
    using fin [of x] by (auto simp: holders_def card_insert_if)
  moreover have "card (holders m x - {i}) = (if m i = Some x then card (holders m x) - 1 else card (holders m x))"
    using fin [of x] by (auto simp: holders_def card_Diff_singleton_if)
  moreover have "m i = Some x \<Longrightarrow> 0 < card (holders m x)"
    using holders_pos [OF _ fin] by blast
  ultimately show "total_refs (m(i := v)) (take_ref ext v) x = take_ref (total_refs m ext) (m i) x"
    using own by (auto simp: total_refs_def holders_upd take_ref_def split: option.splits)
qed

section \<open>The table operations keep the accounts\<close>

lemma GetDescMu_cases:
  assumes inv: "desc_inv ext nap"
  shows "case NaClGetDescMu nap d of
      Inl e \<Rightarrow> e = LogFatal \<and>
        (\<exists>x. da_map (desc_tbl nap) (unat d) = Some x \<and>
             total_refs (da_map (desc_tbl nap)) ext x + 1 = 2 ^ 32)
    | Inr (nap', r) \<Rightarrow> r = da_map (desc_tbl nap) (unat d) \<and>
        desc_tbl nap' = desc_tbl nap \<and> desc_inv (give_ref ext r) nap'"
proof -
  let ?m = "da_map (desc_tbl nap)" and ?h = "desc_refs nap"
  have da: "da_inv (desc_tbl nap)" and hc: "heap_counts (total_refs ?m ext) ?h"
    using inv by (auto simp: desc_inv_def)
  show ?thesis
  proof (cases "?m (unat d)")
    case None
    then show ?thesis
      using inv by (simp add: NaClGetDescMu_def Get_ok [OF da] give_ref_def)
  next
    case (Some x)
    have pos: "0 < total_refs ?m ext x"
      using holders_pos [of ?m, OF Some finite_da_holders] by (simp add: total_refs_def)
    have give: "total_refs ?m (ext(x := ext x + 1)) = (total_refs ?m ext)(x := total_refs ?m ext x + 1)"
      by (auto simp: total_refs_def fun_eq_iff)
    show ?thesis
      using heap_counts_ref [OF hc pos, folded give] Some da
      by (simp add: NaClGetDescMu_def Get_ok [OF da] NaClDescRef_def give_ref_def desc_inv_def)
  qed
qed

lemma SetDescMu_cases:
  assumes inv: "desc_inv ext nap" and d: "unat d < 2 ^ 29"
    and own: "\<And>x. ndp = Some x \<Longrightarrow> 0 < ext x"
  shows "case NaClSetDescMu env nap d ndp of
      Inl e \<Rightarrow> e = LogFatal \<and> \<not> (ptr_alloc_ok env \<and> avail_alloc_ok env)
    | Inr nap' \<Rightarrow> desc_inv (take_ref ext ndp) nap' \<and>
        da_map (desc_tbl nap') = (da_map (desc_tbl nap))(unat d := ndp)"
proof -
  let ?m = "da_map (desc_tbl nap)" and ?h = "desc_refs nap"
  have da: "da_inv (desc_tbl nap)" and hc: "heap_counts (total_refs ?m ext) ?h"
    using inv by (auto simp: desc_inv_def)
  obtain h where h: "NaClDescSafeUnref ?h (?m (unat d)) = Inr h"
    and hc': "heap_counts (take_ref (total_refs ?m ext) (?m (unat d))) h"
  proof (cases "?m (unat d)")
    case None
    then show thesis using that hc by (simp add: NaClDescSafeUnref_def take_ref_def)
  next
    case (Some x)
    have "0 < total_refs ?m ext x"
      using holders_pos [of ?m, OF Some finite_da_holders] by (simp add: total_refs_def)
    then show thesis
      using heap_counts_unref [OF hc, of x] that Some
      by (auto simp: NaClDescSafeUnref_def take_ref_def)
  qed
  obtain t ok where t: "DynArraySet env (desc_tbl nap) d ndp = Inr (t, ok)" "da_inv t"
    and tm: "da_map t = (if ok then ?m(unat d := ndp) else ?m)"
    and okI: "ptr_alloc_ok env \<and> avail_alloc_ok env \<Longrightarrow> ok"
    using Set_ok [OF da d, of env ndp] by metis
  have hc2: "heap_counts (total_refs (?m(unat d := ndp)) (take_ref ext ndp)) h"
    using hc' total_refs_set [OF finite_da_holders own] by simp
  show ?thesis
    using h t tm okI hc2 by (cases ok) (auto simp: NaClSetDescMu_def Get_ok [OF da] desc_inv_def)
qed

lemma first_avail_le_num_entries:
  assumes "\<And>i. i < n \<Longrightarrow> da_map t i \<noteq> None"
  shows "n \<le> unat (num_entries t)"
proof (rule ccontr)
  assume "\<not> n \<le> unat (num_entries t)"
  then show False
    using assms [of "unat (num_entries t)"] by (simp add: da_map_def)
qed

lemma SetAvailMu_cases:
  assumes inv: "desc_inv ext nap" and small: "unat (num_entries (desc_tbl nap)) < 2 ^ 29"
    and own: "\<And>x. ndp = Some x \<Longrightarrow> 0 < ext x"
  shows "case NaClSetAvailMu env nap ndp of
      Inl e \<Rightarrow> e = LogFatal \<and> \<not> (ptr_alloc_ok env \<and> avail_alloc_ok env)
    | Inr (nap', pos) \<Rightarrow> desc_inv (take_ref ext ndp) nap' \<and>
        da_map (desc_tbl nap) (unat pos) = None \<and>
        (\<forall>i < unat pos. da_map (desc_tbl nap) i \<noteq> None) \<and>
        da_map (desc_tbl nap') = (da_map (desc_tbl nap))(unat pos := ndp)"
proof -
  have da: "da_inv (desc_tbl nap)" using inv by (simp add: desc_inv_def)
  obtain t pos where t: "DynArrayFirstAvail (desc_tbl nap) = Inr (t, pos)" "da_inv t"
    "da_map t = da_map (desc_tbl nap)"
    and free: "da_map (desc_tbl nap) (unat pos) = None"
    and below: "\<forall>i < unat pos. da_map (desc_tbl nap) i \<noteq> None"
    using da.first_free_slots [OF da] by blast
  have "unat pos \<le> unat (num_entries (desc_tbl nap))"
    using below by (intro first_avail_le_num_entries) blast
  then have pos: "unat pos < 2 ^ 29" using small by linarith
  then have not_big: "\<not> 0x7FFFFFFF < pos" by (simp add: nat_of_word)
  have inv': "desc_inv ext (nap\<lparr>desc_tbl := t\<rparr>)"
    using inv t by (simp add: desc_inv_def)
  show ?thesis
    using SetDescMu_cases [OF inv' pos, of ndp env, OF own] free below t not_big
    by (auto simp: NaClSetAvailMu_def split: sum.splits)
qed

section \<open>Interleavings of table operations\<close>

text \<open>
  Threads of the runtime use the table in any order; each call runs under \<open>desc_mu\<close>. A
  state is the table with its descriptors and the references held outside it. A caller
  that stores a descriptor or drops a reference owns one; \<open>d\<close> stands for the index.
\<close>

inductive table_step ::
    "desc_state \<times> (nat \<Rightarrow> nat) \<Rightarrow> desc_state \<times> (nat \<Rightarrow> nat) \<Rightarrow> bool" where
  new_desc: "desc_refs nap x = None \<Longrightarrow>
    table_step (nap, ext) (nap\<lparr>desc_refs := fst (NaClRefCountCtor True (desc_refs nap) x)\<rparr>, ext(x := 1))"
| get_desc: "NaClGetDescMu nap d = Inr (nap', r) \<Longrightarrow>
    table_step (nap, ext) (nap', give_ref ext r)"
| set_desc: "unat d < 2 ^ 29 \<Longrightarrow> (\<And>x. ndp = Some x \<Longrightarrow> 0 < ext x) \<Longrightarrow>
    NaClSetDescMu env nap d ndp = Inr nap' \<Longrightarrow>
    table_step (nap, ext) (nap', take_ref ext ndp)"
| set_avail: "unat (num_entries (desc_tbl nap)) < 2 ^ 29 \<Longrightarrow>
    (\<And>x. ndp = Some x \<Longrightarrow> 0 < ext x) \<Longrightarrow>
    NaClSetAvailMu env nap ndp = Inr (nap', pos) \<Longrightarrow>
    table_step (nap, ext) (nap', take_ref ext ndp)"
| drop_ref: "0 < ext x \<Longrightarrow> NaClDescUnref (desc_refs nap) x = Inr h \<Longrightarrow>
    table_step (nap, ext) (nap\<lparr>desc_refs := h\<rparr>, ext(x := ext x - 1))"

inductive_cases table_stepE: "table_step s t"

inductive table_reachable :: "desc_state \<times> (nat \<Rightarrow> nat) \<Rightarrow> bool" where
  start: "DynArrayCtor env dap n = (tbl, True) \<Longrightarrow>
    table_reachable (\<lparr>desc_tbl = tbl, desc_refs = (\<lambda>_. None)\<rparr>, (\<lambda>_. 0))"
| step: "table_reachable s \<Longrightarrow> table_step s t \<Longrightarrow> table_reachable t"

lemma desc_inv_start:
  assumes "DynArrayCtor env dap n = (tbl, True)"
  shows "desc_inv (\<lambda>_. 0) \<lparr>desc_tbl = tbl, desc_refs = (\<lambda>_. None)\<rparr>"
  using Ctor_ok [OF assms] by (simp add: desc_inv_def heap_counts_def total_refs_def holders_def)

lemma total_refs_upd_ext:
  "total_refs m (ext(x := k)) = (total_refs m ext)(x := card (holders m x) + k)"
  by (auto simp: total_refs_def)

lemma desc_inv_new:
  assumes "desc_inv ext nap" "desc_refs nap x = None"
  shows "desc_inv (ext(x := 1)) (nap\<lparr>desc_refs := (desc_refs nap)(x \<mapsto> 1)\<rparr>)"
proof -
  have "total_refs (da_map (desc_tbl nap)) ext x = 0"
    using assms heap_counts_dead by (auto simp: desc_inv_def)
  then have "card (holders (da_map (desc_tbl nap)) x) = 0"
    by (simp add: total_refs_def)
  then show ?thesis
    using assms(1) by (auto simp: desc_inv_def total_refs_upd_ext intro!: heap_counts_upd)
qed

lemma desc_inv_drop:
  assumes inv: "desc_inv ext nap" and own: "0 < ext x"
  obtains h where "NaClDescUnref (desc_refs nap) x = Inr h"
    and "desc_inv (ext(x := ext x - 1)) (nap\<lparr>desc_refs := h\<rparr>)"
proof -
  let ?n = "total_refs (da_map (desc_tbl nap)) ext"
  have "0 < ?n x" using own by (simp add: total_refs_def)
  then obtain h where h: "NaClRefCountUnref (desc_refs nap) x = Inr h"
    "heap_counts (?n(x := ?n x - 1)) h"
    using heap_counts_unref inv by (metis desc_inv_def)
  moreover have "total_refs (da_map (desc_tbl nap)) (ext(x := ext x - 1)) = ?n(x := ?n x - 1)"
    using own by (auto simp: total_refs_def)
  ultimately show thesis
    using that inv by (simp add: NaClDescUnref_def desc_inv_def)
qed

lemma table_step_inv: "table_step s t \<Longrightarrow> desc_inv (snd s) (fst s) \<Longrightarrow> desc_inv (snd t) (fst t)"
proof (induction rule: table_step.induct)
  case (new_desc nap x ext)
  then show ?case using desc_inv_new [of ext nap x] by (simp add: NaClRefCountCtor_def fun_upd_def)
next
  case (get_desc nap d nap' r ext)
  have "desc_inv ext nap" using get_desc.prems by simp
  then have "desc_inv (give_ref ext r) nap'"
    using GetDescMu_cases [of ext nap d] unfolding get_desc.hyps sum.case prod.case by blast
  then show ?case by simp
next
  case (set_desc d ndp ext env nap nap')
  have "desc_inv ext nap" using set_desc.prems by simp
  from SetDescMu_cases [OF this set_desc.hyps(1), of ndp env, OF set_desc.hyps(2)]
  show ?case unfolding set_desc.hyps(3) by simp
next
  case (set_avail nap ndp ext env nap' pos)
  have "desc_inv ext nap" using set_avail.prems by simp
  from SetAvailMu_cases [OF this set_avail.hyps(1), of ndp env, OF set_avail.hyps(2)]
  show ?case unfolding set_avail.hyps(3) by simp
next
  case (drop_ref ext x nap h)
  have "desc_inv ext nap" using drop_ref.prems by simp
  from desc_inv_drop [OF this drop_ref.hyps(1)] obtain h'
    where "NaClDescUnref (desc_refs nap) x = Inr h'"
      and inv: "desc_inv (ext(x := ext x - 1)) (nap\<lparr>desc_refs := h'\<rparr>)" .
  then have "h' = h" using drop_ref.hyps(2) by simp
  then show ?case using inv by (simp only: fst_conv snd_conv)
qed

lemma table_reachable_inv: "table_reachable s \<Longrightarrow> desc_inv (snd s) (fst s)"
  by (induction rule: table_reachable.induct) (auto intro: desc_inv_start table_step_inv)

section \<open>The thread table counts its threads\<close>

definition thread_inv :: "thread_table \<Rightarrow> bool" where
  "thread_inv nap \<longleftrightarrow> da_inv (threads nap) \<and>
     unat (num_threads nap) = card (dom (da_map (threads nap)))"

lemma dom_da_map_subset: "dom (da_map t) \<subseteq> {..< unat (num_entries t)}"
  by (auto simp: da_map_def split: if_splits)

lemma finite_dom_da_map: "finite (dom (da_map t))"
  by (rule finite_subset [OF dom_da_map_subset]) simp

lemma card_dom_da_map: "card (dom (da_map t)) \<le> unat (num_entries t)"
  using card_mono [OF _ dom_da_map_subset [of t]] by simp

lemma AddThreadMu_cases:
  assumes inv: "thread_inv nap" and small: "unat (num_entries (threads nap)) < 2 ^ 29"
  shows "case NaClAddThreadMu env nap natp of
      Inl e \<Rightarrow> e = LogFatal \<and> \<not> (ptr_alloc_ok env \<and> avail_alloc_ok env)
    | Inr (nap', pos) \<Rightarrow> thread_inv nap' \<and> da_map (threads nap) (unat pos) = None \<and>
        da_map (threads nap') = (da_map (threads nap))(unat pos \<mapsto> natp)"
proof -
  have da: "da_inv (threads nap)" using inv by (simp add: thread_inv_def)
  obtain t pos where t: "DynArrayFirstAvail (threads nap) = Inr (t, pos)" "da_inv t"
    "da_map t = da_map (threads nap)"
    and free: "da_map (threads nap) (unat pos) = None"
    and below: "\<forall>i < unat pos. da_map (threads nap) i \<noteq> None"
    using da.first_free_slots [OF da] by blast
  have "unat pos \<le> unat (num_entries (threads nap))"
    using below by (intro first_avail_le_num_entries) blast
  then have pos: "unat pos < 2 ^ 29" using small by linarith
  obtain t' ok where t': "DynArraySet env t pos (Some natp) = Inr (t', ok)" "da_inv t'"
    and tm: "da_map t' = (if ok then (da_map t)(unat pos \<mapsto> natp) else da_map t)"
    and okI: "ptr_alloc_ok env \<and> avail_alloc_ok env \<Longrightarrow> ok"
    using Set_ok [OF t(2) pos, of env "Some natp"] by metis
  have "unat (num_threads nap) < 2 ^ 29"
    using inv small card_dom_da_map [of "threads nap"] by (simp add: thread_inv_def)
  then have n1: "unat (num_threads nap + 1) = unat (num_threads nap) + 1"
    by (simp add: unat_add_no_wrap)
  have "card (insert (unat pos) (dom (da_map (threads nap)))) = card (dom (da_map (threads nap))) + 1"
    using free finite_dom_da_map [of "threads nap"] by (auto simp: card_insert_if)
  then show ?thesis
    using t t' tm okI free n1 inv by (cases ok) (auto simp: NaClAddThreadMu_def thread_inv_def)
qed

lemma RemoveThreadMu_cases:
  assumes inv: "thread_inv nap" and d: "unat n < 2 ^ 29"
    and live: "da_map (threads nap) (unat n) = Some natp"
  shows "case NaClRemoveThreadMu env nap n of
      Inl e \<Rightarrow> e = LogFatal \<and> \<not> (ptr_alloc_ok env \<and> avail_alloc_ok env)
    | Inr nap' \<Rightarrow> thread_inv nap' \<and>
        da_map (threads nap') = (da_map (threads nap))(unat n := None)"
proof -
  have da: "da_inv (threads nap)" using inv by (simp add: thread_inv_def)
  obtain t' ok where t': "DynArraySet env (threads nap) n None = Inr (t', ok)" "da_inv t'"
    and tm: "da_map t' = (if ok then (da_map (threads nap))(unat n := None) else da_map (threads nap))"
    and okI: "ptr_alloc_ok env \<and> avail_alloc_ok env \<Longrightarrow> ok"
    using Set_ok [OF da d, of env None] by metis
  have mem: "unat n \<in> dom (da_map (threads nap))" using live by auto
  then have "0 < card (dom (da_map (threads nap)))"
    using finite_dom_da_map by (auto simp: card_gt_0_iff)
  then have pos: "0 < unat (num_threads nap)"
    using inv by (simp add: thread_inv_def)
  then have nz: "num_threads nap \<noteq> 0" by auto
  have n1: "unat (num_threads nap - 1) = unat (num_threads nap) - 1"
    using pos by (simp add: unat_sub_le nat_of_word)
  have "card (dom (da_map (threads nap)) - {unat n}) = card (dom (da_map (threads nap))) - 1"
    using mem finite_dom_da_map by (simp add: card_Diff_singleton)
  then show ?thesis
    using t' tm okI n1 nz live inv
    by (cases ok) (auto simp: NaClRemoveThreadMu_def Get_ok [OF da] thread_inv_def)
qed

section \<open>Properties\<close>

text \<open>C14: In every interleaving of descriptor-table calls whose callers own the references
  they pass in, the reference count of each descriptor is the number of slots holding it
  plus the references held outside, so no call ever touches a freed descriptor, frees one
  that is still referenced, or reads outside the table.\<close>

theorem desc_table_no_use_after_free:
  assumes "table_reachable (nap, ext)"
  shows "desc_inv ext nap \<and>
    (\<forall>d. case NaClGetDescMu nap d of Inl e \<Rightarrow> e = LogFatal | Inr _ \<Rightarrow> True) \<and>
    (\<forall>d ndp env. unat d < 2 ^ 29 \<longrightarrow> (\<forall>x. ndp = Some x \<longrightarrow> 0 < ext x) \<longrightarrow>
       (case NaClSetDescMu env nap d ndp of Inl e \<Rightarrow> e = LogFatal | Inr _ \<Rightarrow> True)) \<and>
    (\<forall>x. 0 < ext x \<longrightarrow> (\<exists>h. NaClDescUnref (desc_refs nap) x = Inr h))"
proof (intro conjI allI impI)
  show inv: "desc_inv ext nap" using table_reachable_inv [OF assms] by simp
  show "case NaClGetDescMu nap d of Inl e \<Rightarrow> e = LogFatal | Inr _ \<Rightarrow> True" for d
    using GetDescMu_cases [OF inv, of d] by (auto split: sum.splits)
  show "case NaClSetDescMu env nap d ndp of Inl e \<Rightarrow> e = LogFatal | Inr _ \<Rightarrow> True"
    if "unat d < 2 ^ 29" "\<forall>x. ndp = Some x \<longrightarrow> 0 < ext x" for d ndp env
    using SetDescMu_cases [OF inv that(1), of ndp env] that(2) by (auto split: sum.splits)
  show "\<exists>h. NaClDescUnref (desc_refs nap) x = Inr h" if "0 < ext x" for x
    using desc_inv_drop [OF inv that] by metis
qed

definition fresh_table :: "nat DynArray" where
  "fresh_table = fst (DynArrayCtor sample_env sample_array 2)"

lemma fresh_table_Ctor: "DynArrayCtor sample_env sample_array 2 = (fresh_table, True)"
  by (simp add: fresh_table_def DynArrayCtor_def sample_env_def BitsToAllocWords_def)

lemma one_desc_reachable:
  "table_reachable (\<lparr>desc_tbl = fresh_table, desc_refs = (\<lambda>_. None)(5 \<mapsto> 1)\<rparr>, (\<lambda>_. 0)(5 := 1))"
  using table_reachable.step [OF table_reachable.start [OF fresh_table_Ctor]
      table_step.new_desc [of "\<lparr>desc_tbl = fresh_table, desc_refs = (\<lambda>_. None)\<rparr>" 5 "\<lambda>_. 0"]]
  by (simp add: NaClRefCountCtor_def)

theorem desc_table_no_use_after_free_witness:
  "table_reachable (\<lparr>desc_tbl = fresh_table, desc_refs = (\<lambda>_. None)(5 \<mapsto> 1)\<rparr>, (\<lambda>_. 0)(5 := 1)) \<and>
   desc_inv ((\<lambda>_. 0)(5 := 1)) \<lparr>desc_tbl = fresh_table, desc_refs = (\<lambda>_. None)(5 \<mapsto> 1)\<rparr>"
  using desc_table_no_use_after_free [OF one_desc_reachable] one_desc_reachable by blast

text \<open>C15: \<open>NaClSetAvailMu\<close> puts the descriptor in the least free slot, returns that index, leaves
  every other slot alone and takes over exactly the caller's reference; the only way not
  to return is an allocation failure, which aborts.\<close>

theorem NaClSetAvailMu_least_slot:
  assumes "desc_inv ext nap" and "unat (num_entries (desc_tbl nap)) < 2 ^ 29" and "0 < ext x"
  shows "case NaClSetAvailMu env nap (Some x) of
      Inl e \<Rightarrow> e = LogFatal \<and> \<not> (ptr_alloc_ok env \<and> avail_alloc_ok env)
    | Inr (nap', pos) \<Rightarrow> desc_inv (ext(x := ext x - 1)) nap' \<and>
        unat pos = (LEAST i. da_map (desc_tbl nap) i = None) \<and>
        da_map (desc_tbl nap') = (da_map (desc_tbl nap))(unat pos \<mapsto> x)"
proof -
  have least: "unat pos = (LEAST i. m i = None)"
    if "m (unat pos) = None" "\<forall>i < unat pos. m i \<noteq> None" for m :: "nat \<Rightarrow> nat option" and pos :: u32
    using that by (metis (mono_tags, lifting) LeastI_ex Least_le le_neq_implies_less)
  show ?thesis
    using SetAvailMu_cases [OF assms(1,2), of "Some x" env] assms(3) least
    by (auto simp: take_ref_def split: sum.splits)
qed

theorem NaClSetAvailMu_least_slot_witness:
  "case NaClSetAvailMu sample_env
      \<lparr>desc_tbl = fresh_table, desc_refs = (\<lambda>_. None)(5 \<mapsto> 1)\<rparr> (Some 5) of
      Inl e \<Rightarrow> False
    | Inr (nap', pos) \<Rightarrow> da_map (desc_tbl nap') = (da_map fresh_table)(unat pos \<mapsto> 5)"
proof -
  let ?nap = "\<lparr>desc_tbl = fresh_table, desc_refs = (\<lambda>_. None)(5 \<mapsto> 1)\<rparr>"
  have inv: "desc_inv ((\<lambda>_. 0)(5 := 1)) ?nap"
    using table_reachable_inv [OF one_desc_reachable] by simp
  have small: "unat (num_entries (desc_tbl ?nap)) < 2 ^ 29"
    by (simp add: fresh_table_def DynArrayCtor_def sample_env_def BitsToAllocWords_def)
  show ?thesis
    using NaClSetAvailMu_least_slot [OF inv small, of 5 sample_env]
    by (simp add: sample_env_def split: sum.splits prod.splits)
qed

text \<open>C16: \<open>NaClAddThreadMu\<close> and \<open>NaClRemoveThreadMu\<close> keep \<open>num_threads\<close> equal to the number
  of occupied slots of the thread table, fill a free slot, and empty exactly the slot they
  are given; they abort only when an allocation fails or the removed slot holds no thread.\<close>

theorem thread_table_counts:
  assumes "thread_inv nap" and "unat (num_entries (threads nap)) < 2 ^ 29"
  shows "(\<forall>natp. case NaClAddThreadMu env nap natp of
            Inl e \<Rightarrow> e = LogFatal \<and> \<not> (ptr_alloc_ok env \<and> avail_alloc_ok env)
          | Inr (nap', pos) \<Rightarrow> thread_inv nap' \<and> da_map (threads nap) (unat pos) = None \<and>
              da_map (threads nap') = (da_map (threads nap))(unat pos \<mapsto> natp)) \<and>
         (\<forall>n. case NaClRemoveThreadMu env nap n of
            Inl e \<Rightarrow> e = LogFatal \<and> (da_map (threads nap) (unat n) = None \<or>
              \<not> (ptr_alloc_ok env \<and> avail_alloc_ok env))
          | Inr nap' \<Rightarrow> thread_inv nap' \<and>
              da_map (threads nap') = (da_map (threads nap))(unat n := None))"
proof (intro conjI allI)
  fix natp
  show "case NaClAddThreadMu env nap natp of
            Inl e \<Rightarrow> e = LogFatal \<and> \<not> (ptr_alloc_ok env \<and> avail_alloc_ok env)
          | Inr (nap', pos) \<Rightarrow> thread_inv nap' \<and> da_map (threads nap) (unat pos) = None \<and>
              da_map (threads nap') = (da_map (threads nap))(unat pos \<mapsto> natp)"
    by (rule AddThreadMu_cases [OF assms])
next
  fix n
  have da: "da_inv (threads nap)" using assms(1) by (simp add: thread_inv_def)
  show "case NaClRemoveThreadMu env nap n of
            Inl e \<Rightarrow> e = LogFatal \<and> (da_map (threads nap) (unat n) = None \<or>
              \<not> (ptr_alloc_ok env \<and> avail_alloc_ok env))
          | Inr nap' \<Rightarrow> thread_inv nap' \<and>
              da_map (threads nap') = (da_map (threads nap))(unat n := None)"
  proof (cases "da_map (threads nap) (unat n)")
    case None
    then show ?thesis by (simp add: NaClRemoveThreadMu_def Get_ok [OF da])
  next
    case (Some natp)
    then have "unat n < unat (num_entries (threads nap))"
      by (auto simp: da_map_def split: if_splits)
    then have "unat n < 2 ^ 29" using assms(2) by linarith
    from RemoveThreadMu_cases [OF assms(1) this Some, of env]
    show ?thesis by (auto split: sum.splits)
  qed
qed

definition empty_threads :: thread_table where
  "empty_threads = \<lparr>threads = fresh_table, num_threads = 0\<rparr>"

lemma empty_threads_inv: "thread_inv empty_threads"
  using Ctor_ok [OF fresh_table_Ctor] by (simp add: thread_inv_def empty_threads_def)

theorem thread_table_counts_witness:
  "case NaClAddThreadMu sample_env empty_threads 5 of
     Inl e \<Rightarrow> False
   | Inr (nap', pos) \<Rightarrow> thread_inv nap'"
proof -
  have "unat (num_entries (threads empty_threads)) < 2 ^ 29"
    by (simp add: empty_threads_def fresh_table_def DynArrayCtor_def sample_env_def BitsToAllocWords_def)
  from thread_table_counts [OF empty_threads_inv this, of sample_env,
      THEN conjunct1, THEN spec, of 5]
  show ?thesis by (simp add: sample_env_def split: sum.splits prod.splits)
qed

end
