(* ===== verification/Sel_Util.thy ===== *)
theory Sel_Util
  imports Nacl_Prelude
begin

text \<open>
  Page and power-of-two arithmetic of the loader: \<open>service_runtime/sel_util.c\<close> and the
  inline functions of \<open>service_runtime/sel_util-inl.h\<close>, with the page sizes of
  \<open>nacl_config.h\<close> (4 KiB pages, 64 KiB allocation units).
\<close>

section \<open>The routines\<close>

definition NACL_PAGESHIFT :: nat where "NACL_PAGESHIFT = 12"
definition NACL_MAP_PAGESHIFT :: nat where "NACL_MAP_PAGESHIFT = 16"

definition NACL_PAGESIZE :: size_t where "NACL_PAGESIZE = push_bit NACL_PAGESHIFT 1"
definition NACL_MAP_PAGESIZE :: size_t where "NACL_MAP_PAGESIZE = push_bit NACL_MAP_PAGESHIFT 1"

definition NACL_PAGES_PER_MAP :: size_t where
  "NACL_PAGES_PER_MAP = push_bit (NACL_MAP_PAGESHIFT - NACL_PAGESHIFT) 1"

definition SSIZE_T_MIN :: size_t where
  "SSIZE_T_MIN = NOT (drop_bit 1 (NOT 0))"

text \<open>The loop of \<open>NaClAppPow2Ceil\<close>: after 32 doublings \<open>addr\<close> is 0 and never grows again.\<close>

fun pow2_loop :: "nat \<Rightarrow> size_t \<Rightarrow> size_t \<Rightarrow> size_t res" where
  "pow2_loop fuel addr max_addr =
     (if addr < max_addr
      then (case fuel of 0 \<Rightarrow> Inl Diverges | Suc k \<Rightarrow> pow2_loop k (push_bit 1 addr) max_addr)
      else Inr addr)"

definition NaClAppPow2Ceil :: "size_t \<Rightarrow> size_t res" where
  "NaClAppPow2Ceil max_addr =
     (if max_addr > SSIZE_T_MIN then Inr 0
      else bind_res (pow2_loop 33 1 max_addr) (\<lambda>addr.
             check_res (addr \<ge> max_addr) (
             check_res (addr \<noteq> 0) (
             check_res (addr AND (addr - 1) = 0) (Inr addr)))))"

definition NaClRoundPage :: "size_t \<Rightarrow> size_t" where
  "NaClRoundPage nbytes = (nbytes + NACL_PAGESIZE - 1) AND NOT (NACL_PAGESIZE - 1)"

definition NaClRoundAllocPage :: "size_t \<Rightarrow> size_t" where
  "NaClRoundAllocPage nbytes = (nbytes + NACL_MAP_PAGESIZE - 1) AND NOT (NACL_MAP_PAGESIZE - 1)"

definition NaClTruncPage :: "size_t \<Rightarrow> size_t" where
  "NaClTruncPage nbytes = nbytes AND NOT (NACL_PAGESIZE - 1)"

definition NaClTruncAllocPage :: "size_t \<Rightarrow> size_t" where
  "NaClTruncAllocPage nbytes = nbytes AND NOT (NACL_MAP_PAGESIZE - 1)"

definition NaClBytesToPages :: "size_t \<Rightarrow> size_t" where
  "NaClBytesToPages nbytes = drop_bit NACL_PAGESHIFT (nbytes + NACL_PAGESIZE - 1)"

definition NaClIsPageMultiple :: "uintptr_t \<Rightarrow> bool" where
  "NaClIsPageMultiple addr_or_size \<longleftrightarrow> 0 = ((NACL_PAGESIZE - 1) AND addr_or_size)"

definition NaClIsAllocPageMultiple :: "uintptr_t \<Rightarrow> bool" where
  "NaClIsAllocPageMultiple addr_or_size \<longleftrightarrow> 0 = ((NACL_MAP_PAGESIZE - 1) AND addr_or_size)"

definition NaClRoundPageNumUpToMapMultiple :: "size_t \<Rightarrow> size_t" where
  "NaClRoundPageNumUpToMapMultiple npages =
     (npages + NACL_PAGES_PER_MAP - 1) AND NOT (NACL_PAGES_PER_MAP - 1)"

definition NaClTruncPageNumDownToMapMultiple :: "size_t \<Rightarrow> size_t" where
  "NaClTruncPageNumDownToMapMultiple npages = npages AND NOT (NACL_PAGES_PER_MAP - 1)"

lemmas page_consts = NACL_PAGESHIFT_def NACL_MAP_PAGESHIFT_def NACL_PAGESIZE_def
  NACL_MAP_PAGESIZE_def NACL_PAGES_PER_MAP_def

section \<open>Rounding, read as natural numbers\<close>

text \<open>
  \<open>round_up n w\<close> is the idiom \<open>(w + 2^n - 1) & ~(2^n - 1)\<close> that every rounding routine uses.
\<close>

definition round_up :: "nat \<Rightarrow> size_t \<Rightarrow> size_t" where
  "round_up n w = (w + 2 ^ n - 1) AND NOT (mask n)"

lemma NaClRoundPage_round_up: "NaClRoundPage w = round_up 12 w"
  by (simp add: NaClRoundPage_def round_up_def page_consts mask_eq_exp_minus_1)

lemma NaClRoundAllocPage_round_up: "NaClRoundAllocPage w = round_up 16 w"
  by (simp add: NaClRoundAllocPage_def round_up_def page_consts mask_eq_exp_minus_1)

lemma NaClRoundPageNum_round_up: "NaClRoundPageNumUpToMapMultiple w = round_up 4 w"
  by (simp add: NaClRoundPageNumUpToMapMultiple_def round_up_def page_consts mask_eq_exp_minus_1)

lemma NaClTruncAllocPage_mask: "NaClTruncAllocPage w = w AND NOT (mask 16)"
  by (simp add: NaClTruncAllocPage_def page_consts mask_eq_exp_minus_1)

lemma NaClTruncPageNum_mask: "NaClTruncPageNumDownToMapMultiple w = w AND NOT (mask 4)"
  by (simp add: NaClTruncPageNumDownToMapMultiple_def page_consts mask_eq_exp_minus_1)

lemmas round_as_mask = NaClRoundPage_round_up NaClRoundAllocPage_round_up
  NaClRoundPageNum_round_up NaClTruncAllocPage_mask NaClTruncPageNum_mask

lemma unat_pow2_size_t: "n < 32 \<Longrightarrow> unat (2 ^ n :: size_t) = 2 ^ n"
proof -
  assume "n < 32"
  then have "(2 :: nat) ^ n < 2 ^ 32" by (intro power_strict_increasing) simp_all
  moreover have "unat (of_nat (2 ^ n) :: size_t) = 2 ^ n mod 2 ^ 32"
    by (simp only: unat_of_nat) simp
  ultimately show ?thesis by simp
qed

lemma round_up_bounds:
  assumes n: "n < 32" and fits: "unat w + 2 ^ n \<le> 2 ^ 32"
  shows "2 ^ n dvd unat (round_up n w)" "unat w \<le> unat (round_up n w)"
    "unat (round_up n w) < unat w + 2 ^ n"
proof -
  have one: "(1 :: size_t) \<le> 2 ^ n"
    using n by (simp add: word_le_nat_alt unat_pow2_size_t)
  have "unat (2 ^ n - 1 :: size_t) = 2 ^ n - 1"
    using n one by (simp add: unat_sub_le unat_pow2_size_t)
  then have s: "unat (w + 2 ^ n - 1) = unat w + (2 ^ n - 1)"
    using fits unat_add_no_wrap [of w "2 ^ n - 1"] n
    by (simp add: add_diff_eq)
  show "2 ^ n dvd unat (round_up n w)"
    unfolding round_up_def by (rule unat_and_not_mask_dvd)
  show "unat w \<le> unat (round_up n w)"
    using unat_and_not_mask_gt [of "w + 2 ^ n - 1" n] s unfolding round_up_def by linarith
  show "unat (round_up n w) < unat w + 2 ^ n"
    using unat_and_not_mask_le [of "w + 2 ^ n - 1" n] s one_le_power [of "2 :: nat" n]
    unfolding round_up_def by linarith
qed

lemma round_up_aligned:
  assumes "n < 32" "unat w + 2 ^ n \<le> 2 ^ 32" "2 ^ n dvd unat w"
  shows "round_up n w = w"
proof -
  note b = round_up_bounds [OF assms(1,2)]
  obtain a c where "unat w = 2 ^ n * a" "unat (round_up n w) = 2 ^ n * c"
    using assms(3) b(1) by (auto elim!: dvdE)
  with b(2,3) have "2 ^ n * a \<le> 2 ^ n * c" "2 ^ n * c < 2 ^ n * (a + 1)"
    by (simp_all add: algebra_simps)
  then have "a \<le> c" "c < a + 1"
    by (simp, simp only: mult_less_cancel1)
  then have "a = c" by simp
  then show ?thesis
    using \<open>unat w = _\<close> \<open>unat (round_up n w) = _\<close> by (simp add: word_unat_eq_iff)
qed

section \<open>Properties\<close>

declare pow2_loop.simps [simp del]

lemma pow2_loop_stop: "\<not> addr < max_addr \<Longrightarrow> pow2_loop fuel addr max_addr = Inr addr"
  by (subst pow2_loop.simps) simp

lemma pow2_loop_step:
  "addr < max_addr \<Longrightarrow> pow2_loop (Suc k) addr max_addr = pow2_loop k (push_bit 1 addr) max_addr"
  by (subst pow2_loop.simps) simp

lemma SSIZE_T_MIN_eq: "SSIZE_T_MIN = 0x80000000"
  by code_simp

lemma pow2_loop_finds:
  assumes "k + m = 31" "unat max_addr \<le> 2 ^ 31" "2 ^ k < 2 * unat max_addr \<or> k = 0"
  shows "\<exists>j. j \<le> 31 \<and> pow2_loop (m + 2) (2 ^ k) max_addr = Inr (2 ^ j) \<and>
    unat max_addr \<le> 2 ^ j \<and> (2 ^ j < 2 * unat max_addr \<or> j = 0)"
  using assms
proof (induction m arbitrary: k)
  case 0
  then have "\<not> (2 ^ k :: size_t) < max_addr"
    by (simp add: word_less_nat_alt unat_pow2_size_t)
  then show ?case using 0 by (intro exI [of _ k]) (simp add: pow2_loop_stop)
next
  case (Suc m)
  show ?case
  proof (cases "(2 ^ k :: size_t) < max_addr")
    case True
    then have "2 ^ k < unat max_addr" using Suc.prems by (simp add: word_less_nat_alt unat_pow2_size_t)
    then have "2 ^ Suc k < 2 * unat max_addr" by simp
    moreover have "push_bit 1 (2 ^ k :: size_t) = 2 ^ Suc k"
      by (simp add: push_bit_eq_mult)
    ultimately show ?thesis
      using Suc.IH [of "Suc k"] Suc.prems True by (simp add: pow2_loop_step mult.commute)
  next
    case False
    then show ?thesis
      using Suc.prems by (intro exI [of _ k]) (simp add: pow2_loop_stop word_less_nat_alt unat_pow2_size_t)
  qed
qed

text \<open>C22: \<open>NaClAppPow2Ceil\<close> always returns: 0 above the largest representable power of two,
  and otherwise a power of two that is at least \<open>max_addr\<close> and less than twice it.\<close>

theorem NaClAppPow2Ceil_least_power:
  "\<exists>r. NaClAppPow2Ceil max_addr = Inr r \<and>
     (if 2 ^ 31 < unat max_addr then r = 0
      else (\<exists>j \<le> 31. r = 2 ^ j \<and> unat max_addr \<le> 2 ^ j \<and> (j = 0 \<or> 2 ^ j < 2 * unat max_addr)))"
proof (cases "2 ^ 31 < unat max_addr")
  case True
  then have "max_addr > SSIZE_T_MIN" by (simp add: SSIZE_T_MIN_eq word_less_nat_alt)
  then show ?thesis using True by (simp add: NaClAppPow2Ceil_def)
next
  case False
  then have le: "\<not> max_addr > SSIZE_T_MIN" by (simp add: SSIZE_T_MIN_eq word_less_nat_alt)
  obtain j where j: "j \<le> 31" "pow2_loop 33 1 max_addr = Inr (2 ^ j)" "unat max_addr \<le> 2 ^ j"
    "2 ^ j < 2 * unat max_addr \<or> j = 0"
    using pow2_loop_finds [of 0 31 max_addr] False by auto
  have u: "unat (2 ^ j :: size_t) = 2 ^ j" using j(1) by (simp add: unat_pow2_size_t)
  have "(2 ^ j :: size_t) AND (2 ^ j - 1) = 0"
    unfolding mask_eq_exp_minus_1 [symmetric] by (rule bit_eqI) (auto simp: bit_simps)
  moreover have "(2 ^ j :: size_t) \<noteq> 0" using u by (metis power_not_zero unat_0 zero_neq_numeral)
  ultimately show ?thesis
    using le j u False by (auto simp: NaClAppPow2Ceil_def word_le_nat_alt)
qed

text \<open>C23: \<open>NaClRoundAllocPage\<close> returns the least multiple of the 64 KiB allocation unit that is
  not below its argument, unless that multiple is \<open>2^32\<close>, where it wraps to 0.\<close>

theorem NaClRoundAllocPage_least_multiple:
  "unat (NaClRoundAllocPage w) = ((unat w + 65535) div 65536 * 65536) mod 2 ^ 32"
proof -
  have "unat (NaClRoundAllocPage w) = unat (w + 65535) - unat (w + 65535) mod 2 ^ 16"
    unfolding round_as_mask round_up_def
    by (subst unat_and_not_mask) (simp add: add.commute)
  also have "\<dots> = unat (w + 65535) div 65536 * 65536"
    by (simp add: minus_mod_eq_div_mult)
  also have "unat (w + 65535) = (unat w + 65535) mod 2 ^ 32"
    by (simp add: unat_word_ariths)
  also have "(unat w + 65535) mod 2 ^ 32 div 65536 * 65536
      = ((unat w + 65535) div 65536 * 65536) mod 2 ^ 32"
  proof -
    have "x mod (65536 * 65536) div 65536 = x div 65536 mod 65536" for x :: nat
      by (simp only: mod_mult2_eq)
    then show ?thesis by (simp add: mod_mult_mult2 [of _ 65536 65536, simplified])
  qed
  finally show ?thesis .
qed

end
