(* ===== verification/Vmmap.thy ===== *)
theory Vmmap
  imports Desc_Table Sel_Util "HOL-Library.Multiset"
begin

text \<open>
  The memory map of an application: \<open>service_runtime/sel_mem.c\<close> over the memory objects of
  \<open>service_runtime/nacl_memory_object.c\<close>.

  An entry and its memory object are owned by exactly one slot of the map, so they are
  values; a slot holds \<open>None\<close> for \<open>NULL\<close>. Page numbers and page counts are 32-bit words, whose
  wrap-around the comparisons of the code depend on; the array indices and sizes are natural
  numbers, with the products that \<open>realloc\<close> receives taken modulo \<open>2^32\<close>. Descriptor reference
  counts are the heap of \<open>Desc_Table\<close>. \<open>qsort\<close> and \<open>bsearch\<close> are those of the C library: an
  insertion sort and a binary search driven by the comparison function of the source. The
  \<open>assert\<close> of the last branch of \<open>NaClVmmapUpdate\<close>, which the optimised build drops, is not
  modelled; it holds on every well-formed map.
\<close>

section \<open>Memory objects\<close>

text \<open>\<open>nacl_off64_t\<close> is a signed 64-bit integer, here its two's complement word.\<close>

type_synonym nacl_off64_t = "64 word"

record NaClMemObj =
  mo_ndp :: nat
  mo_nbytes :: nacl_off64_t
  mo_offset :: nacl_off64_t

definition NaClMemObjCtor :: "desc_heap \<Rightarrow> nat option \<Rightarrow> nacl_off64_t \<Rightarrow> nacl_off64_t \<Rightarrow> (desc_heap \<times> NaClMemObj) res" where
  "NaClMemObjCtor h ndp nbytes off =
     (case ndp of
        None \<Rightarrow> Inl LogFatal
      | Some d \<Rightarrow> bind_res (NaClDescRef h d) (\<lambda>h1.
          Inr (h1, \<lparr>mo_ndp = d, mo_nbytes = nbytes, mo_offset = off\<rparr>)))"

definition NaClMemObjCopyCtorOff :: "desc_heap \<Rightarrow> NaClMemObj \<Rightarrow> nacl_off64_t \<Rightarrow> (desc_heap \<times> NaClMemObj) res" where
  "NaClMemObjCopyCtorOff h src additional =
     bind_res (NaClDescRef h (mo_ndp src)) (\<lambda>h1.
       Inr (h1, \<lparr>mo_ndp = mo_ndp src, mo_nbytes = mo_nbytes src,
                 mo_offset = mo_offset src + additional\<rparr>))"

definition NaClMemObjDtor :: "desc_heap \<Rightarrow> NaClMemObj \<Rightarrow> desc_heap res" where
  "NaClMemObjDtor h nmop = NaClDescUnref h (mo_ndp nmop)"

definition NaClMemObjSafeDtor :: "desc_heap \<Rightarrow> NaClMemObj option \<Rightarrow> desc_heap res" where
  "NaClMemObjSafeDtor h nmop =
     (case nmop of None \<Rightarrow> Inr h | Some m \<Rightarrow> NaClMemObjDtor h m)"

text \<open>\<open>malloc_ok\<close> says whether the allocation of the object succeeds.\<close>

definition NaClMemObjMake ::
    "bool \<Rightarrow> desc_heap \<Rightarrow> nat option \<Rightarrow> nacl_off64_t \<Rightarrow> nacl_off64_t \<Rightarrow> (desc_heap \<times> NaClMemObj option) res" where
  "NaClMemObjMake malloc_ok h ndp nbytes off =
     (if ndp = None then Inr (h, None)
      else if \<not> malloc_ok then Inl LogFatal
      else bind_res (NaClMemObjCtor h ndp nbytes off) (\<lambda>(h1, m). Inr (h1, Some m)))"

definition NaClMemObjSplit ::
    "bool \<Rightarrow> desc_heap \<Rightarrow> NaClMemObj option \<Rightarrow> nacl_off64_t \<Rightarrow> (desc_heap \<times> NaClMemObj option) res" where
  "NaClMemObjSplit malloc_ok h orig additional =
     (case orig of
        None \<Rightarrow> Inr (h, None)
      | Some m \<Rightarrow>
          if \<not> malloc_ok then Inl LogFatal
          else bind_res (NaClMemObjCopyCtorOff h m additional) (\<lambda>(h1, m1). Inr (h1, Some m1)))"

definition NaClMemObjIncOffset :: "NaClMemObj option \<Rightarrow> nacl_off64_t \<Rightarrow> NaClMemObj option" where
  "NaClMemObjIncOffset nmop additional =
     map_option (\<lambda>m. m\<lparr>mo_offset := mo_offset m + additional\<rparr>) nmop"

section \<open>Entries and the map\<close>

record NaClVmmapEntry =
  page_num :: uintptr_t
  npages :: size_t
  prot :: int
  nmop :: "NaClMemObj option"
  removed :: bool

record NaClVmmap =
  vmentry :: "NaClVmmapEntry option list"
  nvalid :: nat
  vm_size :: nat
  is_sorted :: bool

text \<open>What the allocator answers: to the array (\<open>calloc\<close>, \<open>realloc\<close>), to an entry, to a memory object.\<close>

record vm_env =
  map_alloc_ok :: bool
  entry_alloc_ok :: bool
  memobj_alloc_ok :: bool

definition START_ENTRIES :: nat where "START_ENTRIES = 5"

definition NaClVmmapEntryMake ::
    "vm_env \<Rightarrow> uintptr_t \<Rightarrow> size_t \<Rightarrow> int \<Rightarrow> NaClMemObj option \<Rightarrow> NaClVmmapEntry option" where
  "NaClVmmapEntryMake env pn np pr mo =
     (if \<not> entry_alloc_ok env then None
      else Some \<lparr>page_num = pn, npages = np, prot = pr, nmop = mo, removed = False\<rparr>)"

definition NaClVmmapEntryFree :: "desc_heap \<Rightarrow> NaClVmmapEntry \<Rightarrow> desc_heap res" where
  "NaClVmmapEntryFree h entry = NaClMemObjSafeDtor h (nmop entry)"

definition NaClVmmapCtor :: "vm_env \<Rightarrow> NaClVmmap \<Rightarrow> NaClVmmap \<times> bool" where
  "NaClVmmapCtor env self =
     (let self1 = self\<lparr>vm_size := START_ENTRIES\<rparr> in
      if (2 ^ 32 - 1) div 4 < vm_size self1 then (self1, False)
      else if \<not> map_alloc_ok env then (self1\<lparr>vmentry := []\<rparr>, False)
      else (self1\<lparr>vmentry := replicate (vm_size self1) None, nvalid := 0, is_sorted := True\<rparr>, True))"

text \<open>A read through a slot: outside the block, or a NULL entry, does not return.\<close>

definition entry_at :: "NaClVmmapEntry option list \<Rightarrow> nat \<Rightarrow> NaClVmmapEntry res" where
  "entry_at v i =
     bind_res (load v i) (\<lambda>p. case p of None \<Rightarrow> Inl NullDeref | Some e \<Rightarrow> Inr e)"

fun dtor_loop :: "desc_heap \<Rightarrow> NaClVmmapEntry option list \<Rightarrow> nat \<Rightarrow> nat \<Rightarrow> desc_heap res" where
  "dtor_loop h v i 0 = Inr h"
| "dtor_loop h v i (Suc k) =
     bind_res (entry_at v i) (\<lambda>e.
     bind_res (NaClVmmapEntryFree h e) (\<lambda>h1. dtor_loop h1 v (Suc i) k))"

definition NaClVmmapDtor :: "desc_heap \<Rightarrow> NaClVmmap \<Rightarrow> (desc_heap \<times> NaClVmmap) res" where
  "NaClVmmapDtor h self =
     bind_res (dtor_loop h (vmentry self) 0 (nvalid self)) (\<lambda>h1.
       Inr (h1, self\<lparr>vmentry := []\<rparr>))"

section \<open>Removing marked entries\<close>

text \<open>The three loops of \<open>NaClVmmapRemoveMarked\<close>: the marked entries at the end, the scan from the
  front, and the marked entries met at the endp after each move.\<close>

fun rm_tail ::
    "desc_heap \<Rightarrow> NaClVmmapEntry option list \<Rightarrow> nat
      \<Rightarrow> (desc_heap \<times> NaClVmmapEntry option list \<times> nat) res" where
  "rm_tail h v 0 = Inr (h, v, 0)"
| "rm_tail h v (Suc lst) =
     bind_res (entry_at v lst) (\<lambda>e.
       if removed e
       then bind_res (NaClVmmapEntryFree h e) (\<lambda>h1. rm_tail h1 (v[lst := None]) lst)
       else Inr (h, v, lst))"

fun rm_inner ::
    "desc_heap \<Rightarrow> NaClVmmapEntry option list \<Rightarrow> nat \<Rightarrow> nat
      \<Rightarrow> (desc_heap \<times> NaClVmmapEntry option list \<times> nat) res" where
  "rm_inner h v i 0 = Inr (h, v, 0)"
| "rm_inner h v i (Suc lst) =
     (if lst > i
      then bind_res (entry_at v lst) (\<lambda>e.
        if removed e
        then bind_res (NaClVmmapEntryFree h e) (\<lambda>h1. rm_inner h1 (v[lst := None]) i lst)
        else Inr (h, v, lst))
      else Inr (h, v, lst))"

lemma rm_inner_le: "rm_inner h v i lst = Inr (h', v', lst') \<Longrightarrow> lst' \<le> lst"
  by (induction h v i lst rule: rm_inner.induct)
    (fastforce simp: bind_res_Inr_iff split: if_splits)+

function rm_scan ::
    "desc_heap \<Rightarrow> NaClVmmapEntry option list \<Rightarrow> nat \<Rightarrow> nat
      \<Rightarrow> (desc_heap \<times> NaClVmmapEntry option list \<times> nat) res" where
  "rm_scan h v i lst =
     (if i < lst
      then bind_res (entry_at v i) (\<lambda>e.
        if \<not> removed e then rm_scan h v (Suc i) lst
        else bind_res (NaClVmmapEntryFree h e) (\<lambda>h1.
             bind_res (load v lst) (\<lambda>le.
             bind_res (rm_inner h1 (v[i := le, lst := None]) i lst) (\<lambda>(h2, v2, last2).
               rm_scan h2 v2 (Suc i) last2))))
      else Inr (h, v, lst))"
  by pat_completeness auto
termination
  by (relation "measure (\<lambda>(h, v, i, lst). lst - i)") (auto dest!: rm_inner_le)

definition NaClVmmapRemoveMarked :: "desc_heap \<Rightarrow> NaClVmmap \<Rightarrow> (desc_heap \<times> NaClVmmap) res" where
  "NaClVmmapRemoveMarked h self =
     (if 0 = nvalid self then Inr (h, self)
      else
        bind_res (rm_tail h (vmentry self) (nvalid self)) (\<lambda>(h1, v1, last1).
        bind_res (if last1 = 0
                  then bind_res (entry_at v1 0) (\<lambda>e. if removed e then Inl LogFatal else Inr ())
                  else Inr ()) (\<lambda>_.
        check_res (last1 < nvalid self) (
        bind_res (entry_at v1 last1) (\<lambda>e.
        check_res (\<not> removed e) (
        bind_res (rm_scan h1 v1 0 last1) (\<lambda>(h2, v2, last2).
          Inr (h2, self\<lparr>vmentry := v2, nvalid := last2 + 1, is_sorted := False\<rparr>))))))))"

section \<open>Sorting\<close>

definition NaClVmmapCmpEntries :: "NaClVmmapEntry \<Rightarrow> NaClVmmapEntry \<Rightarrow> int" where
  "NaClVmmapCmpEntries left right = sint (page_num left - page_num right)"

fun qsort_insert :: "('a \<Rightarrow> 'a \<Rightarrow> int) \<Rightarrow> 'a \<Rightarrow> 'a list \<Rightarrow> 'a list" where
  "qsort_insert cmp x [] = [x]"
| "qsort_insert cmp x (y # ys) =
     (if cmp x y \<le> 0 then x # y # ys else y # qsort_insert cmp x ys)"

definition qsort_by :: "('a \<Rightarrow> 'a \<Rightarrow> int) \<Rightarrow> 'a list \<Rightarrow> 'a list" where
  "qsort_by cmp xs = foldr (qsort_insert cmp) xs []"

fun deref_all :: "'a option list \<Rightarrow> 'a list res" where
  "deref_all [] = Inr []"
| "deref_all (p # ps) =
     (case p of None \<Rightarrow> Inl NullDeref
      | Some e \<Rightarrow> bind_res (deref_all ps) (\<lambda>es. Inr (e # es)))"

definition NaClVmmapMakeSorted :: "desc_heap \<Rightarrow> NaClVmmap \<Rightarrow> (desc_heap \<times> NaClVmmap) res" where
  "NaClVmmapMakeSorted h self =
     (if is_sorted self then Inr (h, self)
      else bind_res (NaClVmmapRemoveMarked h self) (\<lambda>(h1, self1).
           bind_res (deref_all (take (nvalid self1) (vmentry self1))) (\<lambda>es.
             Inr (h1, self1\<lparr>vmentry := map Some (qsort_by NaClVmmapCmpEntries es)
                                          @ drop (nvalid self1) (vmentry self1),
                            is_sorted := True\<rparr>))))"

section \<open>Adding and updating\<close>

text \<open>
  \<open>NaClVmmapAdd\<close> stores whatever \<open>NaClVmmapEntryMake\<close> returned, a NULL pointer included. A
  grown array is read as \<open>None\<close> beyond the old one, cells no routine reads before they are
  written.
\<close>

definition NaClVmmapAdd ::
    "vm_env \<Rightarrow> NaClVmmap \<Rightarrow> uintptr_t \<Rightarrow> size_t \<Rightarrow> int \<Rightarrow> NaClMemObj option
      \<Rightarrow> (NaClVmmap \<times> bool) res" where
  "NaClVmmapAdd env self pn np pr mo =
     (let new_size = (2 * vm_size self) mod 2 ^ 32;
          cells = (new_size * 4) mod 2 ^ 32 div 4;
          grow = (nvalid self = vm_size self);
          self1 = (if grow
                   then self\<lparr>vmentry := take cells (vmentry self)
                               @ replicate (cells - length (vmentry self)) None,
                             vm_size := new_size\<rparr>
                   else self) in
      if grow \<and> \<not> map_alloc_ok env then Inr (self, False)
      else bind_res (store (vmentry self1) (nvalid self1) (NaClVmmapEntryMake env pn np pr mo)) (\<lambda>v.
             Inr (self1\<lparr>vmentry := v, is_sorted := False, nvalid := Suc (nvalid self1)\<rparr>, True)))"

text \<open>\<open>(new_region_end_page - ent->page_num) << NACL_PAGESHIFT\<close>, computed in 32 bits and widened.\<close>

definition additional_offset :: "uintptr_t \<Rightarrow> NaClVmmapEntry \<Rightarrow> nacl_off64_t" where
  "additional_offset endp ent = ucast (push_bit NACL_PAGESHIFT (endp - page_num ent))"

definition set_entry :: "NaClVmmap \<Rightarrow> nat \<Rightarrow> NaClVmmapEntry \<Rightarrow> NaClVmmap" where
  "set_entry self i ent = self\<lparr>vmentry := (vmentry self)[i := Some ent]\<rparr>"

lemma nvalid_set_entry [simp]: "nvalid (set_entry self i ent) = nvalid self"
  by (simp add: set_entry_def)

function update_loop ::
    "vm_env \<Rightarrow> desc_heap \<Rightarrow> NaClVmmap \<Rightarrow> nat \<Rightarrow> uintptr_t \<Rightarrow> uintptr_t \<Rightarrow> (desc_heap \<times> NaClVmmap) res" where
  "update_loop env h self i pn endp =
     (if i < nvalid self
      then bind_res (entry_at (vmentry self) i) (\<lambda>ent.
        let ent_end = page_num ent + npages ent in
        if page_num ent < pn \<and> endp < ent_end then
          bind_res (NaClMemObjSplit (memobj_alloc_ok env) h (nmop ent) (additional_offset endp ent)) (\<lambda>(h1, mo).
          bind_res (NaClVmmapAdd env self endp (ent_end - endp) (prot ent) mo) (\<lambda>(self1, ok).
            if \<not> ok then Inl LogFatal
            else Inr (h1, set_entry self1 i (ent\<lparr>npages := pn - page_num ent\<rparr>))))
        else if page_num ent < pn \<and> pn < ent_end then
          update_loop env h (set_entry self i (ent\<lparr>npages := pn - page_num ent\<rparr>)) (Suc i) pn endp
        else if page_num ent < endp \<and> endp < ent_end then
          Inr (h, set_entry self i (ent\<lparr>nmop := NaClMemObjIncOffset (nmop ent) (additional_offset endp ent),
                                        page_num := endp, npages := ent_end - endp\<rparr>))
        else if pn \<le> page_num ent \<and> ent_end \<le> endp then
          update_loop env h (set_entry self i (ent\<lparr>removed := True\<rparr>)) (Suc i) pn endp
        else update_loop env h self (Suc i) pn endp)
      else Inr (h, self))"
  by pat_completeness auto
termination
  by (relation "measure (\<lambda>(env, h, self, i, pn, endp). nvalid self - i)") auto

definition NaClVmmapUpdate ::
    "vm_env \<Rightarrow> desc_heap \<Rightarrow> NaClVmmap \<Rightarrow> uintptr_t \<Rightarrow> size_t \<Rightarrow> int \<Rightarrow> NaClMemObj option \<Rightarrow> bool
      \<Rightarrow> (desc_heap \<times> NaClVmmap) res" where
  "NaClVmmapUpdate env h self pn np pr mo remove =
     bind_res (NaClVmmapMakeSorted h self) (\<lambda>(h1, self1).
     check_res (np > 0) (
     bind_res (update_loop env h1 self1 0 pn (pn + np)) (\<lambda>(h2, self2).
     bind_res (if \<not> remove
               then bind_res (NaClVmmapAdd env self2 pn np pr mo) (\<lambda>(self3, ok).
                      if ok then Inr self3 else Inl LogFatal)
               else Inr self2) (\<lambda>self3.
       NaClVmmapRemoveMarked h2 self3))))"

section \<open>Searching\<close>

definition NaClVmmapContainCmpEntries :: "uintptr_t \<Rightarrow> NaClVmmapEntry \<Rightarrow> int" where
  "NaClVmmapContainCmpEntries key ent =
     (if key < page_num ent then -1
      else if key < page_num ent + npages ent then 0
      else 1)"

function bsearch_from :: "('a \<Rightarrow> int) \<Rightarrow> 'a list \<Rightarrow> nat \<Rightarrow> nat \<Rightarrow> nat option" where
  "bsearch_from cmp xs l u =
     (if l < u
      then let idx = (l + u) div 2; c = cmp (xs ! idx) in
        if c < 0 then bsearch_from cmp xs l idx
        else if c > 0 then bsearch_from cmp xs (Suc idx) u
        else Some idx
      else None)"
  by pat_completeness auto
termination
  by (relation "measure (\<lambda>(cmp, xs, l, u). u - l)") auto

definition vmmap_bsearch :: "NaClVmmap \<Rightarrow> uintptr_t \<Rightarrow> nat option res" where
  "vmmap_bsearch self pnum =
     bind_res (deref_all (take (nvalid self) (vmentry self))) (\<lambda>es.
       Inr (bsearch_from (NaClVmmapContainCmpEntries pnum) es 0 (length es)))"

definition NaClVmmapFindPage ::
    "desc_heap \<Rightarrow> NaClVmmap \<Rightarrow> uintptr_t \<Rightarrow> (desc_heap \<times> NaClVmmap \<times> NaClVmmapEntry option) res" where
  "NaClVmmapFindPage h self pnum =
     bind_res (NaClVmmapMakeSorted h self) (\<lambda>(h1, self1).
     bind_res (vmmap_bsearch self1 pnum) (\<lambda>r.
       case r of
         None \<Rightarrow> Inr (h1, self1, None)
       | Some ix \<Rightarrow> bind_res (load (vmentry self1) ix) (\<lambda>p. Inr (h1, self1, p))))"

text \<open>An iterator is the index of its entry; the map it points to is passed along.\<close>

definition NaClVmmapFindPageIter ::
    "desc_heap \<Rightarrow> NaClVmmap \<Rightarrow> uintptr_t \<Rightarrow> (desc_heap \<times> NaClVmmap \<times> nat) res" where
  "NaClVmmapFindPageIter h self pnum =
     bind_res (NaClVmmapMakeSorted h self) (\<lambda>(h1, self1).
     bind_res (vmmap_bsearch self1 pnum) (\<lambda>r.
       Inr (h1, self1, case r of None \<Rightarrow> nvalid self1 | Some ix \<Rightarrow> ix)))"

definition NaClVmmapIterAtEnd :: "NaClVmmap \<Rightarrow> nat \<Rightarrow> bool" where
  "NaClVmmapIterAtEnd self entry_ix \<longleftrightarrow> entry_ix \<ge> nvalid self"

definition NaClVmmapIterStar :: "NaClVmmap \<Rightarrow> nat \<Rightarrow> NaClVmmapEntry option res" where
  "NaClVmmapIterStar self entry_ix = load (vmentry self) entry_ix"

definition NaClVmmapIterIncr :: "nat \<Rightarrow> nat" where
  "NaClVmmapIterIncr entry_ix = Suc entry_ix"

text \<open>\<open>NaClVmmapIterErase\<close> frees the entry but not its memory object.\<close>

definition NaClVmmapIterErase :: "NaClVmmap \<Rightarrow> nat \<Rightarrow> NaClVmmap res" where
  "NaClVmmapIterErase self entry_ix =
     bind_res (load (vmentry self) entry_ix) (\<lambda>_.
     let lst = (nvalid self + (2 ^ 32 - 1)) mod 2 ^ 32 in
     bind_res (load (vmentry self) lst) (\<lambda>p.
     bind_res (store (vmentry self) entry_ix p) (\<lambda>v.
       Inr (self\<lparr>vmentry := v, nvalid := lst, is_sorted := False\<rparr>))))"

fun visit_loop ::
    "('s \<Rightarrow> NaClVmmapEntry \<Rightarrow> 's) \<Rightarrow> 's \<Rightarrow> NaClVmmapEntry option list \<Rightarrow> nat \<Rightarrow> nat \<Rightarrow> 's res" where
  "visit_loop fn state v i 0 = Inr state"
| "visit_loop fn state v i (Suc k) =
     bind_res (entry_at v i) (\<lambda>e. visit_loop fn (fn state e) v (Suc i) k)"

definition NaClVmmapVisit ::
    "desc_heap \<Rightarrow> NaClVmmap \<Rightarrow> ('s \<Rightarrow> NaClVmmapEntry \<Rightarrow> 's) \<Rightarrow> 's \<Rightarrow> (desc_heap \<times> NaClVmmap \<times> 's) res" where
  "NaClVmmapVisit h self fn state =
     bind_res (NaClVmmapMakeSorted h self) (\<lambda>(h1, self1).
     bind_res (visit_loop fn state (vmentry self1) 0 (nvalid self1)) (\<lambda>s1.
       Inr (h1, self1, s1)))"

section \<open>Finding free space\<close>

text \<open>The loops \<open>for (i = self->nvalid; --i > 0; )\<close> look at the gap below entry \<open>i\<close>, from the top.\<close>

fun find_space_loop :: "NaClVmmapEntry option list \<Rightarrow> size_t \<Rightarrow> nat \<Rightarrow> uintptr_t res" where
  "find_space_loop v num_pages 0 = Inr 0"
| "find_space_loop v num_pages (Suc i) =
     (if i > 0
      then bind_res (entry_at v (i - 1)) (\<lambda>vmep.
           bind_res (entry_at v i) (\<lambda>cur.
             let end_page = page_num vmep + npages vmep; start_page = page_num cur in
             if start_page - end_page \<ge> num_pages then Inr (start_page - num_pages)
             else find_space_loop v num_pages i))
      else Inr 0)"

definition NaClVmmapFindSpace ::
    "desc_heap \<Rightarrow> NaClVmmap \<Rightarrow> size_t \<Rightarrow> (desc_heap \<times> NaClVmmap \<times> uintptr_t) res" where
  "NaClVmmapFindSpace h self num_pages =
     (if 0 = nvalid self then Inr (h, self, 0)
      else bind_res (NaClVmmapMakeSorted h self) (\<lambda>(h1, self1).
           bind_res (find_space_loop (vmentry self1) num_pages (nvalid self1)) (\<lambda>r.
             Inr (h1, self1, r))))"

fun find_map_space_loop :: "NaClVmmapEntry option list \<Rightarrow> size_t \<Rightarrow> nat \<Rightarrow> uintptr_t res" where
  "find_map_space_loop v num_pages 0 = Inr 0"
| "find_map_space_loop v num_pages (Suc i) =
     (if i > 0
      then bind_res (entry_at v (i - 1)) (\<lambda>vmep.
           bind_res (entry_at v i) (\<lambda>cur.
             let end_page = NaClRoundPageNumUpToMapMultiple (page_num vmep + npages vmep);
                 start_page = (if NACL_MAP_PAGESHIFT > NACL_PAGESHIFT
                               then NaClTruncPageNumDownToMapMultiple (page_num cur)
                               else page_num cur) in
             if NACL_MAP_PAGESHIFT > NACL_PAGESHIFT \<and> start_page \<le> end_page
             then find_map_space_loop v num_pages i
             else if start_page - end_page \<ge> num_pages then Inr (start_page - num_pages)
             else find_map_space_loop v num_pages i))
      else Inr 0)"

definition NaClVmmapFindMapSpace ::
    "desc_heap \<Rightarrow> NaClVmmap \<Rightarrow> size_t \<Rightarrow> (desc_heap \<times> NaClVmmap \<times> uintptr_t) res" where
  "NaClVmmapFindMapSpace h self num_pages =
     (if 0 = nvalid self then Inr (h, self, 0)
      else bind_res (NaClVmmapMakeSorted h self) (\<lambda>(h1, self1).
           bind_res (find_map_space_loop (vmentry self1)
                       (NaClRoundPageNumUpToMapMultiple num_pages) (nvalid self1)) (\<lambda>r.
             Inr (h1, self1, r))))"

function find_above_loop ::
    "NaClVmmapEntry option list \<Rightarrow> uintptr_t \<Rightarrow> size_t \<Rightarrow> nat \<Rightarrow> nat \<Rightarrow> uintptr_t res" where
  "find_above_loop v usr_page num_pages nv i =
     (if i < nv
      then bind_res (entry_at v (i - 1)) (\<lambda>vmep.
           bind_res (entry_at v i) (\<lambda>cur.
             let end_page = NaClRoundPageNumUpToMapMultiple (page_num vmep + npages vmep);
                 start_page = (if NACL_MAP_PAGESHIFT > NACL_PAGESHIFT
                               then NaClTruncPageNumDownToMapMultiple (page_num cur)
                               else page_num cur) in
             if NACL_MAP_PAGESHIFT > NACL_PAGESHIFT \<and> start_page \<le> end_page
             then find_above_loop v usr_page num_pages nv (Suc i)
             else
               let end1 = (if end_page \<le> usr_page \<and> usr_page < start_page then usr_page else end_page) in
               if usr_page \<le> end1 \<and> start_page - end1 \<ge> num_pages then Inr end1
               else find_above_loop v usr_page num_pages nv (Suc i)))
      else Inr 0)"
  by pat_completeness auto
termination
  by (relation "measure (\<lambda>(v, u, n, nv, i). nv - i)") auto

definition NaClVmmapFindMapSpaceAboveHint ::
    "desc_heap \<Rightarrow> NaClVmmap \<Rightarrow> uintptr_t \<Rightarrow> size_t \<Rightarrow> (desc_heap \<times> NaClVmmap \<times> uintptr_t) res" where
  "NaClVmmapFindMapSpaceAboveHint h self uaddr num_pages =
     bind_res (NaClVmmapMakeSorted h self) (\<lambda>(h1, self1).
     bind_res (find_above_loop (vmentry self1) (drop_bit NACL_PAGESHIFT uaddr)
                 (NaClRoundPageNumUpToMapMultiple num_pages) (nvalid self1) 1) (\<lambda>r.
       Inr (h1, self1, r)))"

declare rm_scan.simps [simp del] update_loop.simps [simp del]
  bsearch_from.simps [simp del] find_above_loop.simps [simp del]

section \<open>What the map means\<close>

text \<open>
  The contents of the map, page by page: the protection and, for a page backed by a
  descriptor, the descriptor and the file offset of the page.
\<close>

type_synonym page_info = "int \<times> (nat \<times> nacl_off64_t) option"

definition page_end :: "NaClVmmapEntry \<Rightarrow> nat" where
  "page_end e = unat (page_num e) + unat (npages e)"

definition covers :: "NaClVmmapEntry \<Rightarrow> nat \<Rightarrow> bool" where
  "covers e p \<longleftrightarrow> unat (page_num e) \<le> p \<and> p < page_end e"

definition backing :: "NaClVmmapEntry \<Rightarrow> nat \<Rightarrow> (nat \<times> nacl_off64_t) option" where
  "backing e p =
     map_option (\<lambda>m. (mo_ndp m, mo_offset m + 4096 * (of_nat p - of_nat (unat (page_num e))))) (nmop e)"

definition entries :: "NaClVmmap \<Rightarrow> NaClVmmapEntry list" where
  "entries vm = map the (take (nvalid vm) (vmentry vm))"

definition vm_pages :: "NaClVmmap \<Rightarrow> nat \<Rightarrow> page_info option" where
  "vm_pages vm p = map_option (\<lambda>e. (prot e, backing e p)) (List.find (\<lambda>e. covers e p) (entries vm))"

definition apart :: "NaClVmmapEntry \<Rightarrow> NaClVmmapEntry \<Rightarrow> bool" where
  "apart a b \<longleftrightarrow> page_end a \<le> unat (page_num b) \<or> page_end b \<le> unat (page_num a)"

definition before :: "NaClVmmapEntry \<Rightarrow> NaClVmmapEntry \<Rightarrow> bool" where
  "before a b \<longleftrightarrow> page_end a \<le> unat (page_num b)"

definition ent_ok :: "NaClVmmapEntry \<Rightarrow> bool" where
  "ent_ok e \<longleftrightarrow> 0 < npages e \<and> page_end e \<le> 2 ^ 20"

definition good :: "NaClVmmapEntry list \<Rightarrow> bool" where
  "good es \<longleftrightarrow> (\<forall>e \<in> set es. ent_ok e \<and> \<not> removed e) \<and> sorted_wrt apart es"

definition layout :: "NaClVmmap \<Rightarrow> NaClVmmapEntry list \<Rightarrow> bool" where
  "layout vm es \<longleftrightarrow> (\<exists>rest. vmentry vm = map Some es @ rest) \<and> nvalid vm = length es \<and>
     vm_size vm = length (vmentry vm) \<and> 0 < vm_size vm \<and> vm_size vm \<le> 2 ^ 22"

definition refs :: "NaClVmmapEntry multiset \<Rightarrow> nat \<Rightarrow> nat" where
  "refs M d = size {#e \<in># M. map_option mo_ndp (nmop e) = Some d#}"

abbreviation vm_heap :: "(nat \<Rightarrow> nat) \<Rightarrow> NaClVmmapEntry multiset \<Rightarrow> desc_heap \<Rightarrow> bool" where
  "vm_heap ext M h \<equiv> heap_counts (\<lambda>d. refs M d + ext d) h"

text \<open>
  The invariant: the valid slots hold unmarked, pairwise disjoint, non-empty regions inside
  the 32-bit address space, sorted when the flag says so, and every descriptor's count is the
  number of entries it backs plus the references held elsewhere.
\<close>

definition vm_inv :: "(nat \<Rightarrow> nat) \<Rightarrow> desc_heap \<Rightarrow> NaClVmmap \<Rightarrow> bool" where
  "vm_inv ext h vm \<longleftrightarrow> layout vm (entries vm) \<and> good (entries vm) \<and>
     (is_sorted vm \<longrightarrow> sorted_wrt before (entries vm)) \<and> vm_heap ext (mset (entries vm)) h"

lemma layout_entries: "layout vm es \<Longrightarrow> entries vm = es"
  by (auto simp: layout_def entries_def)

lemma vm_invI:
  assumes "layout vm es" "good es" "is_sorted vm \<Longrightarrow> sorted_wrt before es" "vm_heap ext (mset es) h"
  shows "vm_inv ext h vm"
  using assms layout_entries [OF assms(1)] by (simp add: vm_inv_def)

lemma vm_invE:
  assumes "vm_inv ext h vm"
  obtains es where "layout vm es" "good es" "is_sorted vm \<Longrightarrow> sorted_wrt before es"
    "vm_heap ext (mset es) h" "entries vm = es"
  using assms by (auto simp: vm_inv_def)

lemma layout_nvalid: "layout vm es \<Longrightarrow> nvalid vm = length es"
  by (simp add: layout_def)

lemma layout_entry_at: "layout vm es \<Longrightarrow> i < length es \<Longrightarrow> entry_at (vmentry vm) i = Inr (es ! i)"
  by (auto simp: layout_def entry_at_def load_def nth_append)

lemma entry_at_Some_append: "i < length es \<Longrightarrow> entry_at (map Some es @ rest) i = Inr (es ! i)"
  by (simp add: entry_at_def load_def nth_append)

lemma layout_deref_all: "layout vm es \<Longrightarrow> deref_all (take (nvalid vm) (vmentry vm)) = Inr es"
proof -
  have "deref_all (map Some es) = Inr es" for es :: "NaClVmmapEntry list"
    by (induction es) auto
  then show "layout vm es \<Longrightarrow> ?thesis" by (auto simp: layout_def)
qed

section \<open>Freeing and removing entries\<close>

lemma refs_add [simp]:
  "refs (add_mset e M) d = refs M d + (if map_option mo_ndp (nmop e) = Some d then 1 else 0)"
  by (simp add: refs_def)

lemma refs_empty [simp]: "refs {#} d = 0"
  by (simp add: refs_def)

lemma EntryFree_ok:
  assumes "vm_heap ext (add_mset e M) h"
  obtains h' where "NaClVmmapEntryFree h e = Inr h'" "vm_heap ext M h'"
proof (cases "nmop e")
  case None
  then show thesis using that [of h] assms by (simp add: NaClVmmapEntryFree_def NaClMemObjSafeDtor_def)
next
  case (Some m)
  let ?n = "\<lambda>d. refs (add_mset e M) d + ext d"
  have "0 < ?n (mo_ndp m)" using Some by simp
  then obtain h' where h': "NaClRefCountUnref h (mo_ndp m) = Inr h'"
    "heap_counts (?n(mo_ndp m := ?n (mo_ndp m) - 1)) h'"
    using heap_counts_unref [OF assms] by metis
  have "?n(mo_ndp m := ?n (mo_ndp m) - 1) = (\<lambda>d. refs M d + ext d)"
    using Some by (auto simp: fun_eq_iff)
  then show thesis
    using that [of h'] h' Some
    by (simp add: NaClVmmapEntryFree_def NaClMemObjSafeDtor_def NaClMemObjDtor_def NaClDescUnref_def)
qed

abbreviation kept :: "NaClVmmapEntry multiset \<Rightarrow> NaClVmmapEntry multiset" where
  "kept M \<equiv> {#e \<in># M. \<not> removed e#}"

lemma rm_tail_ok:
  assumes "vm_heap ext (mset es) h" "\<exists>e \<in> set es. \<not> removed e"
  shows "\<exists>h' es' k. rm_tail h (map Some es @ rest) (length es)
      = Inr (h', map Some es' @ replicate k None @ rest, length es' - 1) \<and>
    es' \<noteq> [] \<and> length es' + k = length es \<and> \<not> removed (last es') \<and>
    kept (mset es') = kept (mset es) \<and> vm_heap ext (mset es') h'"
  using assms
proof (induction es arbitrary: h rest rule: rev_induct)
  case (snoc e es)
  have at: "entry_at (map Some (es @ [e]) @ rest) (length es) = Inr e"
    using entry_at_Some_append [of "length es" "es @ [e]"] by simp
  show ?case
  proof (cases "removed e")
    case False
    then show ?thesis
      using at snoc.prems
      by (intro exI [of _ h] exI [of _ "es @ [e]"] exI [of _ 0]) simp
  next
    case True
    obtain h1 where h1: "NaClVmmapEntryFree h e = Inr h1" "vm_heap ext (mset es) h1"
      using EntryFree_ok [where ext = ext and e = e and M = "mset es" and h = h] snoc.prems(1) by auto
    have ex: "\<exists>e \<in> set es. \<not> removed e" using snoc.prems(2) True by auto
    obtain h' es' k where r: "rm_tail h1 (map Some es @ None # rest) (length es)
        = Inr (h', map Some es' @ replicate k None @ None # rest, length es' - 1)"
      "es' \<noteq> []" "length es' + k = length es" "\<not> removed (last es')"
      "kept (mset es') = kept (mset es)" "vm_heap ext (mset es') h'"
      using snoc.IH [OF h1(2) ex, of "None # rest"] by blast
    have "rm_tail h (map Some (es @ [e]) @ rest) (length (es @ [e]))
        = Inr (h', map Some es' @ replicate (Suc k) None @ rest, length es' - 1)"
      using at True h1(1) r(1) by (simp add: list_update_append replicate_app_Cons_same)
    then show ?thesis using r True
      by (intro exI [of _ h'] exI [of _ es'] exI [of _ "Suc k"]) simp
  qed
qed simp

lemma rm_inner_ok:
  assumes "vm_heap ext (mset es) h" "i < length es" "\<not> removed (es ! i)"
  shows "\<exists>h' es' k. rm_inner h (map Some es @ rest) i (length es)
      = Inr (h', map Some es' @ replicate k None @ rest, length es' - 1) \<and>
    i < length es' \<and> length es' + k = length es \<and> \<not> removed (last es') \<and>
    take (Suc i) es' = take (Suc i) es \<and>
    kept (mset es') = kept (mset es) \<and> vm_heap ext (mset es') h'"
  using assms
proof (induction es arbitrary: h rest rule: rev_induct)
  case (snoc e es)
  have at: "entry_at (map Some (es @ [e]) @ rest) (length es) = Inr e"
    using entry_at_Some_append [of "length es" "es @ [e]"] by simp
  show ?case
  proof (cases "i < length es \<and> removed e")
    case False
    then have "\<not> removed e"
      using snoc.prems by (cases "i = length es") (auto simp: nth_append)
    then show ?thesis
      using at snoc.prems
      by (intro exI [of _ h] exI [of _ "es @ [e]"] exI [of _ 0]) simp
  next
    case True
    obtain h1 where h1: "NaClVmmapEntryFree h e = Inr h1" "vm_heap ext (mset es) h1"
      using EntryFree_ok [where ext = ext and e = e and M = "mset es" and h = h] snoc.prems(1) by auto
    have i: "i < length es" "\<not> removed (es ! i)"
      using True snoc.prems by (auto simp: nth_append)
    obtain h' es' k where r: "rm_inner h1 (map Some es @ None # rest) i (length es)
        = Inr (h', map Some es' @ replicate k None @ None # rest, length es' - 1)"
      "i < length es'" "length es' + k = length es" "\<not> removed (last es')"
      "take (Suc i) es' = take (Suc i) es"
      "kept (mset es') = kept (mset es)" "vm_heap ext (mset es') h'"
      using snoc.IH [OF h1(2) i, of "None # rest"] by blast
    have "rm_inner h (map Some (es @ [e]) @ rest) i (length (es @ [e]))
        = Inr (h', map Some es' @ replicate (Suc k) None @ rest, length es' - 1)"
      using at True h1(1) r(1) by (simp add: list_update_append replicate_app_Cons_same)
    then show ?thesis using r True i
      by (intro exI [of _ h'] exI [of _ es'] exI [of _ "Suc k"]) simp
  qed
qed simp

text \<open>The scan: everything below \<open>i\<close> and the last entry are unmarked.\<close>

lemma split_at_last:
  assumes "Suc i < length xs"
  shows "xs = take i xs @ xs ! i # butlast (drop (Suc i) xs) @ [last xs]"
proof -
  have "drop (Suc i) xs = butlast (drop (Suc i) xs) @ [last xs]"
    using assms append_butlast_last_id [of "drop (Suc i) xs"] by simp
  then show ?thesis
    using assms id_take_nth_drop [of i xs] by simp
qed

lemma move_last_update:
  assumes "xs = A @ x # B @ [l]"
  shows "(map Some xs @ rest)[length A := Some l, length xs - 1 := None] = map Some (A @ l # B) @ None # rest"
proof -
  have "length xs - 1 = length A + Suc (length B)" using assms by simp
  then show ?thesis unfolding assms by (simp add: list_update_append)
qed

lemma kept_all: "(\<And>e. e \<in> set es \<Longrightarrow> \<not> removed e) \<Longrightarrow> kept (mset es) = mset es"
  by (induction es) auto

lemma rm_scan_stop: "\<not> i < lst \<Longrightarrow> rm_scan h v i lst = Inr (h, v, lst)"
  by (subst rm_scan.simps) simp

lemma rm_scan_skip:
  "i < lst \<Longrightarrow> entry_at v i = Inr e \<Longrightarrow> \<not> removed e \<Longrightarrow> rm_scan h v i lst = rm_scan h v (Suc i) lst"
  by (subst rm_scan.simps) simp

lemma rm_scan_move:
  assumes "i < lst" "entry_at v i = Inr e" "removed e" "NaClVmmapEntryFree h e = Inr h1"
    "load v lst = Inr le" "rm_inner h1 (v[i := le, lst := None]) i lst = Inr (h2, v2, lst2)"
  shows "rm_scan h v i lst = rm_scan h2 v2 (Suc i) lst2"
  using assms by (subst rm_scan.simps) simp

text \<open>One removed entry is overwritten by the last entry, and the tail is trimmed again.\<close>

lemma rm_scan_moves:
  assumes hp: "vm_heap ext (mset es) h" and i: "i < length es - 1" and rm: "removed (es ! i)"
    and front: "\<forall>j < i. \<not> removed (es ! j)" and l: "\<not> removed (last es)"
  obtains h2 es2 k2 where
    "rm_scan h (map Some es @ rest) i (length es - 1)
      = rm_scan h2 (map Some es2 @ replicate (Suc k2) None @ rest) (Suc i) (length es2 - 1)"
    "i < length es2" "length es2 + Suc k2 = length es" "\<not> removed (last es2)" "\<forall>j < Suc i. \<not> removed (es2 ! j)"
    "kept (mset es2) = kept (mset es)" "vm_heap ext (mset es2) h2"
proof -
  let ?A = "take i es" and ?B = "butlast (drop (Suc i) es)" and ?l = "last es"
  have es: "es = ?A @ es ! i # ?B @ [?l]" using i by (intro split_at_last) simp
  let ?es1 = "?A @ ?l # ?B"
  have m: "mset es = add_mset (es ! i) (mset ?es1)" by (subst es) simp
  have len: "length es = Suc (length ?es1)" "length ?A = i" using i by auto
  have at: "entry_at (map Some es @ rest) i = Inr (es ! i)" using i by (intro entry_at_Some_append) simp
  obtain h1 where h1: "NaClVmmapEntryFree h (es ! i) = Inr h1" "vm_heap ext (mset ?es1) h1"
    using EntryFree_ok [where ext = ext and e = "es ! i" and M = "mset ?es1" and h = h] hp m by auto
  have nth: "i < length ?es1" "\<not> removed (?es1 ! i)" using len l by (auto simp: nth_append)
  obtain h2 es2 k2 where r: "rm_inner h1 (map Some ?es1 @ None # rest) i (length ?es1)
      = Inr (h2, map Some es2 @ replicate k2 None @ None # rest, length es2 - 1)"
    "i < length es2" "length es2 + k2 = length ?es1" "\<not> removed (last es2)" "take (Suc i) es2 = take (Suc i) ?es1"
    "kept (mset es2) = kept (mset ?es1)" "vm_heap ext (mset es2) h2"
    using rm_inner_ok [OF h1(2) nth, of "None # rest"] by blast
  have front2: "\<forall>j < Suc i. \<not> removed (es2 ! j)"
  proof (intro allI impI)
    fix j assume j: "j < Suc i"
    then have "es2 ! j = ?es1 ! j" using r(5) by (metis nth_take)
    then show "\<not> removed (es2 ! j)"
      using j front nth(2) len(2) by (cases "j = i") (auto simp: nth_append)
  qed
  have upd: "(map Some es @ rest)[i := Some ?l, length es - 1 := None] = map Some ?es1 @ None # rest"
    using move_last_update [OF es, of rest] len(2) by simp
  have ne: "es \<noteq> []" using i by auto
  have ld: "load (map Some es @ rest) (length es - 1) = Inr (Some ?l)"
    using ne by (simp add: load_def nth_append last_conv_nth trans_less_add1)
  have nones: "replicate k2 None @ None # rest = replicate (Suc k2) None @ rest"
    by (simp only: replicate_Suc append_Cons replicate_app_Cons_same)
  have "rm_inner h1 ((map Some es @ rest)[i := Some ?l, length es - 1 := None]) i (length es - 1)
      = Inr (h2, map Some es2 @ replicate (Suc k2) None @ rest, length es2 - 1)"
    unfolding upd using r(1) unfolding nones len(1) diff_Suc_1 .
  note move = rm_scan_move [OF i at rm h1(1) ld this]
  have k: "kept (mset es2) = kept (mset es)" unfolding r(6) m using rm by simp
  have "length es2 + Suc k2 = length es" using r(3) len(1) by linarith
  then show thesis by (rule that [OF move r(2) _ r(4) front2 k r(7)])
qed

lemma rm_scan_ok:
  assumes "vm_heap ext (mset es) h" "es \<noteq> []" "i \<le> length es"
    "\<forall>j < i. \<not> removed (es ! j)" "\<not> removed (last es)"
  shows "\<exists>h' es' k. rm_scan h (map Some es @ rest) i (length es - 1)
      = Inr (h', map Some es' @ replicate k None @ rest, length es' - 1) \<and>
    es' \<noteq> [] \<and> length es' + k = length es \<and> (\<forall>e \<in> set es'. \<not> removed e) \<and>
    mset es' = kept (mset es) \<and> vm_heap ext (mset es') h'"
  using assms
proof (induction "length es - i" arbitrary: es h i rest rule: less_induct)
  case less
  note hp = less.prems(1)
  consider "\<not> i < length es - 1" | "i < length es - 1" "\<not> removed (es ! i)" | "i < length es - 1" "removed (es ! i)" by blast
  then show ?case
  proof cases
    case 1
    have all: "\<not> removed e" if "e \<in> set es" for e
    proof -
      obtain j where j: "j < length es" "e = es ! j" using \<open>e \<in> set es\<close> by (auto simp: in_set_conv_nth)
      then have "j < i \<or> j = length es - 1" using 1 by linarith
      then show ?thesis using j(2) less.prems(2,4,5) by (auto simp: last_conv_nth)
    qed
    then have "kept (mset es) = mset es" by (rule kept_all)
    then show ?thesis
      using 1 all less.prems(2) hp
      by (intro exI [of _ h] exI [of _ es] exI [of _ 0]) (simp add: rm_scan_stop)
  next
    case 2
    then have at: "entry_at (map Some es @ rest) i = Inr (es ! i)" by (intro entry_at_Some_append) simp
    have "\<forall>j < Suc i. \<not> removed (es ! j)" using less.prems(4) 2(2) by (auto simp: less_Suc_eq)
    then show ?thesis
      using less.hyps [OF _ hp less.prems(2) _ _ less.prems(5), of "Suc i" rest] 2(1)
      unfolding rm_scan_skip [OF 2(1) at 2(2)] by simp
  next
    case 3
    obtain h2 es2 k2 where r: "rm_scan h (map Some es @ rest) i (length es - 1)
        = rm_scan h2 (map Some es2 @ replicate (Suc k2) None @ rest) (Suc i) (length es2 - 1)"
      "i < length es2" "length es2 + Suc k2 = length es" "\<not> removed (last es2)" "\<forall>j < Suc i. \<not> removed (es2 ! j)"
      "kept (mset es2) = kept (mset es)" "vm_heap ext (mset es2) h2"
      by (rule rm_scan_moves [OF hp 3 less.prems(4,5)])
    have "length es2 - Suc i < length es - i" "es2 \<noteq> []" "Suc i \<le> length es2" using r(2,3) by (linarith, force, linarith)
    from less.hyps [OF this(1) r(7) this(2,3) r(5,4), of "replicate (Suc k2) None @ rest"]
    obtain h3 es3 k3 where q: "rm_scan h2 (map Some es2 @ replicate (Suc k2) None @ rest) (Suc i) (length es2 - 1)
        = Inr (h3, map Some es3 @ replicate k3 None @ replicate (Suc k2) None @ rest, length es3 - 1)"
      "es3 \<noteq> []" "length es3 + k3 = length es2" "\<forall>e \<in> set es3. \<not> removed e"
      "mset es3 = kept (mset es2)" "vm_heap ext (mset es3) h3" by blast
    have nones: "replicate k3 None @ replicate (Suc k2) None @ rest = replicate (k3 + Suc k2) None @ rest"
      by (simp only: replicate_add append_assoc)
    have "rm_scan h (map Some es @ rest) i (length es - 1)
        = Inr (h3, map Some es3 @ replicate (k3 + Suc k2) None @ rest, length es3 - 1)"
      unfolding r(1) q(1) nones ..
    moreover have "length es3 + (k3 + Suc k2) = length es" using q(3) r(3) by linarith
    moreover have "mset es3 = kept (mset es)" unfolding q(5) r(6) ..
    ultimately show ?thesis using q(2,4,6) by blast
  qed
qed

lemma RemoveMarked_ok:
  assumes lay: "layout vm es" and hp: "vm_heap ext (mset es) h" and ex: "\<exists>e \<in> set es. \<not> removed e"
  obtains h' vm' es' where "NaClVmmapRemoveMarked h vm = Inr (h', vm')" "layout vm' es'"
    "mset es' = kept (mset es)" "vm_heap ext (mset es') h'" "\<not> is_sorted vm'"
proof -
  obtain rest where v: "vmentry vm = map Some es @ rest" and nv: "nvalid vm = length es"
    using lay by (auto simp: layout_def)
  have ne: "es \<noteq> []" using ex by auto
  obtain h1 es1 k1 where t: "rm_tail h (map Some es @ rest) (length es)
      = Inr (h1, map Some es1 @ replicate k1 None @ rest, length es1 - 1)"
    "es1 \<noteq> []" "length es1 + k1 = length es" "\<not> removed (last es1)"
    "kept (mset es1) = kept (mset es)" "vm_heap ext (mset es1) h1"
    using rm_tail_ok [OF hp ex, of rest] by blast
  obtain h2 es2 k2 where q: "rm_scan h1 (map Some es1 @ replicate k1 None @ rest) 0 (length es1 - 1)
      = Inr (h2, map Some es2 @ replicate k2 None @ replicate k1 None @ rest, length es2 - 1)"
    "es2 \<noteq> []" "length es2 + k2 = length es1" "mset es2 = kept (mset es1)" "vm_heap ext (mset es2) h2"
    using rm_scan_ok [OF t(6,2), of 0] t(4) by fastforce
  have at: "entry_at (map Some es1 @ replicate k1 None @ rest) (length es1 - 1) = Inr (last es1)"
    using t(2) by (simp add: entry_at_Some_append last_conv_nth)
  let ?vm' = "vm\<lparr>vmentry := map Some es2 @ replicate k2 None @ replicate k1 None @ rest,
                 nvalid := length es2 - 1 + 1, is_sorted := False\<rparr>"
  have "NaClVmmapRemoveMarked h vm = Inr (h2, ?vm')"
    using t q at nv v ne
    by (cases "length es1 = 1") (auto simp: NaClVmmapRemoveMarked_def)
  moreover have "layout ?vm' es2"
    using lay v t(3) q(2,3) by (auto simp: layout_def)
  ultimately show thesis
    using that q(4,5) t(5) by simp
qed

text \<open>When every entry is marked, the first loop empties the array and slot 0 is NULL.\<close>

lemma rm_tail_all:
  assumes "vm_heap ext (mset es) h" "\<And>e. e \<in> set es \<Longrightarrow> removed e"
  shows "\<exists>h'. rm_tail h (map Some es @ rest) (length es) = Inr (h', replicate (length es) None @ rest, 0)"
  using assms
proof (induction es arbitrary: h rest rule: rev_induct)
  case (snoc e es)
  have at: "entry_at (map Some (es @ [e]) @ rest) (length es) = Inr e"
    using entry_at_Some_append [of "length es" "es @ [e]"] by simp
  obtain h1 where h1: "NaClVmmapEntryFree h e = Inr h1" "vm_heap ext (mset es) h1"
    using EntryFree_ok [where ext = ext and e = e and M = "mset es" and h = h] snoc.prems(1) by auto
  have "removed e" "\<And>f. f \<in> set es \<Longrightarrow> removed f" using snoc.prems(2) by auto
  then show ?case
    using snoc.IH [OF h1(2), of "None # rest"] at h1(1)
    by (auto simp: list_update_append replicate_app_Cons_same)
qed simp

lemma RemoveMarked_all:
  assumes "layout vm es" "vm_heap ext (mset es) h" "\<And>e. e \<in> set es \<Longrightarrow> removed e" "es \<noteq> []"
  shows "NaClVmmapRemoveMarked h vm = Inl NullDeref"
proof -
  obtain rest where "vmentry vm = map Some es @ rest" using assms(1) by (auto simp: layout_def)
  moreover obtain h' where "rm_tail h (map Some es @ rest) (length es) = Inr (h', replicate (length es) None @ rest, 0)"
    using rm_tail_all [OF assms(2,3)] by blast
  moreover have "entry_at (replicate (length es) None @ rest) 0 = Inl NullDeref"
    using assms(4) by (cases es) (simp_all add: entry_at_def load_def)
  ultimately show ?thesis
    using assms(4) layout_nvalid [OF assms(1)] by (simp add: NaClVmmapRemoveMarked_def)
qed

section \<open>Sorting\<close>

lemma sorted_wrt_mset:
  assumes "symp P" "mset xs = mset ys" "sorted_wrt P xs"
  shows "sorted_wrt P ys"
  using assms(2,3)
proof (induction xs arbitrary: ys)
  case (Cons x xs)
  then have "x \<in> set ys" by (metis list.set_intros(1) set_mset_mset)
  then obtain A B where ys: "ys = A @ x # B" by (meson split_list)
  then have m: "mset xs = mset (A @ B)" using Cons.prems(1) by simp
  have "sorted_wrt P (A @ B)" using Cons.IH [OF m] Cons.prems(2) by simp
  moreover have "\<forall>y \<in> set (A @ B). P x y"
    using Cons.prems(2) mset_eq_setD [OF m] by auto
  ultimately show ?case
    using assms(1) by (auto simp: ys sorted_wrt_append dest: sympD)
qed simp

lemma symp_apart: "symp apart"
  by (auto simp: symp_def apart_def)

lemma good_mset: "mset xs = mset ys \<Longrightarrow> good xs \<Longrightarrow> good ys"
  using sorted_wrt_mset [OF symp_apart, of xs ys] mset_eq_setD [of xs ys] by (simp add: good_def)

lemma sint_diff_small:
  fixes a b :: "32 word"
  assumes "unat a \<le> 2 ^ 20" "unat b \<le> 2 ^ 20"
  shows "sint (a - b) = int (unat a) - int (unat b)"
proof -
  have "sint (word_of_int (int (unat a) - int (unat b)) :: 32 word)
      = signed_take_bit 31 (int (unat a) - int (unat b))"
    by (simp only: signed_of_int) simp
  moreover have "word_of_int (int (unat a) - int (unat b)) = a - b"
    by (simp add: of_int_diff)
  ultimately have "sint (a - b) = signed_take_bit 31 (int (unat a) - int (unat b))"
    by simp
  also have "\<dots> = int (unat a) - int (unat b)"
  proof -
    have "unat a \<le> 1048576" "unat b \<le> 1048576" using assms by simp_all
    then have "- 2147483648 \<le> int (unat a) - int (unat b)" "int (unat a) - int (unat b) < 2147483648"
      by linarith+
    then show ?thesis by (intro signed_take_bit_int_eq_self) simp_all
  qed
  finally show ?thesis .
qed

lemma mset_qsort_by: "mset (qsort_by cmp xs) = mset xs"
proof -
  have "mset (qsort_insert cmp x ys) = add_mset x (mset ys)" for x and ys
    by (induction ys) auto
  then show ?thesis by (induction xs) (auto simp: qsort_by_def)
qed

lemma sorted_qsort_by:
  assumes "\<And>x y. x \<in> S \<Longrightarrow> y \<in> S \<Longrightarrow> (cmp x y \<le> 0) = (f x \<le> (f y :: nat))" and "set xs \<subseteq> S"
  shows "sorted_wrt (\<lambda>x y. f x \<le> f y) (qsort_by cmp xs)"
proof -
  have ins: "sorted_wrt (\<lambda>x y. f x \<le> f y) (qsort_insert cmp x ys) \<and> set (qsort_insert cmp x ys) = insert x (set ys)"
    if "sorted_wrt (\<lambda>x y. f x \<le> f y) ys" "x \<in> S" "set ys \<subseteq> S" for x ys
    using that
  proof (induction ys)
    case (Cons y ys)
    then show ?case using assms(1) [of x y] by fastforce
  qed simp
  have "sorted_wrt (\<lambda>x y. f x \<le> f y) (qsort_by cmp xs) \<and> set (qsort_by cmp xs) = set xs"
    using assms(2)
  proof (induction xs)
    case (Cons x xs)
    then show ?case using ins [of "qsort_by cmp xs" x] by (simp add: qsort_by_def)
  qed (simp add: qsort_by_def)
  then show ?thesis ..
qed

lemma sorted_before:
  assumes "good es" "sorted_wrt (\<lambda>x y. unat (page_num x) \<le> unat (page_num y)) es"
  shows "sorted_wrt before es"
proof -
  have "before x y"
    if "x \<in> set es" "y \<in> set es" "unat (page_num x) \<le> unat (page_num y)" "apart x y" for x y
    using that assms(1)
    by (fastforce simp: good_def ent_ok_def before_def apart_def page_end_def word_less_nat_alt)
  moreover have "sorted_wrt apart es" using assms(1) by (simp add: good_def)
  ultimately show ?thesis
    using assms(2) by (auto simp: sorted_wrt_iff_nth_less)
qed

lemma CmpEntries_le:
  assumes "ent_ok x" "ent_ok y"
  shows "(NaClVmmapCmpEntries x y \<le> 0) = (unat (page_num x) \<le> unat (page_num y))"
proof -
  have "unat (page_num x) \<le> 2 ^ 20" "unat (page_num y) \<le> 2 ^ 20"
    using assms by (auto simp: ent_ok_def page_end_def)
  from sint_diff_small [OF this] show ?thesis
    unfolding NaClVmmapCmpEntries_def by linarith
qed

lemma qsort_entries:
  assumes "good es"
  shows "sorted_wrt before (qsort_by NaClVmmapCmpEntries es)" "good (qsort_by NaClVmmapCmpEntries es)"
proof -
  show g: "good (qsort_by NaClVmmapCmpEntries es)"
    using good_mset [OF _ assms] mset_qsort_by by metis
  have "set es \<subseteq> {e. ent_ok e}" using assms by (auto simp: good_def)
  from sorted_qsort_by [OF _ this, of NaClVmmapCmpEntries "\<lambda>e. unat (page_num e)"]
  show "sorted_wrt before (qsort_by NaClVmmapCmpEntries es)"
    using CmpEntries_le by (intro sorted_before [OF g]) auto
qed

lemma MakeSorted_ok:
  assumes "vm_inv ext h vm"
  obtains h' vm' es' where "NaClVmmapMakeSorted h vm = Inr (h', vm')" "layout vm' es'" "good es'"
    "sorted_wrt before es'" "vm_heap ext (mset es') h'" "mset es' = mset (entries vm)" "is_sorted vm'"
proof (cases "is_sorted vm")
  case True
  then show thesis
    using assms that [of h vm "entries vm"] by (simp add: vm_inv_def NaClVmmapMakeSorted_def)
next
  case False
  obtain es where lay: "layout vm es" and g: "good es" and hp: "vm_heap ext (mset es) h"
    and es: "entries vm = es"
    using assms by (rule vm_invE)
  obtain h1 vm1 es1 where r: "NaClVmmapRemoveMarked h vm = Inr (h1, vm1)" "layout vm1 es1"
    "mset es1 = mset es" "vm_heap ext (mset es1) h1"
  proof (cases "es = []")
    case True
    then show thesis
      using that [OF _ lay refl hp] lay by (simp add: NaClVmmapRemoveMarked_def layout_def)
  next
    case False
    then have "\<exists>e \<in> set es. \<not> removed e" using g by (cases es) (auto simp: good_def)
    from RemoveMarked_ok [OF lay hp this] show thesis
      using that kept_all [of es] g by (auto simp: good_def)
  qed
  have g1: "good es1" using good_mset [OF _ g] r(3) by simp
  let ?es' = "qsort_by NaClVmmapCmpEntries es1"
  let ?vm' = "vm1\<lparr>vmentry := map Some ?es' @ drop (nvalid vm1) (vmentry vm1), is_sorted := True\<rparr>"
  have len: "length ?es' = length es1" using mset_qsort_by by (metis size_mset)
  have "layout ?vm' ?es'" using r(2) len by (auto simp: layout_def)
  moreover have "NaClVmmapMakeSorted h vm = Inr (h1, ?vm')"
    using False r(1) layout_deref_all [OF r(2)] by (simp add: NaClVmmapMakeSorted_def)
  ultimately show thesis
    using that qsort_entries [OF g1] r(3,4) mset_qsort_by [of NaClVmmapCmpEntries es1] es by simp
qed

section \<open>Adding an entry\<close>

lemma Add_ok:
  assumes lay: "layout vm es" and len: "length es \<le> 2 ^ 20 + 1" and alloc: "entry_alloc_ok env"
  obtains "NaClVmmapAdd env vm pn np pr mo = Inr (vm, False)" "\<not> map_alloc_ok env"
  | vm' where "NaClVmmapAdd env vm pn np pr mo = Inr (vm', True)" "\<not> is_sorted vm'"
    "layout vm' (es @ [\<lparr>page_num = pn, npages = np, prot = pr, nmop = mo, removed = False\<rparr>])"
proof -
  obtain rest where v: "vmentry vm = map Some es @ rest" and nv: "nvalid vm = length es"
    and sz: "vm_size vm = length es + length rest" "0 < vm_size vm" "vm_size vm \<le> 2 ^ 22"
    using lay by (auto simp: layout_def)
  let ?e = "\<lparr>page_num = pn, npages = np, prot = pr, nmop = mo, removed = False\<rparr>"
  show thesis
  proof (cases "rest")
    case Nil
    then have grow: "vm_size vm = length es" "0 < length es" using sz by auto
    let ?n = "2 * length es"
    have "?n < 2 ^ 32" "?n * 4 < 2 ^ 32" using len by auto
    then have m: "?n mod 2 ^ 32 = ?n" "?n * 4 mod 2 ^ 32 div 4 = ?n" by auto
    let ?vm' = "vm\<lparr>vmentry := map Some (es @ [?e]) @ replicate (length es - 1) None, vm_size := ?n,
                   is_sorted := False, nvalid := Suc (length es)\<rparr>"
    have cells: "replicate (length es) None = (None :: NaClVmmapEntry option) # replicate (length es - 1) None"
      using grow(2) by (cases es) auto
    have "map_alloc_ok env \<Longrightarrow> NaClVmmapAdd env vm pn np pr mo = Inr (?vm', True)"
      using v Nil nv grow alloc
      by (simp add: NaClVmmapAdd_def Let_def m [simplified] NaClVmmapEntryMake_def store_def cells list_update_append)
    moreover have "\<not> map_alloc_ok env \<Longrightarrow> NaClVmmapAdd env vm pn np pr mo = Inr (vm, False)"
      using nv grow by (simp add: NaClVmmapAdd_def Let_def)
    moreover have "layout ?vm' (es @ [?e])"
      using grow len by (auto simp: layout_def)
    ultimately show thesis using that(1) that(2) [of ?vm'] by (cases "map_alloc_ok env") auto
  next
    case (Cons c cs)
    let ?vm' = "vm\<lparr>vmentry := map Some (es @ [?e]) @ cs, is_sorted := False, nvalid := Suc (length es)\<rparr>"
    have "NaClVmmapAdd env vm pn np pr mo = Inr (?vm', True)"
      using v Cons nv sz alloc
      by (simp add: NaClVmmapAdd_def Let_def NaClVmmapEntryMake_def store_def list_update_append)
    moreover have "layout ?vm' (es @ [?e])"
      using sz Cons v by (auto simp: layout_def)
    ultimately show thesis using that(2) by simp
  qed
qed

section \<open>Updating: the loop as a function on lists\<close>

text \<open>The entries the loop leaves in place, and the one it appends when it splits.\<close>

fun upd :: "uintptr_t \<Rightarrow> uintptr_t \<Rightarrow> NaClVmmapEntry list \<Rightarrow> NaClVmmapEntry list \<times> NaClVmmapEntry list" where
  "upd pn endp [] = ([], [])"
| "upd pn endp (e # es) =
     (let ent_end = page_num e + npages e in
      if page_num e < pn \<and> endp < ent_end then
        (e\<lparr>npages := pn - page_num e\<rparr> # es,
         [\<lparr>page_num = endp, npages = ent_end - endp, prot = prot e,
           nmop = NaClMemObjIncOffset (nmop e) (additional_offset endp e), removed = False\<rparr>])
      else if page_num e < pn \<and> pn < ent_end then
        apfst (Cons (e\<lparr>npages := pn - page_num e\<rparr>)) (upd pn endp es)
      else if page_num e < endp \<and> endp < ent_end then
        (e\<lparr>nmop := NaClMemObjIncOffset (nmop e) (additional_offset endp e),
           page_num := endp, npages := ent_end - endp\<rparr> # es, [])
      else if pn \<le> page_num e \<and> ent_end \<le> endp then
        apfst (Cons (e\<lparr>removed := True\<rparr>)) (upd pn endp es)
      else apfst (Cons e) (upd pn endp es))"

lemma update_loop_stop: "\<not> i < nvalid self \<Longrightarrow> update_loop env h self i pn endp = Inr (h, self)"
  by (subst update_loop.simps) simp

lemma layout_set_entry:
  "layout vm (A @ e # B) \<Longrightarrow> layout (set_entry vm (length A) e') (A @ e' # B)"
  by (auto simp: layout_def set_entry_def list_update_append)

lemma refs_IncOffset [simp]: "map_option mo_ndp (NaClMemObjIncOffset mo k) = map_option mo_ndp mo"
  by (cases mo) (simp_all add: NaClMemObjIncOffset_def)

lemma Split_ok:
  assumes hp: "vm_heap ext M h" and mem: "e \<in># M"
  obtains "NaClMemObjSplit ok h (nmop e) k = Inl LogFatal"
      "\<not> ok \<or> (\<exists>d. refs M d + ext d + 1 = 2 ^ 32)"
  | h' where "NaClMemObjSplit ok h (nmop e) k = Inr (h', NaClMemObjIncOffset (nmop e) k)"
      "\<And>e'. map_option mo_ndp (nmop e') = map_option mo_ndp (nmop e) \<Longrightarrow> vm_heap ext (add_mset e' M) h'"
proof (cases "nmop e")
  case None
  then show thesis
    using that(2) [of h] hp by (simp add: NaClMemObjSplit_def NaClMemObjIncOffset_def)
next
  case (Some m)
  let ?n = "\<lambda>d. refs M d + ext d"
  have "0 < refs M (mo_ndp m)"
  proof -
    have "e \<in># {#e \<in># M. map_option mo_ndp (nmop e) = Some (mo_ndp m)#}" using mem Some by simp
    then have "{#e \<in># M. map_option mo_ndp (nmop e) = Some (mo_ndp m)#} \<noteq> {#}"
      by (metis empty_not_add_mset multi_member_split)
    then show ?thesis by (simp only: refs_def nonempty_has_size)
  qed
  then have pos: "0 < ?n (mo_ndp m)" by simp
  show thesis
  proof (cases "\<not> ok \<or> ?n (mo_ndp m) + 1 = 2 ^ 32")
    case True
    then have "NaClMemObjSplit ok h (nmop e) k = Inl LogFatal"
      using heap_counts_ref(1) [OF hp pos] Some
      by (auto simp: NaClMemObjSplit_def NaClMemObjCopyCtorOff_def NaClDescRef_def)
    then show thesis using True that(1) by blast
  next
    case False
    let ?h = "h(mo_ndp m \<mapsto> of_nat (?n (mo_ndp m) + 1))"
    have "NaClMemObjSplit ok h (nmop e) k = Inr (?h, NaClMemObjIncOffset (nmop e) k)"
      using heap_counts_ref(1) [OF hp pos] Some False
      by (simp add: NaClMemObjSplit_def NaClMemObjCopyCtorOff_def NaClDescRef_def NaClMemObjIncOffset_def)
    moreover have "vm_heap ext (add_mset e' M) ?h"
      if "map_option mo_ndp (nmop e') = map_option mo_ndp (nmop e)" for e'
    proof -
      have "?n(mo_ndp m := ?n (mo_ndp m) + 1) = (\<lambda>d. refs (add_mset e' M) d + ext d)"
        using Some that by (auto simp: fun_eq_iff)
      then show ?thesis using heap_counts_ref(2) [OF hp pos] False by simp
    qed
    ultimately show thesis by (rule that(2))
  qed
qed

abbreviation upd_all :: "uintptr_t \<Rightarrow> uintptr_t \<Rightarrow> NaClVmmapEntry list \<Rightarrow> NaClVmmapEntry list" where
  "upd_all pn endp es \<equiv> fst (upd pn endp es) @ snd (upd pn endp es)"

definition no_memory :: "vm_env \<Rightarrow> NaClVmmapEntry multiset \<Rightarrow> (nat \<Rightarrow> nat) \<Rightarrow> bool" where
  "no_memory env M ext \<longleftrightarrow> \<not> map_alloc_ok env \<or> \<not> memobj_alloc_ok env \<or> (\<exists>d. refs M d + ext d + 1 = 2 ^ 32)"

lemma refs_cong:
  "map_option mo_ndp (nmop e') = map_option mo_ndp (nmop e) \<Longrightarrow> refs (add_mset e' M) = refs (add_mset e M)"
  by (simp add: fun_eq_iff)

lemma no_memory_cong:
  "map_option mo_ndp (nmop e') = map_option mo_ndp (nmop e) \<Longrightarrow>
   no_memory env (add_mset e' M) ext = no_memory env (add_mset e M) ext"
  unfolding no_memory_def by (subst refs_cong) simp_all

text \<open>A step of the loop that rewrites the entry at hand and goes on.\<close>

lemma update_loop_go:
  assumes "layout vm (A @ e # B)"
    and "\<not> (page_num e < pn \<and> endp < page_num e + npages e)"
    and "\<not> (\<not> (page_num e < pn \<and> pn < page_num e + npages e) \<and> page_num e < endp \<and> endp < page_num e + npages e)"
    and e': "e' = (if page_num e < pn \<and> pn < page_num e + npages e then e\<lparr>npages := pn - page_num e\<rparr>
               else if pn \<le> page_num e \<and> page_num e + npages e \<le> endp then e\<lparr>removed := True\<rparr> else e)"
  shows "update_loop env h vm (length A) pn endp
         = update_loop env h (set_entry vm (length A) e') (Suc (length A)) pn endp"
    "upd pn endp (e # B) = apfst (Cons e') (upd pn endp B)"
proof -
  have at: "entry_at (vmentry vm) (length A) = Inr e" "length A < nvalid vm"
    using layout_entry_at [OF assms(1), of "length A"] assms(1) by (auto simp: layout_def)
  have same: "set_entry vm (length A) e = vm"
    using assms(1) by (auto simp: layout_def set_entry_def list_update_append)
  have "update_loop env h vm (length A) pn endp
         = (if page_num e < pn \<and> pn < page_num e + npages e
            then update_loop env h (set_entry vm (length A) (e\<lparr>npages := pn - page_num e\<rparr>)) (Suc (length A)) pn endp
            else if pn \<le> page_num e \<and> page_num e + npages e \<le> endp
            then update_loop env h (set_entry vm (length A) (e\<lparr>removed := True\<rparr>)) (Suc (length A)) pn endp
            else update_loop env h (set_entry vm (length A) e) (Suc (length A)) pn endp)"
    unfolding same
    by (subst update_loop.simps, simp only: at bind_res.simps Let_def if_True) (use assms(2,3) in presburger)
  then show "update_loop env h vm (length A) pn endp
         = update_loop env h (set_entry vm (length A) e') (Suc (length A)) pn endp"
    unfolding e' by presburger
  show "upd pn endp (e # B) = apfst (Cons e') (upd pn endp B)"
    unfolding e' upd.simps Let_def using assms(2,3) by presburger
qed

text \<open>The range lies inside one entry, which is split in two.\<close>

lemma update_loop_splits:
  assumes lay: "layout vm (A @ e # B)" and hp: "vm_heap ext (mset (A @ e # B)) h" and len: "length (A @ e # B) \<le> 2 ^ 20"
    and alloc: "entry_alloc_ok env" and split: "page_num e < pn \<and> endp < page_num e + npages e"
  shows "(update_loop env h vm (length A) pn endp = Inl LogFatal \<and> no_memory env (mset (A @ e # B)) ext) \<or>
    (\<exists>h' vm'. update_loop env h vm (length A) pn endp = Inr (h', vm') \<and>
       layout vm' (A @ upd_all pn endp (e # B)) \<and> vm_heap ext (mset (A @ upd_all pn endp (e # B))) h')"
proof -
  have at: "entry_at (vmentry vm) (length A) = Inr e" "length A < nvalid vm"
    using layout_entry_at [OF lay, of "length A"] lay by (auto simp: layout_def)
  let ?fin = "page_num e + npages e"
  let ?k = "additional_offset endp e"
  have mem: "e \<in># mset (A @ e # B)" by simp
  show ?thesis
  proof (rule Split_ok [OF hp mem, of "memobj_alloc_ok env" ?k])
    assume "NaClMemObjSplit (memobj_alloc_ok env) h (nmop e) ?k = Inl LogFatal"
      "\<not> memobj_alloc_ok env \<or> (\<exists>d. refs (mset (A @ e # B)) d + ext d + 1 = 2 ^ 32)"
    moreover from this(1) have "update_loop env h vm (length A) pn endp = Inl LogFatal"
      by (subst update_loop.simps) (use at split in \<open>simp add: Let_def\<close>)
    ultimately show ?thesis unfolding no_memory_def by blast
  next
    fix h1
    let ?mo = "NaClMemObjIncOffset (nmop e) ?k"
    let ?e1 = "e\<lparr>npages := pn - page_num e\<rparr>"
    let ?e2 = "\<lparr>page_num = endp, npages = ?fin - endp, prot = prot e, nmop = ?mo, removed = False\<rparr>"
    assume s: "NaClMemObjSplit (memobj_alloc_ok env) h (nmop e) ?k = Inr (h1, ?mo)"
      and hp1: "\<And>e'. map_option mo_ndp (nmop e') = map_option mo_ndp (nmop e) \<Longrightarrow>
             vm_heap ext (add_mset e' (mset (A @ e # B))) h1"
    have "length (A @ e # B) \<le> 2 ^ 20 + 1" using len by simp
    then show ?thesis
    proof (rule Add_ok [OF lay _ alloc, of "endp" "?fin - endp" "prot e" ?mo])
      assume "NaClVmmapAdd env vm endp (?fin - endp) (prot e) ?mo = Inr (vm, False)" "\<not> map_alloc_ok env"
      moreover from this(1) have "update_loop env h vm (length A) pn endp = Inl LogFatal"
        by (subst update_loop.simps) (use at split s in \<open>simp add: Let_def\<close>)
      ultimately show ?thesis by (simp add: no_memory_def)
    next
      fix vm1
      assume a: "NaClVmmapAdd env vm endp (?fin - endp) (prot e) ?mo = Inr (vm1, True)"
        and lay1: "layout vm1 ((A @ e # B) @ [?e2])"
      have "update_loop env h vm (length A) pn endp = Inr (h1, set_entry vm1 (length A) ?e1)"
        by (subst update_loop.simps) (use at split s a in \<open>simp add: Let_def\<close>)
      moreover have "layout (set_entry vm1 (length A) ?e1) (A @ ?e1 # B @ [?e2])"
        using layout_set_entry [of vm1 A e "B @ [?e2]" ?e1] lay1 by simp
      moreover have "vm_heap ext (mset (A @ ?e1 # B @ [?e2])) h1"
        using hp1 [of ?e2] refs_cong [of ?e1 e] by (simp add: add_mset_commute)
      ultimately show ?thesis using split by (simp add: Let_def)
    qed
  qed
qed

lemma update_loop_ok:
  assumes "layout vm (A @ B)" "vm_heap ext (mset (A @ B)) h" "length (A @ B) \<le> 2 ^ 20"
    "entry_alloc_ok env"
  shows "(update_loop env h vm (length A) pn endp = Inl LogFatal \<and> no_memory env (mset (A @ B)) ext) \<or>
    (\<exists>h' vm'. update_loop env h vm (length A) pn endp = Inr (h', vm') \<and>
       layout vm' (A @ upd_all pn endp B) \<and> vm_heap ext (mset (A @ upd_all pn endp B)) h')"
  using assms(1-3)
proof (induction B arbitrary: A vm)
  case Nil
  then show ?case using update_loop_stop [of "length A" vm] by (simp add: layout_nvalid)
next
  case (Cons e B)
  note lay = Cons.prems(1) and hp = Cons.prems(2) and len = Cons.prems(3)
  have at: "entry_at (vmentry vm) (length A) = Inr e" "length A < nvalid vm"
    using layout_entry_at [OF lay, of "length A"] lay by (auto simp: layout_def)
  let ?fin = "page_num e + npages e"
  consider (split) "page_num e < pn \<and> endp < ?fin"
    | (start) "\<not> (page_num e < pn \<and> endp < ?fin)" "\<not> (page_num e < pn \<and> pn < ?fin)"
        "page_num e < endp \<and> endp < ?fin"
    | (go) "\<not> (page_num e < pn \<and> endp < ?fin)"
        "\<not> (\<not> (page_num e < pn \<and> pn < ?fin) \<and> page_num e < endp \<and> endp < ?fin)"
    by blast
  then show ?case
  proof cases
    case split
    show ?thesis by (rule update_loop_splits [OF lay hp len assms(4) split])
  next
    case start
    let ?e1 = "e\<lparr>nmop := NaClMemObjIncOffset (nmop e) (additional_offset endp e),
           page_num := endp, npages := ?fin - endp\<rparr>"
    have "update_loop env h vm (length A) pn endp = Inr (h, set_entry vm (length A) ?e1)"
      by (subst update_loop.simps) (use at start in \<open>simp add: Let_def\<close>)
    moreover have "upd pn endp (e # B) = (?e1 # B, [])"
      using start by (simp add: Let_def)
    moreover have "vm_heap ext (mset (A @ ?e1 # B)) h"
      using hp refs_cong [of ?e1 e] by simp
    ultimately show ?thesis using layout_set_entry [OF lay, of ?e1] by simp
  next
    case go
    define e' where "e' = (if page_num e < pn \<and> pn < ?fin then e\<lparr>npages := pn - page_num e\<rparr>
               else if pn \<le> page_num e \<and> ?fin \<le> endp then e\<lparr>removed := True\<rparr> else e)"
    have mo: "map_option mo_ndp (nmop e') = map_option mo_ndp (nmop e)" by (simp add: e'_def)
    note steps = update_loop_go [OF lay go e'_def]
    have "vm_heap ext (mset ((A @ [e']) @ B)) h"
      using hp refs_cong [OF mo] by simp
    moreover have "no_memory env (mset ((A @ [e']) @ B)) ext = no_memory env (mset (A @ e # B)) ext"
      using no_memory_cong [OF mo] by simp
    ultimately show ?thesis
      using Cons.IH [of "set_entry vm (length A) e'" "A @ [e']"] layout_set_entry [OF lay, of e'] len
      unfolding steps by simp
  qed
qed

section \<open>Updating: the pages\<close>

definition ent_has :: "NaClVmmapEntry \<Rightarrow> nat \<Rightarrow> page_info \<Rightarrow> bool" where
  "ent_has e p x \<longleftrightarrow> \<not> removed e \<and> covers e p \<and> x = (prot e, backing e p)"

definition has_page :: "NaClVmmapEntry set \<Rightarrow> nat \<Rightarrow> page_info \<Rightarrow> bool" where
  "has_page E p x \<longleftrightarrow> (\<exists>e \<in> E. ent_has e p x)"

lemma has_page_insert [simp]: "has_page (insert e E) p x \<longleftrightarrow> ent_has e p x \<or> has_page E p x"
  by (simp add: has_page_def)

lemma has_page_Un [simp]: "has_page (E \<union> F) p x \<longleftrightarrow> has_page E p x \<or> has_page F p x"
  by (auto simp: has_page_def)

lemma has_page_empty [simp]: "\<not> has_page {} p x"
  by (simp add: has_page_def)

lemma has_page_kept: "mset es' = kept (mset es) \<Longrightarrow> has_page (set es') p x = has_page (set es) p x"
proof -
  assume "mset es' = kept (mset es)"
  then have "set es' = {e \<in> set es. \<not> removed e}" by (metis set_mset_filter set_mset_mset)
  then show ?thesis by (auto simp: has_page_def ent_has_def)
qed

lemma page_end_no_wrap: "ent_ok e \<Longrightarrow> unat (page_num e + npages e) = page_end e"
  by (auto simp: ent_ok_def page_end_def intro!: unat_add_no_wrap)

lemma npages_pos: "ent_ok e \<Longrightarrow> unat (page_num e) < page_end e"
  by (simp add: ent_ok_def page_end_def word_less_nat_alt)

lemma unat_push_bit_page: "unat (w :: size_t) < 2 ^ 20 \<Longrightarrow> unat (push_bit 12 w) = 4096 * unat w"
  by (simp add: push_bit_eq_mult unat_word_ariths)

lemma additional_offset_eq:
  assumes "page_num e < endp" "unat endp < 2 ^ 20"
  shows "additional_offset endp e = 4096 * (of_nat (unat endp) - of_nat (unat (page_num e)))"
proof -
  have d: "unat (endp - page_num e) = unat endp - unat (page_num e)"
    using assms(1) by (intro unat_sub_le) simp
  have "unat (push_bit 12 (endp - page_num e)) = 4096 * (unat endp - unat (page_num e))"
    using assms(2) d by (subst unat_push_bit_page) simp_all
  moreover have "(ucast (push_bit 12 (endp - page_num e)) :: nacl_off64_t) = of_nat (unat (push_bit 12 (endp - page_num e)))"
    by (rule of_nat_unat [symmetric])
  ultimately have "(ucast (push_bit 12 (endp - page_num e)) :: nacl_off64_t) = of_nat (4096 * (unat endp - unat (page_num e)))"
    by (simp only:)
  then show ?thesis
    using assms(1) by (simp add: additional_offset_def NACL_PAGESHIFT_def word_less_nat_alt of_nat_diff)
qed

lemma backing_shift:
  assumes "page_num e < endp" "unat endp < 2 ^ 20" "nmop e' = NaClMemObjIncOffset (nmop e) (additional_offset endp e)"
    "page_num e' = endp"
  shows "backing e' p = backing e p"
  using assms(3,4) additional_offset_eq [OF assms(1,2)]
  by (cases "nmop e") (simp_all add: backing_def NaClMemObjIncOffset_def algebra_simps)

text \<open>How each branch of the loop body changes the pages of the entry at hand.\<close>

lemma ent_has_left:
  assumes "page_num e < pn" "unat pn \<le> page_end e"
  shows "ent_has (e\<lparr>npages := pn - page_num e\<rparr>) p x \<longleftrightarrow> ent_has e p x \<and> p < unat pn"
proof -
  have "unat (pn - page_num e) = unat pn - unat (page_num e)"
    using assms(1) by (intro unat_sub_le) simp
  then show ?thesis
    using assms by (auto simp: ent_has_def covers_def page_end_def backing_def word_less_nat_alt)
qed

lemma ent_has_right:
  assumes ok: "ent_ok e" and lt: "page_num e < endp" "unat endp < page_end e" and "\<not> removed e"
    and e': "page_num e' = endp" "npages e' = page_num e + npages e - endp" "prot e' = prot e"
      "nmop e' = NaClMemObjIncOffset (nmop e) (additional_offset endp e)" "\<not> removed e'"
  shows "ent_has e' p x \<longleftrightarrow> ent_has e p x \<and> unat endp \<le> p" "page_end e' = page_end e" "ent_ok e'"
proof -
  have small: "unat endp < 2 ^ 20" using ok lt(2) by (simp add: ent_ok_def)
  have le: "endp \<le> page_num e + npages e"
    using lt(2) page_end_no_wrap [OF ok] by (simp add: word_le_nat_alt)
  have np: "unat (npages e') = page_end e - unat endp"
    using unat_sub_le [OF le] page_end_no_wrap [OF ok] e'(2) by simp
  then show pe: "page_end e' = page_end e"
    using lt(2) e'(1) by (simp add: page_end_def [of e'])
  show "ent_ok e'"
    using pe np ok lt(2) by (simp add: ent_ok_def word_less_nat_alt)
  show "ent_has e' p x \<longleftrightarrow> ent_has e p x \<and> unat endp \<le> p"
    using backing_shift [OF lt(1) small e'(4,1)] pe e' assms(4) lt(1)
    by (auto simp: ent_has_def covers_def word_less_nat_alt)
qed

lemma ent_ok_left:
  assumes "ent_ok e" "page_num e < pn" "unat pn \<le> page_end e"
  shows "ent_ok (e\<lparr>npages := pn - page_num e\<rparr>)" "page_end (e\<lparr>npages := pn - page_num e\<rparr>) = unat pn"
proof -
  have "unat (pn - page_num e) = unat pn - unat (page_num e)"
    using assms(2) by (intro unat_sub_le) simp
  then show "ent_ok (e\<lparr>npages := pn - page_num e\<rparr>)" "page_end (e\<lparr>npages := pn - page_num e\<rparr>) = unat pn"
    using assms by (auto simp: ent_ok_def page_end_def word_less_nat_alt)
qed

lemma has_page_after:
  "\<forall>e \<in> E. lo \<le> unat (page_num e) \<Longrightarrow> has_page E p x \<Longrightarrow> lo \<le> p"
  by (auto simp: has_page_def ent_has_def covers_def)

lemma upd_pages:
  assumes "sorted_wrt before es" "\<forall>e \<in> set es. ent_ok e \<and> \<not> removed e" "pn < endp"
  shows "has_page (set (upd_all pn endp es)) p x \<longleftrightarrow>
    has_page (set es) p x \<and> \<not> (unat pn \<le> p \<and> p < unat endp)"
  using assms(1,2)
proof (induction es)
  case (Cons e es)
  have ok: "ent_ok e" "\<not> removed e" using Cons.prems by auto
  have pe: "unat (page_num e + npages e) = page_end e" by (rule page_end_no_wrap [OF ok(1)])
  have after: "has_page (set es) p x \<Longrightarrow> page_end e \<le> p"
    using Cons.prems(1) by (intro has_page_after [of "set es"]) (auto simp: before_def)
  have IH: "has_page (set (upd_all pn endp es)) p x \<longleftrightarrow>
    has_page (set es) p x \<and> \<not> (unat pn \<le> p \<and> p < unat endp)"
    using Cons by simp
  have within: "ent_has e p x \<Longrightarrow> unat (page_num e) \<le> p \<and> p < page_end e"
    by (simp add: ent_has_def covers_def)
  have w: "unat pn < unat endp" using assms(3) by (simp add: word_less_nat_alt)
  consider (split) "page_num e < pn \<and> endp < page_num e + npages e"
    | (left) "\<not> (page_num e < pn \<and> endp < page_num e + npages e)" "page_num e < pn \<and> pn < page_num e + npages e"
    | (right) "\<not> (page_num e < pn \<and> endp < page_num e + npages e)" "\<not> (page_num e < pn \<and> pn < page_num e + npages e)"
        "page_num e < endp \<and> endp < page_num e + npages e"
    | (cover) "\<not> (page_num e < pn \<and> endp < page_num e + npages e)" "\<not> (page_num e < pn \<and> pn < page_num e + npages e)"
        "\<not> (page_num e < endp \<and> endp < page_num e + npages e)" "pn \<le> page_num e \<and> page_num e + npages e \<le> endp"
    | (out) "\<not> (page_num e < pn \<and> endp < page_num e + npages e)" "\<not> (page_num e < pn \<and> pn < page_num e + npages e)"
        "\<not> (page_num e < endp \<and> endp < page_num e + npages e)" "\<not> (pn \<le> page_num e \<and> page_num e + npages e \<le> endp)"
    by blast
  then show ?case
  proof cases
    case split
    let ?e2 = "\<lparr>page_num = endp, npages = page_num e + npages e - endp, prot = prot e,
           nmop = NaClMemObjIncOffset (nmop e) (additional_offset endp e), removed = False\<rparr>"
    have c: "page_num e < endp" "unat endp < page_end e" "unat pn \<le> page_end e"
      using split pe w by (auto simp: word_less_nat_alt)
    have "ent_has (e\<lparr>npages := pn - page_num e\<rparr>) p x \<longleftrightarrow> ent_has e p x \<and> p < unat pn"
      using split c by (intro ent_has_left) auto
    moreover have "ent_has ?e2 p x \<longleftrightarrow> ent_has e p x \<and> unat endp \<le> p"
      using ent_has_right(1) [OF ok(1) c(1,2) ok(2), of ?e2] by simp
    ultimately show ?thesis
      using split after c w by (auto simp: Let_def)
  next
    case left
    have "ent_has (e\<lparr>npages := pn - page_num e\<rparr>) p x \<longleftrightarrow> ent_has e p x \<and> p < unat pn"
      using left pe by (intro ent_has_left) (auto simp: word_less_nat_alt)
    moreover have "page_end e \<le> unat endp" using left pe by (auto simp: word_less_nat_alt)
    ultimately show ?thesis using left IH within w by (auto simp: Let_def)
  next
    case right
    let ?e2 = "e\<lparr>nmop := NaClMemObjIncOffset (nmop e) (additional_offset endp e),
           page_num := endp, npages := page_num e + npages e - endp\<rparr>"
    have c: "page_num e < endp" "unat endp < page_end e" "unat pn \<le> unat (page_num e)"
      using right pe w by (auto simp: word_less_nat_alt)
    have "ent_has ?e2 p x \<longleftrightarrow> ent_has e p x \<and> unat endp \<le> p"
      using ent_has_right(1) [OF ok(1) c(1,2) ok(2), of ?e2] ok by simp
    then show ?thesis using right after within c by (auto simp: Let_def)
  next
    case cover
    have "\<not> ent_has (e\<lparr>removed := True\<rparr>) p x" by (simp add: ent_has_def)
    moreover have "ent_has e p x \<Longrightarrow> unat pn \<le> p \<and> p < unat endp"
      using cover pe within by (auto simp: word_le_nat_alt)
    ultimately show ?thesis using cover IH by (auto simp: Let_def)
  next
    case out
    have "page_end e \<le> unat pn \<or> unat endp \<le> unat (page_num e)"
      using out pe npages_pos [OF ok(1)] w by (auto simp: word_less_nat_alt word_le_nat_alt)
    then have "ent_has e p x \<Longrightarrow> \<not> (unat pn \<le> p \<and> p < unat endp)" using within by auto
    then show ?thesis using out IH by (auto simp: Let_def)
  qed
qed simp

lemma upd_start:
  assumes "pn < endp" "\<forall>e \<in> set es. lo \<le> unat (page_num e)"
  shows "\<forall>x \<in> set (upd_all pn endp es). lo \<le> unat (page_num x)"
  using assms(2)
proof (induction es)
  case (Cons e es)
  then have "lo \<le> unat endp" if "page_num e < endp" using that by (simp add: word_less_nat_alt)
  moreover have "page_num e < endp" if "page_num e < pn" using that assms(1) by simp
  ultimately show ?case using Cons by (auto simp: Let_def)
qed simp

text \<open>
  The entries after the loop are still non-empty and pairwise disjoint, and those not marked
  miss the updated region.
\<close>

lemma upd_good:
  assumes "sorted_wrt before es" "\<forall>e \<in> set es. ent_ok e \<and> \<not> removed e" "pn < endp"
  shows "(\<forall>x \<in> set (upd_all pn endp es). ent_ok x \<and>
            (\<not> removed x \<longrightarrow> page_end x \<le> unat pn \<or> unat endp \<le> unat (page_num x))) \<and>
         sorted_wrt apart (upd_all pn endp es)"
  using assms(1,2)
proof (induction es)
  case (Cons e es)
  have ok: "ent_ok e" "\<not> removed e" using Cons.prems by auto
  have pe: "unat (page_num e + npages e) = page_end e" by (rule page_end_no_wrap [OF ok(1)])
  have after: "\<forall>f \<in> set es. page_end e \<le> unat (page_num f)" using Cons.prems(1) by (simp add: before_def)
  have after': "\<forall>f \<in> set (upd_all pn endp es). page_end e \<le> unat (page_num f)"
    by (rule upd_start [OF assms(3) after])
  have tail: "sorted_wrt apart es"
    using Cons.prems(1) by (auto simp: before_def apart_def elim!: sorted_wrt_mono_rel [rotated])
  have oks: "\<forall>f \<in> set es. ent_ok f" using Cons.prems(2) by simp
  have IH: "(\<forall>x \<in> set (upd_all pn endp es). ent_ok x \<and>
            (\<not> removed x \<longrightarrow> page_end x \<le> unat pn \<or> unat endp \<le> unat (page_num x)))"
         "sorted_wrt apart (upd_all pn endp es)"
    using Cons by auto
  have w: "unat pn < unat endp" using assms(3) by (simp add: word_less_nat_alt)
  have go: ?case
    if e': "upd pn endp (e # es) = apfst (Cons e') (upd pn endp es)" "ent_ok e'" "page_end e' \<le> page_end e"
      "\<not> removed e' \<longrightarrow> page_end e' \<le> unat pn \<or> unat endp \<le> unat (page_num e')" for e'
  proof -
    have "upd_all pn endp (e # es) = e' # upd_all pn endp es" using e'(1) by simp
    moreover have "\<forall>f \<in> set (upd_all pn endp es). apart e' f"
      using after' e'(3) unfolding apart_def by (meson order.trans)
    ultimately show ?thesis using e'(2,4) IH by simp
  qed
  consider (split) "page_num e < pn \<and> endp < page_num e + npages e"
    | (left) "\<not> (page_num e < pn \<and> endp < page_num e + npages e)" "page_num e < pn \<and> pn < page_num e + npages e"
    | (right) "\<not> (page_num e < pn \<and> endp < page_num e + npages e)" "\<not> (page_num e < pn \<and> pn < page_num e + npages e)"
        "page_num e < endp \<and> endp < page_num e + npages e"
    | (cover) "\<not> (page_num e < pn \<and> endp < page_num e + npages e)" "\<not> (page_num e < pn \<and> pn < page_num e + npages e)"
        "\<not> (page_num e < endp \<and> endp < page_num e + npages e)" "pn \<le> page_num e \<and> page_num e + npages e \<le> endp"
    | (out) "\<not> (page_num e < pn \<and> endp < page_num e + npages e)" "\<not> (page_num e < pn \<and> pn < page_num e + npages e)"
        "\<not> (page_num e < endp \<and> endp < page_num e + npages e)" "\<not> (pn \<le> page_num e \<and> page_num e + npages e \<le> endp)"
    by blast
  then show ?case
  proof cases
    case split
    let ?e1 = "e\<lparr>npages := pn - page_num e\<rparr>"
    let ?e2 = "\<lparr>page_num = endp, npages = page_num e + npages e - endp, prot = prot e,
           nmop = NaClMemObjIncOffset (nmop e) (additional_offset endp e), removed = False\<rparr>"
    have c: "page_num e < pn" "page_num e < endp" "unat endp < page_end e" "unat pn \<le> page_end e"
      using split pe w by (auto simp: word_less_nat_alt)
    note e1 = ent_ok_left [OF ok(1) c(1,4)]
    have e2: "page_end ?e2 = page_end e" "ent_ok ?e2"
      using ent_has_right(2,3) [OF ok(1) c(2,3) ok(2), of ?e2] by simp_all
    have "apart ?e1 ?e2" "\<forall>f \<in> set es. apart ?e1 f" "\<forall>f \<in> set es. apart f ?e2"
      using e1(2) e2(1) after w c(4) by (fastforce simp: apart_def)+
    moreover have "\<forall>f \<in> set es. unat endp \<le> unat (page_num f)" using after c(3) by fastforce
    moreover have "upd_all pn endp (e # es) = ?e1 # es @ [?e2]" using split by (simp add: Let_def)
    ultimately show ?thesis
      using e1 e2 tail oks by (simp add: sorted_wrt_append)
  next
    case left
    then have c: "page_num e < pn" "unat pn \<le> page_end e" using pe by (auto simp: word_less_nat_alt)
    show ?thesis
      using ent_ok_left [OF ok(1) c] c left by (intro go [of "e\<lparr>npages := pn - page_num e\<rparr>"]) (simp_all add: Let_def)
  next
    case right
    let ?e2 = "e\<lparr>nmop := NaClMemObjIncOffset (nmop e) (additional_offset endp e),
           page_num := endp, npages := page_num e + npages e - endp\<rparr>"
    have c: "page_num e < endp" "unat endp < page_end e"
      using right pe w by (auto simp: word_less_nat_alt)
    have e2: "page_end ?e2 = page_end e" "ent_ok ?e2"
      using ent_has_right(2,3) [OF ok(1) c ok(2), of ?e2] ok by simp_all
    have "\<forall>f \<in> set es. apart ?e2 f" using e2(1) after by (simp add: apart_def)
    moreover have "\<forall>f \<in> set es. unat endp \<le> unat (page_num f)" using after c(2) by fastforce
    moreover have "upd_all pn endp (e # es) = ?e2 # es" using right by (simp add: Let_def)
    ultimately show ?thesis using e2 tail oks by simp
  next
    case cover
    have u: "upd pn endp (e # es) = apfst (Cons (e\<lparr>removed := True\<rparr>)) (upd pn endp es)"
      unfolding upd.simps Let_def using cover by presburger
    show ?thesis
      using ok by (intro go [OF u]) (simp_all add: ent_ok_def page_end_def)
  next
    case out
    then have "page_end e \<le> unat pn \<or> unat endp \<le> unat (page_num e)"
      using pe npages_pos [OF ok(1)] w by (auto simp: word_less_nat_alt word_le_nat_alt)
    moreover have u: "upd pn endp (e # es) = apfst (Cons e) (upd pn endp es)"
      unfolding upd.simps Let_def using out by presburger
    ultimately show ?thesis using ok by (intro go [OF u]) simp_all
  qed
qed simp

text \<open>A sorted map has at most one entry per page, so it never has more than \<open>2^20\<close> entries.\<close>

lemma sorted_length:
  assumes "sorted_wrt before es" "\<forall>e \<in> set es. ent_ok e"
  shows "length es \<le> 2 ^ 20"
proof -
  have "length es \<le> hi" if "\<forall>e \<in> set es. page_end e \<le> hi" for hi
    using assms that
  proof (induction es arbitrary: hi rule: rev_induct)
    case (snoc e es)
    then have "length es \<le> unat (page_num e)" by (auto simp: sorted_wrt_append before_def)
    moreover have "unat (page_num e) < page_end e" "page_end e \<le> hi"
      using snoc.prems npages_pos [of e] by auto
    ultimately show ?case by simp
  qed simp
  then show ?thesis using assms(2) by (auto simp: ent_ok_def)
qed

lemma vm_pages_has_page:
  assumes "good es" "layout vm es"
  shows "vm_pages vm p = Some x \<longleftrightarrow> has_page (set es) p x"
proof -
  have uniq: "e = f" if mem: "e \<in> set es" "f \<in> set es" and cov: "covers e p" "covers f p" for e f
  proof -
    obtain i j where ij: "i < length es" "j < length es" "e = es ! i" "f = es ! j"
      using mem by (auto simp: in_set_conv_nth)
    have "\<not> apart e f" "\<not> apart f e" using cov by (auto simp: apart_def covers_def)
    then have "i = j"
      using assms(1) ij by (metis good_def linorder_neqE_nat sorted_wrt_nth_less)
    then show ?thesis using ij by simp
  qed
  show ?thesis
  proof (cases "List.find (\<lambda>e. covers e p) es")
    case None
    then have "\<not> has_page (set es) p x" by (auto simp: find_None_iff has_page_def ent_has_def)
    then show ?thesis using None by (simp add: vm_pages_def layout_entries [OF assms(2)])
  next
    case (Some e)
    then have e: "e \<in> set es" "covers e p" by (auto simp: find_Some_iff)
    then have "has_page (set es) p x \<longleftrightarrow> x = (prot e, backing e p)"
      using uniq assms(1) by (auto simp: has_page_def ent_has_def good_def)
    then show ?thesis using Some by (auto simp: vm_pages_def layout_entries [OF assms(2)])
  qed
qed

section \<open>Updating: the whole call\<close>

text \<open>What a page of a newly mapped region holds.\<close>

definition new_page :: "int \<Rightarrow> NaClMemObj option \<Rightarrow> nat \<Rightarrow> nat \<Rightarrow> page_info" where
  "new_page pr mo s p = (pr, map_option (\<lambda>m. (mo_ndp m, mo_offset m + 4096 * (of_nat p - of_nat s))) mo)"

lemma option_eqI: "(\<And>x. a = Some x \<longleftrightarrow> b = Some x) \<Longrightarrow> a = b"
  by (cases a; cases b) auto

lemma Update_finish:
  assumes lay: "layout vm R" and hp: "vm_heap ext (mset R) h"
    and ok: "\<forall>x \<in> set R. ent_ok x" "sorted_wrt apart (filter (\<lambda>e. \<not> removed e) R)"
    and ex: "\<exists>x \<in> set R. \<not> removed x"
  obtains h' vm' where "NaClVmmapRemoveMarked h vm = Inr (h', vm')" "vm_inv ext h' vm'"
    "\<And>p x. vm_pages vm' p = Some x \<longleftrightarrow> has_page (set R) p x"
proof -
  obtain h' vm' es' where r: "NaClVmmapRemoveMarked h vm = Inr (h', vm')" "layout vm' es'"
    "mset es' = kept (mset R)" "vm_heap ext (mset es') h'" "\<not> is_sorted vm'"
    using RemoveMarked_ok [OF lay hp ex] .
  have "mset (filter (\<lambda>e. \<not> removed e) R) = mset es'" using r(3) by simp
  moreover have "good (filter (\<lambda>e. \<not> removed e) R)"
    using ok by (simp add: good_def)
  ultimately have g: "good es'" using good_mset by blast
  show thesis
  proof (rule that [OF r(1)])
    show "vm_inv ext h' vm'" using r(5) by (intro vm_invI [OF r(2) g _ r(4)]) simp
    show "vm_pages vm' p = Some x \<longleftrightarrow> has_page (set R) p x" for p x
      using vm_pages_has_page [OF g r(2)] has_page_kept [OF r(3)] by simp
  qed
qed

lemma upd_length: "length (upd_all pn endp es) \<le> Suc (length es)"
  by (induction es) (auto simp: Let_def)

lemma upd_Nil: "upd_all pn endp es = [] \<Longrightarrow> es = []"
  by (cases es) (auto simp: Let_def split: if_splits)

lemma has_page_new:
  assumes "unat pn + unat np \<le> 2 ^ 20"
  shows "ent_has \<lparr>page_num = pn, npages = np, prot = pr, nmop = mo, removed = False\<rparr> p x \<longleftrightarrow>
    unat pn \<le> p \<and> p < unat pn + unat np \<and> x = new_page pr mo (unat pn) p"
  by (auto simp: ent_has_def covers_def page_end_def backing_def new_page_def)

lemma has_page_not_removed: "has_page (set R) p x \<Longrightarrow> \<exists>e \<in> set R. \<not> removed e"
  by (auto simp: has_page_def ent_has_def)

text \<open>Everything up to the final compaction: the list of entries the loop and the addition leave.\<close>

lemma Update_entries:
  assumes inv: "vm_inv ext h vm" and alloc: "entry_alloc_ok env"
    and range: "0 < np" "unat pn + unat np \<le> 2 ^ 20"
  obtains "NaClVmmapUpdate env h vm pn np pr mo remove = Inl LogFatal"
      "no_memory env (mset (entries vm)) ext"
  | h2 vm3 R where "NaClVmmapUpdate env h vm pn np pr mo remove = NaClVmmapRemoveMarked h2 vm3"
      "layout vm3 R" "\<forall>x \<in> set R. ent_ok x" "sorted_wrt apart (filter (\<lambda>e. \<not> removed e) R)"
      "\<And>p x. has_page (set R) p x \<longleftrightarrow>
        (if unat pn \<le> p \<and> p < unat pn + unat np then \<not> remove \<and> x = new_page pr mo (unat pn) p
         else vm_pages vm p = Some x)"
      "vm_heap ext (if remove then mset R else mset R - {#last R#}) h2"
      "remove \<or> nmop (last R) = mo \<and> R \<noteq> []" "R = [] \<Longrightarrow> entries vm = []"
proof -
  have e: "unat (pn + np) = unat pn + unat np" using range by (intro unat_add_no_wrap) simp
  then have lt: "pn < pn + np" using range(1) by (simp add: word_less_nat_alt)
  obtain h1 vm1 es where s: "NaClVmmapMakeSorted h vm = Inr (h1, vm1)" "layout vm1 es" "good es"
    "sorted_wrt before es" "vm_heap ext (mset es) h1" "mset es = mset (entries vm)"
    using MakeSorted_ok [OF inv] .
  obtain es0 where es0: "layout vm es0" "good es0" "entries vm = es0" using inv by (rule vm_invE)
  have view: "has_page (set es) p x \<longleftrightarrow> vm_pages vm p = Some x" for p x
    using vm_pages_has_page [OF es0(2,1)] mset_eq_setD [OF s(6)] es0(3) by simp
  have ok: "\<forall>e \<in> set es. ent_ok e \<and> \<not> removed e" using s(3) by (simp add: good_def)
  have len: "length es \<le> 2 ^ 20" using sorted_length s(4) ok by blast
  let ?R = "upd_all pn (pn + np) es"
  note good_R = upd_good [OF s(4) ok lt, unfolded e] and pages_R = upd_pages [OF s(4) ok lt, unfolded e]
  consider "update_loop env h1 vm1 0 pn (pn + np) = Inl LogFatal" "no_memory env (mset es) ext"
    | h2 vm2 where "update_loop env h1 vm1 0 pn (pn + np) = Inr (h2, vm2)" "layout vm2 ?R"
        "vm_heap ext (mset ?R) h2"
    using update_loop_ok [of vm1 "[]" es ext h1 env pn "pn + np"] s(2,5) len alloc by auto
  then show thesis
  proof cases
    case 1
    then show thesis
      using that(1) s(1,6) range(1) by (simp add: NaClVmmapUpdate_def)
  next
    case 2
    have page_R: "has_page (set ?R) p x \<longleftrightarrow>
        vm_pages vm p = Some x \<and> \<not> (unat pn \<le> p \<and> p < unat pn + unat np)" for p x
      using pages_R view by simp
    show thesis
    proof (cases remove)
      case True
      then have "NaClVmmapUpdate env h vm pn np pr mo remove = NaClVmmapRemoveMarked h2 vm2"
        using s(1) range(1) 2(1) by (simp add: NaClVmmapUpdate_def)
      moreover have "?R = [] \<Longrightarrow> entries vm = []"
        using upd_Nil [of pn "pn + np" es] s(6) by simp
      ultimately show thesis
        using that(2) [OF _ 2(2)] good_R page_R True 2(3) by (simp add: sorted_wrt_append sorted_wrt_filter)
    next
      case False
      let ?e = "\<lparr>page_num = pn, npages = np, prot = pr, nmop = mo, removed = False\<rparr>"
      have "length ?R \<le> 2 ^ 20 + 1" using upd_length [of pn "pn + np" es] len by simp
      then show thesis
      proof (rule Add_ok [OF 2(2) _ alloc, of pn np pr mo])
        assume "NaClVmmapAdd env vm2 pn np pr mo = Inr (vm2, False)" "\<not> map_alloc_ok env"
        then show thesis
          using that(1) s(1) range(1) 2(1) False by (simp add: NaClVmmapUpdate_def no_memory_def)
      next
        fix vm3
        assume a: "NaClVmmapAdd env vm2 pn np pr mo = Inr (vm3, True)" "layout vm3 (?R @ [?e])"
        have "NaClVmmapUpdate env h vm pn np pr mo remove = NaClVmmapRemoveMarked h2 vm3"
          using s(1) range(1) 2(1) a(1) False by (simp add: NaClVmmapUpdate_def)
        then show thesis
        proof (rule that(2) [OF _ a(2)])
          have eo: "ent_ok ?e" using range by (simp add: ent_ok_def page_end_def)
          then show "\<forall>x \<in> set (?R @ [?e]). ent_ok x" using good_R by auto
          have "apart x ?e" if "x \<in> set ?R" "\<not> removed x" for x
            using good_R that by (auto simp: apart_def page_end_def)
          moreover have "sorted_wrt apart (filter (\<lambda>e. \<not> removed e) ?R)"
            using good_R sorted_wrt_filter by blast
          ultimately show "sorted_wrt apart (filter (\<lambda>e. \<not> removed e) (?R @ [?e]))"
            by (simp only: filter_append sorted_wrt_append) auto
          show "has_page (set (?R @ [?e])) p x \<longleftrightarrow>
            (if unat pn \<le> p \<and> p < unat pn + unat np then \<not> remove \<and> x = new_page pr mo (unat pn) p
             else vm_pages vm p = Some x)" for p x
            using page_R [of p x] has_page_new [OF range(2), of pr mo p x] False by auto
          show "vm_heap ext (if remove then mset (?R @ [?e]) else mset (?R @ [?e]) - {#last (?R @ [?e])#}) h2"
            using 2(3) False by simp
          show "remove \<or> nmop (last (?R @ [?e])) = mo \<and> ?R @ [?e] \<noteq> []" by simp
          show "?R @ [?e] = [] \<Longrightarrow> entries vm = []" by simp
        qed
      qed
    qed
  qed
qed

lemma take_ref_heap:
  assumes "vm_heap ext (mset R - {#last R#}) h" "R \<noteq> []" "nmop (last R) = mo"
    and own: "\<And>m. mo = Some m \<Longrightarrow> 0 < ext (mo_ndp m)"
  shows "vm_heap (take_ref ext (map_option mo_ndp mo)) (mset R) h"
proof -
  have m: "mset R = add_mset (last R) (mset R - {#last R#})" using assms(2) by simp
  have "(\<lambda>d. refs (mset R) d + take_ref ext (map_option mo_ndp mo) d) = (\<lambda>d. refs (mset R - {#last R#}) d + ext d)"
  proof
    fix d
    show "refs (mset R) d + take_ref ext (map_option mo_ndp mo) d = refs (mset R - {#last R#}) d + ext d"
      by (subst m) (use assms(3) own in \<open>auto simp: take_ref_def split: option.splits\<close>)
  qed
  then show ?thesis using assms(1) by simp
qed

section \<open>Searching\<close>

lemma ContainCmp_cases:
  assumes "ent_ok e"
  shows "NaClVmmapContainCmpEntries key e < 0 \<longleftrightarrow> unat key < unat (page_num e)"
    "NaClVmmapContainCmpEntries key e > 0 \<longleftrightarrow> page_end e \<le> unat key"
  using page_end_no_wrap [OF assms] npages_pos [OF assms]
  by (auto simp: NaClVmmapContainCmpEntries_def word_less_nat_alt)

lemma bsearch_sorted:
  assumes srt: "sorted_wrt before es" and ok: "\<forall>e \<in> set es. ent_ok e"
    and "u \<le> length es" "\<forall>i < l. page_end (es ! i) \<le> unat key"
      "\<forall>i < length es. u \<le> i \<longrightarrow> unat key < unat (page_num (es ! i))"
  shows "case bsearch_from (NaClVmmapContainCmpEntries key) es l u of
      None \<Rightarrow> \<forall>e \<in> set es. \<not> covers e (unat key)
    | Some i \<Rightarrow> i < length es \<and> covers (es ! i) (unat key)"
  using assms(3-5)
proof (induction "u - l" arbitrary: l u rule: less_induct)
  case less
  have ord: "page_end (es ! i) \<le> unat (page_num (es ! j))" if "i < j" "j < length es" for i j
    using srt that by (auto simp: sorted_wrt_iff_nth_less before_def)
  show ?case
  proof (cases "l < u")
    case False
    have "\<not> covers (es ! i) (unat key)" if "i < length es" for i
      using less.prems(2,3) that False by (cases "i < l") (auto simp: covers_def)
    then show ?thesis
      using False by (subst bsearch_from.simps) (auto simp: in_set_conv_nth)
  next
    case True
    let ?i = "(l + u) div 2"
    have i: "l \<le> ?i" "?i < u" "?i < length es" using True less.prems(1) by auto
    then have ei: "ent_ok (es ! ?i)" using ok by simp
    note cmp = ContainCmp_cases [OF ei, of key] and pos = npages_pos [OF ei]
    consider (lt) "unat key < unat (page_num (es ! ?i))" | (gt) "page_end (es ! ?i) \<le> unat key"
      | (eq) "covers (es ! ?i) (unat key)"
      unfolding covers_def by linarith
    then show ?thesis
    proof cases
      case lt
      have "unat key < unat (page_num (es ! j))" if "j < length es" "?i \<le> j" for j
        using lt ord [of ?i j] that pos by (cases "j = ?i") auto
      with less.hyps [of ?i l] i less.prems(1,2) show ?thesis
        using cmp lt True by (subst bsearch_from.simps) simp
    next
      case gt
      have "page_end (es ! j) \<le> unat key" if "j < Suc ?i" for j
        using gt ord [of j ?i] that i pos by (cases "j = ?i") auto
      with less.hyps [of u "Suc ?i"] i less.prems(1,3) show ?thesis
        using cmp gt pos True by (subst bsearch_from.simps) simp
    next
      case eq
      then have "\<not> unat key < unat (page_num (es ! ?i))" "\<not> page_end (es ! ?i) \<le> unat key"
        by (auto simp: covers_def)
      then show ?thesis using cmp eq i True by (subst bsearch_from.simps) simp
    qed
  qed
qed

lemma bsearch_whole:
  assumes "layout vm es" "sorted_wrt before es" "good es"
  obtains r where "vmmap_bsearch vm key = Inr r"
    "case r of None \<Rightarrow> \<forall>e \<in> set es. \<not> covers e (unat key)
     | Some i \<Rightarrow> i < length es \<and> covers (es ! i) (unat key)"
proof
  show "vmmap_bsearch vm key = Inr (bsearch_from (NaClVmmapContainCmpEntries key) es 0 (length es))"
    using layout_deref_all [OF assms(1)] by (simp add: vmmap_bsearch_def)
  show "case bsearch_from (NaClVmmapContainCmpEntries key) es 0 (length es) of
      None \<Rightarrow> \<forall>e \<in> set es. \<not> covers e (unat key)
    | Some i \<Rightarrow> i < length es \<and> covers (es ! i) (unat key)"
    using assms(3) by (intro bsearch_sorted [OF assms(2)]) (auto simp: good_def)
qed

section \<open>Free space\<close>

definition page_free :: "NaClVmmapEntry set \<Rightarrow> nat \<Rightarrow> nat \<Rightarrow> bool" where
  "page_free E s n \<longleftrightarrow> (\<forall>e \<in> E. page_end e \<le> s \<or> s + n \<le> unat (page_num e))"

lemma page_free_gap:
  assumes srt: "sorted_wrt before es" and ok: "\<forall>e \<in> set es. ent_ok e" and i: "0 < i" "i < length es"
    and s: "page_end (es ! (i - 1)) \<le> s" "s + n \<le> unat (page_num (es ! i))"
  shows "page_free (set es) s n"
  unfolding page_free_def
proof
  fix e assume "e \<in> set es"
  then obtain j where j: "j < length es" "e = es ! j" by (auto simp: in_set_conv_nth)
  have ord: "page_end (es ! a) \<le> unat (page_num (es ! b))" if "a < b" "b < length es" for a b
    using srt that by (auto simp: sorted_wrt_iff_nth_less before_def)
  have pos: "unat (page_num (es ! a)) < page_end (es ! a)" if "a < length es" for a
    using npages_pos ok that by simp
  consider "j < i - 1" | "j = i - 1" | "j = i" | "i < j" by linarith
  then show "page_end e \<le> s \<or> s + n \<le> unat (page_num e)"
  proof cases
    case 1
    have "i - 1 < length es" using i by simp
    from ord [OF 1 this] pos [OF this] s(1) show ?thesis unfolding j(2) by linarith
  next
    case 4 then show ?thesis using ord [of i j] pos [of i] s j i by simp
  qed (use s j in auto)
qed

text \<open>\<open>s\<close> starts a region of \<open>n\<close> pages in the gap below entry \<open>i\<close>.\<close>

definition in_gap :: "NaClVmmapEntry list \<Rightarrow> nat \<Rightarrow> nat \<Rightarrow> nat \<Rightarrow> bool" where
  "in_gap es i s n \<longleftrightarrow> 0 < i \<and> i < length es \<and>
     page_end (es ! (i - 1)) \<le> s \<and> s + n \<le> unat (page_num (es ! i))"

lemma in_gap_free:
  "sorted_wrt before es \<Longrightarrow> good es \<Longrightarrow> in_gap es i s n \<Longrightarrow> page_free (set es) s n"
  by (rule page_free_gap) (auto simp: in_gap_def good_def)

text \<open>The two entries around gap \<open>i\<close>, as the loops read them.\<close>

lemma gap_entries:
  assumes "layout vm es" "sorted_wrt before es" "good es" "0 < i" "i < length es"
  obtains a b where "entry_at (vmentry vm) (i - 1) = Inr a" "entry_at (vmentry vm) i = Inr b"
    "a = es ! (i - 1)" "b = es ! i" "page_num a + npages a \<le> page_num b"
    "unat (page_num a + npages a) = page_end a" "page_end a \<le> 2 ^ 20" "0 < page_end a"
    "unat (page_num b) < 2 ^ 20"
proof
  show "entry_at (vmentry vm) (i - 1) = Inr (es ! (i - 1))" "entry_at (vmentry vm) i = Inr (es ! i)"
    using layout_entry_at [OF assms(1)] assms(5) by simp_all
  have ok: "ent_ok (es ! (i - 1))" "ent_ok (es ! i)" using assms(3,5) by (auto simp: good_def)
  show pe: "unat (page_num (es ! (i - 1)) + npages (es ! (i - 1))) = page_end (es ! (i - 1))"
    using page_end_no_wrap [OF ok(1)] .
  have "before (es ! (i - 1)) (es ! i)"
    using assms(2,4,5) by (auto simp: sorted_wrt_iff_nth_less)
  then show "page_num (es ! (i - 1)) + npages (es ! (i - 1)) \<le> page_num (es ! i)"
    using pe by (simp add: word_le_nat_alt before_def)
  show "page_end (es ! (i - 1)) \<le> 2 ^ 20" "0 < page_end (es ! (i - 1))"
    using ok(1) npages_pos [OF ok(1)] by (auto simp: ent_ok_def)
  show "unat (page_num (es ! i)) < 2 ^ 20"
    using ok(2) npages_pos [OF ok(2)] by (auto simp: ent_ok_def)
qed auto

lemma find_space_loop_ok:
  assumes inv: "layout vm es" "sorted_wrt before es" "good es" and "k \<le> length es" and n: "0 < n"
  shows "\<exists>r. find_space_loop (vmentry vm) n k = Inr r \<and>
    (if r \<noteq> 0 then \<exists>i. in_gap es i (unat r) (unat n)
     else \<forall>i < k. \<forall>s. \<not> in_gap es i s (unat n))"
  using assms(4)
proof (induction k)
  case 0
  then show ?case by simp
next
  case (Suc i)
  show ?case
  proof (cases "0 < i")
    case False
    then show ?thesis by (simp add: in_gap_def)
  next
    case True
    obtain a b where ab: "entry_at (vmentry vm) (i - 1) = Inr a" "entry_at (vmentry vm) i = Inr b"
      "a = es ! (i - 1)" "b = es ! i" "page_num a + npages a \<le> page_num b"
      "unat (page_num a + npages a) = page_end a" "0 < page_end a"
      using gap_entries [OF inv True, of thesis] Suc.prems by auto
    have d: "unat (page_num b - (page_num a + npages a)) = unat (page_num b) - page_end a"
      using unat_sub_le [OF ab(5)] ab(6) by simp
    have le: "page_end a \<le> unat (page_num b)" using ab(5,6) by (simp add: word_le_nat_alt)
    show ?thesis
    proof (cases "page_num b - (page_num a + npages a) \<ge> n")
      case fits: True
      then have u: "unat n \<le> unat (page_num b) - page_end a" using d by (simp add: word_le_nat_alt)
      then have "n \<le> page_num b" by (simp add: word_le_nat_alt)
      then have r: "unat (page_num b - n) = unat (page_num b) - unat n" by (rule unat_sub_le)
      then have "in_gap es i (unat (page_num b - n)) (unat n)"
        using u le ab(3,4) True Suc.prems by (simp add: in_gap_def)
      moreover have "page_num b - n \<noteq> 0"
      proof
        assume "page_num b - n = 0"
        then have "unat (page_num b) - unat n = 0" using r by simp
        then show False using u le ab(7) by linarith
      qed
      ultimately show ?thesis using True ab(1,2) fits by (auto simp: Let_def)
    next
      case False
      then have "unat (page_num b) - page_end a < unat n" using d by (simp add: word_le_nat_alt)
      then have no: "\<not> in_gap es i s (unat n)" for s
        using ab(3,4) by (auto simp: in_gap_def)
      obtain r where "find_space_loop (vmentry vm) n i = Inr r"
        "if r \<noteq> 0 then \<exists>i. in_gap es i (unat r) (unat n) else \<forall>j < i. \<forall>s. \<not> in_gap es j s (unat n)"
        using Suc by auto
      then show ?thesis
        using True ab(1,2) False no by (auto simp: Let_def less_Suc_eq split: if_splits)
    qed
  qed
qed

text \<open>An aligned region fits a gap exactly when it fits the gap with both ends rounded inwards.\<close>

lemma round_page_le:
  assumes "unat w \<le> 2 ^ 21" "16 dvd s"
  shows "unat (NaClRoundPageNumUpToMapMultiple w) \<le> s \<longleftrightarrow> unat w \<le> s"
proof -
  have b: "16 dvd unat (round_up 4 w)" "unat w \<le> unat (round_up 4 w)" "unat (round_up 4 w) < unat w + 16"
    using round_up_bounds [of 4 w] assms(1) by simp_all
  obtain a c where "unat (round_up 4 w) = 16 * a" "s = 16 * c" using b(1) assms(2) by (auto elim!: dvdE)
  then show ?thesis using b(2,3) by (auto simp: NaClRoundPageNum_round_up)
qed

lemma trunc_page_le:
  assumes "16 dvd s"
  shows "s \<le> unat (NaClTruncPageNumDownToMapMultiple w) \<longleftrightarrow> s \<le> unat w"
proof -
  let ?t = "unat (w AND NOT (mask 4))"
  have b: "16 dvd ?t" "?t \<le> unat w" "unat w < ?t + 16"
    using unat_and_not_mask_dvd [of 4 w] unat_and_not_mask_le [of w 4] unat_and_not_mask_gt [of w 4] by simp_all
  obtain a c where "?t = 16 * a" "s = 16 * c" using b(1) assms by (auto elim!: dvdE)
  then show ?thesis using b(2,3) by (auto simp: NaClTruncPageNum_mask)
qed

lemma round_page_dvd: "16 dvd unat (NaClRoundPageNumUpToMapMultiple w)"
  using unat_and_not_mask_dvd [of 4 "w + 2 ^ 4 - 1"] by (simp add: NaClRoundPageNum_round_up round_up_def)

lemma trunc_page_dvd: "16 dvd unat (NaClTruncPageNumDownToMapMultiple w)"
  using unat_and_not_mask_dvd [of 4 w] by (simp add: NaClTruncPageNum_mask)

lemma round_page_pos:
  assumes "0 < unat w" "unat w \<le> 2 ^ 21"
  shows "0 < unat (NaClRoundPageNumUpToMapMultiple w)" "unat (NaClRoundPageNumUpToMapMultiple w) \<le> 2 ^ 22"
  using round_up_bounds [of 4 w] assms by (simp_all add: NaClRoundPageNum_round_up)

lemma aligned_gap:
  assumes inv: "layout vm es" "sorted_wrt before es" "good es" "0 < i" "i < length es"
    and a: "a = es ! (i - 1)" "b = es ! i" and al: "16 dvd s" "16 dvd n"
  shows "in_gap es i s n \<longleftrightarrow>
    unat (NaClRoundPageNumUpToMapMultiple (page_num a + npages a)) \<le> s \<and>
    s + n \<le> unat (NaClTruncPageNumDownToMapMultiple (page_num b))"
proof -
  have "unat (page_num a + npages a) = page_end a" "page_end a \<le> 2 ^ 20"
    using gap_entries [OF inv] a by metis+
  then show ?thesis
    using round_page_le [of "page_num a + npages a" s] trunc_page_le [of "s + n" "page_num b"] al inv(4,5) a
    by (auto simp: in_gap_def)
qed

lemma page_shifts: "NACL_MAP_PAGESHIFT > NACL_PAGESHIFT"
  by (simp add: page_consts)

lemma find_map_space_loop_ok:
  assumes inv: "layout vm es" "sorted_wrt before es" "good es" and "k \<le> length es"
    and n: "0 < n" "16 dvd unat n"
  shows "\<exists>r. find_map_space_loop (vmentry vm) n k = Inr r \<and>
    (if r \<noteq> 0 then 16 dvd unat r \<and> (\<exists>i. in_gap es i (unat r) (unat n))
     else \<forall>i < k. \<forall>s. 16 dvd s \<longrightarrow> \<not> in_gap es i s (unat n))"
  using assms(4)
proof (induction k)
  case (Suc i)
  show ?case
  proof (cases "0 < i")
    case False
    then show ?thesis by (simp add: in_gap_def)
  next
    case True
    obtain a b where ab: "entry_at (vmentry vm) (i - 1) = Inr a" "entry_at (vmentry vm) i = Inr b"
      "a = es ! (i - 1)" "b = es ! i" "unat (page_num a + npages a) = page_end a" "page_end a \<le> 2 ^ 20"
      "0 < page_end a"
      using gap_entries [OF inv True, of thesis] Suc.prems by auto
    let ?E = "NaClRoundPageNumUpToMapMultiple (page_num a + npages a)"
    let ?T = "NaClTruncPageNumDownToMapMultiple (page_num b)"
    have i: "i < length es" using Suc.prems by simp
    note gap = aligned_gap [OF inv True i ab(3,4) _ n(2)]
    show ?thesis
    proof (cases "\<not> ?T \<le> ?E \<and> ?T - ?E \<ge> n")
      case fits: True
      have d: "unat (?T - ?E) = unat ?T - unat ?E" using fits by (intro unat_sub_le) (auto simp: word_le_nat_alt)
      then have u: "unat n \<le> unat ?T - unat ?E" using fits by (simp add: word_le_nat_alt)
      then have "n \<le> ?T" by (simp add: word_le_nat_alt)
      then have r: "unat (?T - n) = unat ?T - unat n" by (rule unat_sub_le)
      have lt: "unat ?E < unat ?T" using fits by (simp add: word_le_nat_alt)
      have al: "16 dvd unat (?T - n)" unfolding r using trunc_page_dvd n(2) by (rule dvd_diff_nat)
      have "in_gap es i (unat (?T - n)) (unat n)"
        using gap [OF al] r u lt by simp
      moreover have "?T - n \<noteq> 0"
      proof
        assume "?T - n = 0"
        then have "unat ?T - unat n = 0" using r by simp
        moreover have "0 < unat ?E" using round_page_pos(1) ab(5-7) by simp
        ultimately show False using u lt by linarith
      qed
      moreover have "find_map_space_loop (vmentry vm) n (Suc i) = Inr (?T - n)"
        using True ab(1,2) fits page_shifts by (simp add: Let_def)
      ultimately show ?thesis using al by auto
    next
      case False
      have no: "\<not> in_gap es i s (unat n)" if "16 dvd s" for s
      proof
        assume "in_gap es i s (unat n)"
        then have g: "unat ?E \<le> s" "s + unat n \<le> unat ?T" using gap [OF that] by auto
        have n0: "0 < unat n" using n(1) by (simp add: word_less_nat_alt)
        then have "\<not> ?T \<le> ?E" using g by (simp add: word_le_nat_alt)
        moreover from this have "unat (?T - ?E) = unat ?T - unat ?E" by (intro unat_sub_le) (simp add: word_le_nat_alt)
        ultimately show False using False g by (simp add: word_le_nat_alt)
      qed
      have "find_map_space_loop (vmentry vm) n (Suc i) = find_map_space_loop (vmentry vm) n i"
        using True ab(1,2) False page_shifts by (auto simp: Let_def)
      moreover obtain r where "find_map_space_loop (vmentry vm) n i = Inr r"
        "if r \<noteq> 0 then 16 dvd unat r \<and> (\<exists>i. in_gap es i (unat r) (unat n))
         else \<forall>j < i. \<forall>s. 16 dvd s \<longrightarrow> \<not> in_gap es j s (unat n)"
        using Suc by auto
      ultimately show ?thesis using no by (auto simp: less_Suc_eq split: if_splits)
    qed
  qed
qed simp

lemma find_above_loop_ok:
  assumes inv: "layout vm es" "sorted_wrt before es" "good es" and "0 < i"
    and n: "0 < n" "16 dvd unat n" and hint: "16 dvd unat usr"
  shows "\<exists>r. find_above_loop (vmentry vm) usr n (length es) i = Inr r \<and>
    (r \<noteq> 0 \<longrightarrow> 16 dvd unat r \<and> usr \<le> r \<and> (\<exists>i. in_gap es i (unat r) (unat n)))"
  using assms(4)
proof (induction "length es - i" arbitrary: i)
  case 0
  then show ?case by (subst find_above_loop.simps) simp
next
  case (Suc k)
  then have i: "i < length es" by simp
  obtain a b where ab: "entry_at (vmentry vm) (i - 1) = Inr a" "entry_at (vmentry vm) i = Inr b"
    "a = es ! (i - 1)" "b = es ! i"
    using gap_entries [OF inv Suc.prems i, of thesis] by auto
  let ?E = "NaClRoundPageNumUpToMapMultiple (page_num a + npages a)"
  let ?T = "NaClTruncPageNumDownToMapMultiple (page_num b)"
  define E1 where "E1 = (if ?E \<le> usr \<and> usr < ?T then usr else ?E)"
  note gap = aligned_gap [OF inv Suc.prems i ab(3,4) _ n(2)]
  have E1: "16 dvd unat E1" "?E \<le> E1" using hint round_page_dvd by (auto simp: E1_def)
  obtain r where r: "find_above_loop (vmentry vm) usr n (length es) (Suc i) = Inr r"
    "r \<noteq> 0 \<longrightarrow> 16 dvd unat r \<and> usr \<le> r \<and> (\<exists>i. in_gap es i (unat r) (unat n))"
  proof -
    have "k = length es - Suc i" using Suc.hyps(2) by simp
    from Suc.hyps(1) [OF this] show thesis using that by auto
  qed
  show ?case
  proof (cases "\<not> ?T \<le> ?E \<and> usr \<le> E1 \<and> ?T - E1 \<ge> n")
    case True
    have "E1 \<le> ?T" using True by (auto simp: E1_def not_le split: if_splits)
    then have "unat (?T - E1) = unat ?T - unat E1" by (rule unat_sub_le)
    then have "in_gap es i (unat E1) (unat n)"
      using gap [OF E1(1)] E1(2) True \<open>E1 \<le> ?T\<close> by (auto simp: word_le_nat_alt)
    moreover have "find_above_loop (vmentry vm) usr n (length es) i = Inr E1"
      using True ab(1,2) i page_shifts by (subst find_above_loop.simps) (simp add: Let_def flip: E1_def)
    ultimately show ?thesis using E1(1) True by blast
  next
    case False
    then have "find_above_loop (vmentry vm) usr n (length es) i = find_above_loop (vmentry vm) usr n (length es) (Suc i)"
      using ab(1,2) i page_shifts by (subst find_above_loop.simps) (auto simp: Let_def simp flip: E1_def)
    then show ?thesis using r by simp
  qed
qed

section \<open>Properties\<close>

text \<open>C17: \<open>NaClVmmapUpdate\<close> implements the update of a page map: afterwards every page of
  the region holds the new protection and backing object (or nothing, when removing), with the
  file offset advanced page by page, every other page is as before (splits included), the
  entries are again disjoint and well formed, and the reference counts match the backing
  objects. It fails only by aborting when memory or a reference count runs out.\<close>

theorem NaClVmmapUpdate_refines:
  assumes "vm_inv ext h vm" and "entry_alloc_ok env" and "0 < np" and "unat pn + unat np \<le> 2 ^ 20"
    and "remove \<Longrightarrow> \<exists>p. vm_pages vm p \<noteq> None \<and> \<not> (unat pn \<le> p \<and> p < unat pn + unat np)"
    and "\<And>m. \<not> remove \<Longrightarrow> mo = Some m \<Longrightarrow> 0 < ext (mo_ndp m)"
  shows "case NaClVmmapUpdate env h vm pn np pr mo remove of
      Inl e \<Rightarrow> e = LogFatal \<and> no_memory env (mset (entries vm)) ext
    | Inr (h', vm') \<Rightarrow>
        vm_inv (if remove then ext else take_ref ext (map_option mo_ndp mo)) h' vm' \<and>
        vm_pages vm' = (\<lambda>p. if unat pn \<le> p \<and> p < unat pn + unat np
                            then if remove then None else Some (new_page pr mo (unat pn) p)
                            else vm_pages vm p)"
proof (rule Update_entries [OF assms(1-4), of pr mo remove])
  fix h2 vm3 R
  assume r: "NaClVmmapUpdate env h vm pn np pr mo remove = NaClVmmapRemoveMarked h2 vm3" "layout vm3 R"
    "\<forall>x \<in> set R. ent_ok x" "sorted_wrt apart (filter (\<lambda>e. \<not> removed e) R)"
    and pages: "\<And>p x. has_page (set R) p x \<longleftrightarrow>
        (if unat pn \<le> p \<and> p < unat pn + unat np then \<not> remove \<and> x = new_page pr mo (unat pn) p
         else vm_pages vm p = Some x)"
    and hp: "vm_heap ext (if remove then mset R else mset R - {#last R#}) h2"
    and last: "remove \<or> nmop (last R) = mo \<and> R \<noteq> []"
  let ?ext = "if remove then ext else take_ref ext (map_option mo_ndp mo)"
  have heap: "vm_heap ?ext (mset R) h2"
    using hp last take_ref_heap [where ext = ext and R = R and h = h2 and mo = mo] assms(6) by auto
  have ex: "\<exists>e \<in> set R. \<not> removed e"
  proof (cases remove)
    case True
    then obtain p x where "vm_pages vm p = Some x" "\<not> (unat pn \<le> p \<and> p < unat pn + unat np)"
      using assms(5) by auto
    then have "has_page (set R) p x" unfolding pages by (simp only: if_False)
    then show ?thesis by (rule has_page_not_removed)
  next
    case False
    have "unat pn < unat pn + unat np" using assms(3) by (simp add: word_less_nat_alt)
    then have "has_page (set R) (unat pn) (new_page pr mo (unat pn) (unat pn))"
      using False pages by simp
    then show ?thesis by (rule has_page_not_removed)
  qed
  obtain h' vm' where f: "NaClVmmapRemoveMarked h2 vm3 = Inr (h', vm')" "vm_inv ?ext h' vm'"
    and v: "\<And>p x. vm_pages vm' p = Some x \<longleftrightarrow> has_page (set R) p x"
    by (rule Update_finish [OF r(2) heap r(3,4) ex]) blast
  have "vm_pages vm' = (\<lambda>p. if unat pn \<le> p \<and> p < unat pn + unat np
                            then if remove then None else Some (new_page pr mo (unat pn) p)
                            else vm_pages vm p)"
  proof (intro ext option_eqI)
    fix p x
    show "vm_pages vm' p = Some x \<longleftrightarrow> (if unat pn \<le> p \<and> p < unat pn + unat np
          then if remove then None else Some (new_page pr mo (unat pn) p) else vm_pages vm p) = Some x"
      unfolding v pages
      by (cases "unat pn \<le> p \<and> p < unat pn + unat np"; cases remove)
        (simp_all only: if_True if_False simp_thms option.inject option.distinct eq_commute [of x])
  qed
  then show ?thesis using r(1) f by simp
qed simp

text \<open>A map with one two-page entry in a fresh array, and an allocator that never fails.\<close>

definition ok_env :: vm_env where
  "ok_env = \<lparr>map_alloc_ok = True, entry_alloc_ok = True, memobj_alloc_ok = True\<rparr>"

definition entry_of :: "uintptr_t \<Rightarrow> size_t \<Rightarrow> int \<Rightarrow> NaClVmmapEntry" where
  "entry_of pn np pr = \<lparr>page_num = pn, npages = np, prot = pr, nmop = None, removed = False\<rparr>"

definition small_map :: NaClVmmap where
  "small_map = \<lparr>vmentry = [Some (entry_of 32 2 5), Some (entry_of 100 4 3), None, None, None],
                nvalid = 2, vm_size = 5, is_sorted = True\<rparr>"

lemma small_map_inv: "vm_inv (\<lambda>_. 0) (\<lambda>_. None) small_map"
proof (rule vm_invI)
  show "layout small_map [entry_of 32 2 5, entry_of 100 4 3]"
    by (simp add: layout_def small_map_def)
  show "good [entry_of 32 2 5, entry_of 100 4 3]"
    by (simp add: good_def ent_ok_def page_end_def apart_def entry_of_def)
  show "sorted_wrt before [entry_of 32 2 5, entry_of 100 4 3]"
    by (simp add: before_def page_end_def entry_of_def)
  show "vm_heap (\<lambda>_. 0) (mset [entry_of 32 2 5, entry_of 100 4 3]) (\<lambda>_. None)"
    by (simp add: heap_counts_def entry_of_def)
qed

theorem NaClVmmapUpdate_refines_witness:
  "case NaClVmmapUpdate ok_env (\<lambda>_. None) small_map 33 1 0 None False of
      Inl e \<Rightarrow> False
    | Inr (h', vm') \<Rightarrow> vm_pages vm' 32 = Some (5, None) \<and> vm_pages vm' 33 = Some (0, None)"
proof -
  have "vm_pages small_map 32 = Some (5, None)"
    by (simp add: vm_pages_def entries_def small_map_def covers_def page_end_def entry_of_def backing_def)
  moreover have "\<not> no_memory ok_env (mset (entries small_map)) (\<lambda>_. 0)"
    by (simp add: no_memory_def ok_env_def entries_def small_map_def refs_def entry_of_def)
  ultimately show ?thesis
    using NaClVmmapUpdate_refines [OF small_map_inv, of ok_env 1 33 False None 0]
    by (simp add: ok_env_def new_page_def split: sum.splits prod.splits)
qed

text \<open>C18: When an update removes the last mapped page, the code does not reach its "No valid
  entries" message: \<open>NaClVmmapRemoveMarked\<close> stores NULL in slot 0 and then reads through it.\<close>

theorem NaClVmmapUpdate_remove_all:
  assumes "vm_inv ext h vm" and "entry_alloc_ok env" and "0 < np" and "unat pn + unat np \<le> 2 ^ 20"
    and "\<forall>p. vm_pages vm p \<noteq> None \<longrightarrow> unat pn \<le> p \<and> p < unat pn + unat np"
    and "nvalid vm \<noteq> 0" and "\<not> no_memory env (mset (entries vm)) ext"
  shows "NaClVmmapUpdate env h vm pn np pr mo True = Inl NullDeref"
proof (rule Update_entries [OF assms(1-4), of pr mo True])
  fix h2 vm3 R
  assume r: "NaClVmmapUpdate env h vm pn np pr mo True = NaClVmmapRemoveMarked h2 vm3" "layout vm3 R"
    "\<forall>x \<in> set R. ent_ok x"
    and pages: "\<And>p x. has_page (set R) p x \<longleftrightarrow>
        (if unat pn \<le> p \<and> p < unat pn + unat np then \<not> True \<and> x = new_page pr mo (unat pn) p
         else vm_pages vm p = Some x)"
    and hp: "vm_heap ext (if True then mset R else mset R - {#last R#}) h2"
    and nil: "R = [] \<Longrightarrow> entries vm = []"
  have none: "\<not> has_page (set R) p x" for p x
    using assms(5) [THEN spec, of p] pages [of p x]
    by (cases "unat pn \<le> p \<and> p < unat pn + unat np") (simp_all only: if_True if_False simp_thms option.distinct)
  have "removed e" if "e \<in> set R" for e
    using none [of "unat (page_num e)" "(prot e, backing e (unat (page_num e)))"] r(3) that npages_pos [of e]
    by (auto simp: has_page_def ent_has_def covers_def)
  moreover have "R \<noteq> []"
  proof
    assume "R = []"
    then have "layout vm []" using nil assms(1) by (simp add: vm_inv_def)
    then show False using assms(6) layout_nvalid by fastforce
  qed
  ultimately show ?thesis
    using RemoveMarked_all [OF r(2)] hp r(1) by simp
qed (use assms(7) in simp)

definition one_map :: NaClVmmap where
  "one_map = \<lparr>vmentry = [Some (entry_of 32 2 5), None], nvalid = 1, vm_size = 2, is_sorted = True\<rparr>"

lemma one_map_inv: "vm_inv (\<lambda>_. 0) (\<lambda>_. None) one_map"
proof (rule vm_invI)
  show "layout one_map [entry_of 32 2 5]" by (simp add: layout_def one_map_def)
  show "good [entry_of 32 2 5]" by (simp add: good_def ent_ok_def page_end_def entry_of_def)
  show "vm_heap (\<lambda>_. 0) (mset [entry_of 32 2 5]) (\<lambda>_. None)" by (simp add: heap_counts_def entry_of_def)
qed simp

theorem NaClVmmapUpdate_remove_all_witness:
  "NaClVmmapUpdate ok_env (\<lambda>_. None) one_map 32 2 0 None True = Inl NullDeref"
proof (rule NaClVmmapUpdate_remove_all [OF one_map_inv])
  show "\<forall>p. vm_pages one_map p \<noteq> None \<longrightarrow> unat (32 :: 32 word) \<le> p \<and> p < unat (32 :: 32 word) + unat (2 :: 32 word)"
    by (auto simp: vm_pages_def entries_def one_map_def covers_def page_end_def entry_of_def)
  show "\<not> no_memory ok_env (mset (entries one_map)) (\<lambda>_. 0)"
    by (simp add: no_memory_def ok_env_def entries_def one_map_def refs_def entry_of_def)
qed (simp_all add: ok_env_def one_map_def)

text \<open>C19: \<open>NaClVmmapFindPage\<close> returns the entry that covers the page, and NULL exactly when no
  entry does; it changes nothing but the order of the entries.\<close>

theorem NaClVmmapFindPage_correct:
  assumes "vm_inv ext h vm"
  shows "\<exists>h' vm' r. NaClVmmapFindPage h vm pnum = Inr (h', vm', r) \<and> vm_inv ext h' vm' \<and>
    mset (entries vm') = mset (entries vm) \<and>
    (case r of None \<Rightarrow> vm_pages vm (unat pnum) = None
     | Some e \<Rightarrow> e \<in> set (entries vm) \<and> covers e (unat pnum) \<and>
                 vm_pages vm (unat pnum) = Some (prot e, backing e (unat pnum)))"
proof -
  obtain es0 where es0: "layout vm es0" "good es0" "entries vm = es0" using assms by (rule vm_invE)
  obtain h1 vm1 es where s: "NaClVmmapMakeSorted h vm = Inr (h1, vm1)" "layout vm1 es" "good es"
    "sorted_wrt before es" "vm_heap ext (mset es) h1" "mset es = mset (entries vm)"
    using MakeSorted_ok [OF assms] .
  have inv1: "vm_inv ext h1 vm1" by (rule vm_invI [OF s(2,3) _ s(5)]) (rule s(4))
  have set: "set es = set (entries vm)" using s(6) by (rule mset_eq_setD)
  obtain r where r: "vmmap_bsearch vm1 pnum = Inr r"
    "case r of None \<Rightarrow> \<forall>e \<in> set es. \<not> covers e (unat pnum)
     | Some i \<Rightarrow> i < length es \<and> covers (es ! i) (unat pnum)"
    using bsearch_whole [OF s(2,4,3)] .
  show ?thesis
  proof (cases r)
    case None
    then have "vm_pages vm (unat pnum) = None"
      using r(2) set by (auto simp: vm_pages_def find_None_iff)
    then show ?thesis
      using s(1,6) r(1) None inv1 layout_entries [OF s(2)] by (simp add: NaClVmmapFindPage_def)
  next
    case (Some i)
    then have i: "i < length es" "covers (es ! i) (unat pnum)" using r(2) by auto
    have "load (vmentry vm1) i = Inr (Some (es ! i))"
      using s(2) i(1) by (auto simp: layout_def load_def nth_append)
    moreover have mem: "es ! i \<in> set (entries vm)" unfolding set [symmetric] using i(1) by simp
    moreover have "vm_pages vm (unat pnum) = Some (prot (es ! i), backing (es ! i) (unat pnum))"
      unfolding vm_pages_has_page [OF es0(2,1)] has_page_def ent_has_def
      using mem i(2) es0(2,3) by (auto simp: good_def)
    ultimately show ?thesis
      using s(1,6) r(1) Some inv1 i(2) layout_entries [OF s(2)] by (simp add: NaClVmmapFindPage_def)
  qed
qed

theorem NaClVmmapFindPage_correct_witness:
  "\<exists>h' vm' r. NaClVmmapFindPage (\<lambda>_. None) small_map 101 = Inr (h', vm', r) \<and> vm_inv (\<lambda>_. 0) h' vm'"
  using NaClVmmapFindPage_correct [OF small_map_inv, of 101] by blast

lemma page_free_pages:
  assumes "page_free (set es) s n" "layout vm es0" "good es0" "mset es = mset es0" "s \<le> p" "p < s + n"
  shows "vm_pages vm p = None"
proof -
  have "set es = set es0" using assms(4) by (rule mset_eq_setD)
  then have "\<not> covers e p" if "e \<in> set es0" for e
    using assms(1,5,6) that by (fastforce simp: page_free_def covers_def)
  then show ?thesis by (auto simp: vm_pages_def layout_entries [OF assms(2)] find_None_iff)
qed

text \<open>C20: \<open>NaClVmmapFindMapSpace\<close>, on a well-formed map and for 1 to \<open>2 ^ 20\<close> pages, always returns. A
  result other than 0 is the first page of a 64 KiB aligned region of \<open>num_pages\<close> unmapped pages; 0
  means that no gap between two neighbouring entries of the sorted map holds an aligned region of
  \<open>num_pages\<close> rounded up to 64 KiB. Space below the first and above the last entry is not searched, so
  0 does not say the address space is full. The map keeps its entries.\<close>

theorem NaClVmmapFindMapSpace_correct:
  assumes "vm_inv ext h vm" and "0 < num_pages" and "unat num_pages \<le> 2 ^ 20"
  shows "\<exists>h' vm' r es. NaClVmmapFindMapSpace h vm num_pages = Inr (h', vm', r) \<and> vm_inv ext h' vm' \<and>
    mset es = mset (entries vm) \<and> sorted_wrt before es \<and>
    (if r \<noteq> 0 then 16 dvd unat r \<and>
       (\<forall>p. unat r \<le> p \<and> p < unat r + unat num_pages \<longrightarrow> vm_pages vm p = None)
     else \<forall>i s. 16 dvd s \<longrightarrow> \<not> in_gap es i s (unat (NaClRoundPageNumUpToMapMultiple num_pages)))"
proof -
  obtain es0 where es0: "layout vm es0" "good es0" "entries vm = es0" using assms(1) by (rule vm_invE)
  obtain h1 vm1 es where s: "NaClVmmapMakeSorted h vm = Inr (h1, vm1)" "layout vm1 es" "good es"
    "sorted_wrt before es" "vm_heap ext (mset es) h1" "mset es = mset (entries vm)"
    using MakeSorted_ok [OF assms(1)] .
  have inv1: "vm_inv ext h1 vm1" by (rule vm_invI [OF s(2,3) _ s(5)]) (rule s(4))
  let ?n = "NaClRoundPageNumUpToMapMultiple num_pages"
  have n0: "0 < unat num_pages" using assms(2) by (simp add: word_less_nat_alt)
  then have n: "0 < ?n" "16 dvd unat ?n" "unat num_pages \<le> unat ?n"
    using round_page_pos(1) [of num_pages] assms(3) round_page_dvd
      round_page_le [of num_pages "unat ?n"] by (auto simp: word_less_nat_alt)
  show ?thesis
  proof (cases "nvalid vm = 0")
    case True
    then have "entries vm = []" by (simp add: entries_def)
    moreover have "vm_inv ext h vm" by fact
    ultimately show ?thesis
      using True by (intro exI [of _ h] exI [of _ vm] exI [of _ 0] exI [of _ "[]"])
        (simp add: NaClVmmapFindMapSpace_def in_gap_def)
  next
    case False
    obtain r where r: "find_map_space_loop (vmentry vm1) ?n (length es) = Inr r"
      "if r \<noteq> 0 then 16 dvd unat r \<and> (\<exists>i. in_gap es i (unat r) (unat ?n))
       else \<forall>i < length es. \<forall>s. 16 dvd s \<longrightarrow> \<not> in_gap es i s (unat ?n)"
      using find_map_space_loop_ok [OF s(2,4,3) order_refl n(1,2)] by auto
    have call: "NaClVmmapFindMapSpace h vm num_pages = Inr (h1, vm1, r)"
      using False s(1) r(1) layout_nvalid [OF s(2)] by (simp add: NaClVmmapFindMapSpace_def)
    have free: "vm_pages vm p = None" if "r \<noteq> 0" "unat r \<le> p" "p < unat r + unat num_pages" for p
    proof -
      have "page_free (set es) (unat r) (unat ?n)" using r(2) that(1) in_gap_free [OF s(4,3)] by auto
      from page_free_pages [OF this es0(1,2) _ that(2)] s(6) es0(3) n(3) that(3) show ?thesis by simp
    qed
    have none: "\<not> in_gap es i s (unat ?n)" if "r = 0" "16 dvd s" for i s
      using r(2) that by (cases "i < length es") (auto simp: in_gap_def)
    show ?thesis
      using call inv1 s(4,6) r(2) free none
      by (intro exI [of _ h1] exI [of _ vm1] exI [of _ r] exI [of _ es]) auto
  qed
qed

theorem NaClVmmapFindMapSpace_correct_witness:
  "\<exists>h' vm' r. NaClVmmapFindMapSpace (\<lambda>_. None) small_map 3 = Inr (h', vm', r) \<and> vm_inv (\<lambda>_. 0) h' vm'"
  using NaClVmmapFindMapSpace_correct [OF small_map_inv, of 3] by auto

text \<open>C21: \<open>NaClVmmapFindMapSpaceAboveHint\<close>, given a hint aligned to the allocation unit, returns 0
  or the first page of an aligned region of unmapped pages at or above the hint.\<close>

theorem NaClVmmapFindMapSpaceAboveHint_sound:
  assumes "vm_inv ext h vm" and "0 < num_pages" and "unat num_pages \<le> 2 ^ 20"
    and "NaClIsAllocPageMultiple uaddr"
  shows "\<exists>h' vm' r. NaClVmmapFindMapSpaceAboveHint h vm uaddr num_pages = Inr (h', vm', r) \<and>
    vm_inv ext h' vm' \<and>
    (r \<noteq> 0 \<longrightarrow> 16 dvd unat r \<and> unat uaddr div 4096 \<le> unat r \<and>
       (\<forall>p. unat r \<le> p \<and> p < unat r + unat num_pages \<longrightarrow> vm_pages vm p = None))"
proof -
  obtain es0 where es0: "layout vm es0" "good es0" "entries vm = es0" using assms(1) by (rule vm_invE)
  obtain h1 vm1 es where s: "NaClVmmapMakeSorted h vm = Inr (h1, vm1)" "layout vm1 es" "good es"
    "sorted_wrt before es" "vm_heap ext (mset es) h1" "mset es = mset (entries vm)"
    using MakeSorted_ok [OF assms(1)] .
  have inv1: "vm_inv ext h1 vm1" by (rule vm_invI [OF s(2,3) _ s(5)]) (rule s(4))
  let ?n = "NaClRoundPageNumUpToMapMultiple num_pages" and ?u = "drop_bit NACL_PAGESHIFT uaddr"
  have n0: "0 < unat num_pages" using assms(2) by (simp add: word_less_nat_alt)
  then have n: "0 < ?n" "16 dvd unat ?n" "unat num_pages \<le> unat ?n"
    using round_page_pos(1) [of num_pages] assms(3) round_page_dvd
      round_page_le [of num_pages "unat ?n"] by (auto simp: word_less_nat_alt)
  have u: "unat ?u = unat uaddr div 4096"
    by (simp add: NACL_PAGESHIFT_def unat_drop_bit_div)
  have "unat uaddr mod 2 ^ 16 = 0"
    using assms(4) unat_and_mask_mod [of uaddr 16]
    by (simp add: NaClIsAllocPageMultiple_def page_consts mask_eq_exp_minus_1 and.commute)
  then obtain k where "unat uaddr = 65536 * k" by (auto simp: mod_eq_0_iff_dvd elim!: dvdE)
  then have al: "16 dvd unat ?u" unfolding u by simp
  obtain r where r: "find_above_loop (vmentry vm1) ?u ?n (length es) 1 = Inr r"
    "r \<noteq> 0 \<longrightarrow> 16 dvd unat r \<and> ?u \<le> r \<and> (\<exists>i. in_gap es i (unat r) (unat ?n))"
    using find_above_loop_ok [OF s(2,4,3) zero_less_one n(1,2) al] by auto
  have call: "NaClVmmapFindMapSpaceAboveHint h vm uaddr num_pages = Inr (h1, vm1, r)"
    using s(1) r(1) layout_nvalid [OF s(2)] by (simp add: NaClVmmapFindMapSpaceAboveHint_def)
  have free: "vm_pages vm p = None" if "r \<noteq> 0" "unat r \<le> p" "p < unat r + unat num_pages" for p
  proof -
    have "page_free (set es) (unat r) (unat ?n)" using r(2) that(1) in_gap_free [OF s(4,3)] by auto
    from page_free_pages [OF this es0(1,2) _ that(2)] s(6) es0(3) n(3) that(3) show ?thesis by simp
  qed
  show ?thesis
    using call inv1 r(2) free u
    by (intro exI [of _ h1] exI [of _ vm1] exI [of _ r]) (auto simp: word_le_nat_alt)
qed

theorem NaClVmmapFindMapSpaceAboveHint_sound_witness:
  "\<exists>h' vm' r. NaClVmmapFindMapSpaceAboveHint (\<lambda>_. None) small_map 0x40000 3 = Inr (h', vm', r) \<and>
     vm_inv (\<lambda>_. 0) h' vm'"
  using NaClVmmapFindMapSpaceAboveHint_sound [OF small_map_inv, of 3 "0x40000"]
  by (auto simp: NaClIsAllocPageMultiple_def page_consts)

end
