(* ===== verification/App_State.thy ===== *)
theory App_State
  imports Vmmap
begin

text \<open>
  The part of \<open>struct NaClApp\<close> (\<open>service_runtime/sel_ldr.h\<close>) that the loader and the dynamic
  code calls work on, the memory of the process, and the address translation routines of
  \<open>service_runtime/sel_ldr-inl.h\<close> that guard every access to untrusted memory.

  Memory is a total function from system addresses to bytes; the calls that change mappings or
  protections on the host are recorded in a trace, newest first.
\<close>

section \<open>Constants of \<open>nacl_config.h\<close>\<close>

definition NACL_MAX_ADDR_BITS :: u8 where "NACL_MAX_ADDR_BITS = 30"
definition NACL_SYSCALL_START_ADDR :: u32 where "NACL_SYSCALL_START_ADDR = push_bit NACL_PAGESHIFT 16"
definition NACL_TRAMPOLINE_START :: u32 where "NACL_TRAMPOLINE_START = push_bit 16 1"
definition NACL_TRAMPOLINE_SIZE :: u32 where "NACL_TRAMPOLINE_SIZE = push_bit 16 1"
definition NACL_TRAMPOLINE_END :: u32 where
  "NACL_TRAMPOLINE_END = NACL_TRAMPOLINE_START + NACL_TRAMPOLINE_SIZE"
definition NACL_HALT_SLED_SIZE :: u32 where "NACL_HALT_SLED_SIZE = 32"
definition NACL_HALT_OPCODE :: u8 where "NACL_HALT_OPCODE = 0xF4"
definition NACL_HALT_LEN :: size_t where "NACL_HALT_LEN = 1"

definition PROT_NONE :: int where "PROT_NONE = 0"
definition PROT_READ :: int where "PROT_READ = 1"
definition PROT_WRITE :: int where "PROT_WRITE = 2"
definition PROT_EXEC :: int where "PROT_EXEC = 4"

lemma config_values [simp]:
  "NACL_SYSCALL_START_ADDR = 0x10000" "NACL_TRAMPOLINE_START = 0x10000"
  "NACL_TRAMPOLINE_SIZE = 0x10000" "NACL_TRAMPOLINE_END = 0x20000"
  by (simp_all add: NACL_SYSCALL_START_ADDR_def NACL_PAGESHIFT_def NACL_TRAMPOLINE_START_def
      NACL_TRAMPOLINE_SIZE_def NACL_TRAMPOLINE_END_def)

section \<open>The application\<close>

type_synonym memory = "uintptr_t \<Rightarrow> u8"

datatype host_call =
    HostProtect uintptr_t size_t int
  | HostAdvise uintptr_t size_t
  | HostMap uintptr_t size_t int u32
  | HostUnmap uintptr_t size_t

record NaClDynamicRegion =
  dr_start :: uintptr_t
  dr_size :: size_t
  delete_generation :: int

record NaClApp =
  addr_bits :: u8
  stack_size :: size_t
  mem_start :: uintptr_t
  static_text_end :: uintptr_t
  dynamic_text_start :: uintptr_t
  dynamic_text_end :: uintptr_t
  rodata_start :: uintptr_t
  data_start :: uintptr_t
  data_end :: uintptr_t
  break_addr :: uintptr_t
  entry_pt :: uintptr_t
  bundle_size :: u32
  mem_map :: NaClVmmap
  use_shm_for_dynamic_text :: bool
  text_shm :: "nat option"
  dynamic_regions :: "NaClDynamicRegion list"
  dynamic_regions_allocated :: int
  dynamic_mapcache_offset :: u32
  dynamic_mapcache_size :: u32
  dynamic_mapcache_ret :: uintptr_t
  dynamic_delete_generation :: int
  ignore_validator_result :: bool
  validator_stub_out_mode :: bool
  allow_dyncode_replacement :: bool
  app_mem :: memory
  app_refs :: desc_heap
  host_trace :: "host_call list"

text \<open>\<open>(uintptr_t) 1U << nap->addr_bits\<close>, one past the last user address.\<close>

definition addr_limit :: "NaClApp \<Rightarrow> uintptr_t" where
  "addr_limit nap = push_bit (unat (addr_bits nap)) 1"

section \<open>Address translation\<close>

definition kNaClBadAddress :: uintptr_t where "kNaClBadAddress = - 1"

definition NaClUserToSysAddrNullOkay :: "NaClApp \<Rightarrow> uintptr_t \<Rightarrow> uintptr_t" where
  "NaClUserToSysAddrNullOkay nap uaddr =
     (if addr_limit nap \<le> uaddr then kNaClBadAddress else uaddr + mem_start nap)"

definition NaClUserToSysAddr :: "NaClApp \<Rightarrow> uintptr_t \<Rightarrow> uintptr_t" where
  "NaClUserToSysAddr nap uaddr =
     (if 0 = uaddr \<or> addr_limit nap \<le> uaddr then kNaClBadAddress else uaddr + mem_start nap)"

definition NaClIsUserAddr :: "NaClApp \<Rightarrow> uintptr_t \<Rightarrow> bool" where
  "NaClIsUserAddr nap sysaddr \<longleftrightarrow>
     mem_start nap \<le> sysaddr \<and> sysaddr < mem_start nap + addr_limit nap"

definition NaClUserToSysAddrRange :: "NaClApp \<Rightarrow> uintptr_t \<Rightarrow> size_t \<Rightarrow> uintptr_t" where
  "NaClUserToSysAddrRange nap uaddr cnt =
     (if 0 = uaddr then kNaClBadAddress
      else let end_addr = uaddr + cnt in
        if end_addr < uaddr then kNaClBadAddress
        else if addr_limit nap \<le> end_addr then kNaClBadAddress
        else uaddr + mem_start nap)"

definition NaClUserToSys :: "NaClApp \<Rightarrow> uintptr_t \<Rightarrow> uintptr_t res" where
  "NaClUserToSys nap uaddr =
     (if 0 = uaddr \<or> addr_limit nap \<le> uaddr then Inl LogFatal else Inr (uaddr + mem_start nap))"

definition NaClSysToUser :: "NaClApp \<Rightarrow> uintptr_t \<Rightarrow> uintptr_t res" where
  "NaClSysToUser nap sysaddr =
     (if sysaddr < mem_start nap \<or> mem_start nap + addr_limit nap \<le> sysaddr then Inl LogFatal
      else Inr (sysaddr - mem_start nap))"

definition NaClEndOfStaticText :: "NaClApp \<Rightarrow> uintptr_t" where
  "NaClEndOfStaticText nap = static_text_end nap"

definition NaClSandboxCodeAddr :: "NaClApp \<Rightarrow> uintptr_t \<Rightarrow> uintptr_t" where
  "NaClSandboxCodeAddr nap addr = addr AND NOT (bundle_size nap - 1)"

section \<open>Memory accesses\<close>

text \<open>\<open>memcpy\<close> of a block to, and of \<open>n\<close> bytes from, an address.\<close>

definition mem_write :: "memory \<Rightarrow> uintptr_t \<Rightarrow> u8 list \<Rightarrow> memory" where
  "mem_write m a bs = (\<lambda>x. if unat (x - a) < length bs then bs ! unat (x - a) else m x)"

definition mem_read :: "memory \<Rightarrow> uintptr_t \<Rightarrow> nat \<Rightarrow> u8 list" where
  "mem_read m a n = map (\<lambda>k. m (a + of_nat k)) [0..<n]"

lemma mem_write_code [code]:
  "mem_write m a bs = (\<lambda>x. let d = uint (x - a) in if d < int (length bs) then bs ! nat d else m x)"
  by (rule ext) (simp add: mem_write_def Let_def flip: nat_less_iff)

lemma mem_write_outside: "length bs \<le> unat (x - a) \<Longrightarrow> mem_write m a bs x = m x"
  by (simp add: mem_write_def)

lemma length_mem_read [simp]: "length (mem_read m a n) = n"
  by (simp add: mem_read_def)

lemma mem_read_write_same:
  assumes "length bs \<le> 2 ^ 32"
  shows "mem_read (mem_write m a bs) a (length bs) = bs"
proof (rule nth_equalityI)
  fix k assume k: "k < length (mem_read (mem_write m a bs) a (length bs))"
  then have "unat (of_nat k :: uintptr_t) = k"
    using assms by (simp only: unat_of_nat) simp
  then show "mem_read (mem_write m a bs) a (length bs) ! k = bs ! k"
    using k by (simp add: mem_read_def mem_write_def)
qed simp

section \<open>What the translation guarantees\<close>

text \<open>The address space is a block of the process that does not wrap around.\<close>

definition app_space :: "NaClApp \<Rightarrow> bool" where
  "app_space nap \<longleftrightarrow> unat (addr_bits nap) \<le> 30 \<and> unat (mem_start nap) + 2 ^ unat (addr_bits nap) < 2 ^ 32"

lemma addr_limit_eq:
  assumes "unat (addr_bits nap) \<le> 30"
  shows "addr_limit nap = 2 ^ unat (addr_bits nap)" "unat (addr_limit nap) = 2 ^ unat (addr_bits nap)"
    "2 ^ unat (addr_bits nap) \<le> (2 :: nat) ^ 30"
proof -
  show eq: "addr_limit nap = 2 ^ unat (addr_bits nap)"
    by (simp add: addr_limit_def push_bit_eq_mult)
  show "unat (addr_limit nap) = 2 ^ unat (addr_bits nap)"
    unfolding eq using assms by (intro unat_pow2_size_t) simp
  show "2 ^ unat (addr_bits nap) \<le> (2 :: nat) ^ 30"
    using assms by (intro power_increasing) simp_all
qed

lemma UserToSysAddrRange_cases:
  assumes "app_space nap" "NaClUserToSysAddrRange nap uaddr cnt \<noteq> kNaClBadAddress"
  shows "uaddr \<noteq> 0" "unat uaddr + unat cnt < 2 ^ unat (addr_bits nap)"
    "NaClUserToSysAddrRange nap uaddr cnt = uaddr + mem_start nap"
    "unat (uaddr + mem_start nap) = unat uaddr + unat (mem_start nap)"
    "unat (uaddr + cnt) = unat uaddr + unat cnt"
proof -
  note lim = addr_limit_eq [of nap]
  have bits: "unat (addr_bits nap) \<le> 30" using assms(1) by (simp add: app_space_def)
  have c: "uaddr \<noteq> 0" "\<not> uaddr + cnt < uaddr" "\<not> addr_limit nap \<le> uaddr + cnt"
    using assms(2) by (auto simp: NaClUserToSysAddrRange_def Let_def split: if_splits)
  then show "uaddr \<noteq> 0" "NaClUserToSysAddrRange nap uaddr cnt = uaddr + mem_start nap"
    by (simp_all add: NaClUserToSysAddrRange_def Let_def)
  have nowrap: "unat (uaddr + cnt) = unat uaddr + unat cnt"
  proof (rule ccontr)
    assume "unat (uaddr + cnt) \<noteq> unat uaddr + unat cnt"
    then have "\<not> unat uaddr + unat cnt < 2 ^ 32" using unat_add_no_wrap [of uaddr cnt] by auto
    then have "unat (uaddr + cnt) = unat uaddr + unat cnt - 2 ^ 32"
      using unat_lt_size_t [of uaddr] unat_lt_size_t [of cnt]
      by (simp add: unat_word_ariths mod_if)
    moreover have "unat uaddr + unat cnt - 2 ^ 32 < unat uaddr"
      using \<open>\<not> unat uaddr + unat cnt < 2 ^ 32\<close> unat_lt_size_t [of uaddr] unat_lt_size_t [of cnt] by simp
    ultimately show False using c(2) by (simp only: word_less_nat_alt simp_thms)
  qed
  then show "unat (uaddr + cnt) = unat uaddr + unat cnt" .
  then show lt: "unat uaddr + unat cnt < 2 ^ unat (addr_bits nap)"
    using c(3) lim(2) [OF bits] by (simp add: word_le_nat_alt)
  show "unat (uaddr + mem_start nap) = unat uaddr + unat (mem_start nap)"
    using assms(1) lt by (intro unat_add_no_wrap) (simp add: app_space_def)
qed

text \<open>C24: When \<open>NaClUserToSysAddrRange\<close> accepts a range, every byte of it, and the byte after it,
  lies in the application's own address space; the translation neither wraps nor returns the
  error value for an accepted range.\<close>

theorem NaClUserToSysAddrRange_sandbox:
  assumes "app_space nap" and "NaClUserToSysAddrRange nap uaddr cnt \<noteq> kNaClBadAddress"
    and "k \<le> unat cnt"
  shows "unat (NaClUserToSysAddrRange nap uaddr cnt + of_nat k) = unat (mem_start nap) + unat uaddr + k \<and>
         NaClIsUserAddr nap (NaClUserToSysAddrRange nap uaddr cnt + of_nat k)"
proof -
  note r = UserToSysAddrRange_cases [OF assms(1,2)]
  have bits: "unat (addr_bits nap) \<le> 30" and top: "unat (mem_start nap) + 2 ^ unat (addr_bits nap) < 2 ^ 32"
    using assms(1) by (simp_all add: app_space_def)
  have k: "unat (of_nat k :: uintptr_t) = k"
    using assms(3) unat_lt_size_t [of cnt] by (simp only: unat_of_nat) simp
  have u: "unat (uaddr + mem_start nap + of_nat k) = unat uaddr + unat (mem_start nap) + k"
    using unat_add_no_wrap [of "uaddr + mem_start nap" "of_nat k"] r(2,4) k assms(3) top by simp
  have "unat (mem_start nap + addr_limit nap) = unat (mem_start nap) + 2 ^ unat (addr_bits nap)"
    using unat_add_no_wrap [of "mem_start nap" "addr_limit nap"] top addr_limit_eq(2) [OF bits] by simp
  then have "NaClIsUserAddr nap (uaddr + mem_start nap + of_nat k)"
    using u r(2) assms(3) by (simp add: NaClIsUserAddr_def nat_of_word)
  then show ?thesis using u r(3) by simp
qed

definition sample_app :: NaClApp where
  "sample_app = \<lparr>addr_bits = 28, stack_size = 0x100000, mem_start = 0x40000000, static_text_end = 0x30000,
     dynamic_text_start = 0, dynamic_text_end = 0, rodata_start = 0x100000, data_start = 0x200000,
     data_end = 0x210000, break_addr = 0x210000, entry_pt = 0x20000, bundle_size = 32,
     mem_map = \<lparr>vmentry = replicate 5 None, nvalid = 0, vm_size = 5, is_sorted = True\<rparr>,
     use_shm_for_dynamic_text = True, text_shm = None, dynamic_regions = [], dynamic_regions_allocated = 0,
     dynamic_mapcache_offset = 0, dynamic_mapcache_size = 0, dynamic_mapcache_ret = 0,
     dynamic_delete_generation = 0, ignore_validator_result = False, validator_stub_out_mode = False,
     allow_dyncode_replacement = True, app_mem = (\<lambda>_. 0), app_refs = (\<lambda>_. None), host_trace = []\<rparr>"

lemma sample_app_space: "app_space sample_app"
  by (simp add: app_space_def sample_app_def)

theorem NaClUserToSysAddrRange_sandbox_witness:
  "unat (NaClUserToSysAddrRange sample_app 0x20000 64 + of_nat 64) = 0x40000000 + 0x20000 + 64"
proof -
  have "NaClUserToSysAddrRange sample_app 0x20000 64 \<noteq> kNaClBadAddress"
    by (simp add: NaClUserToSysAddrRange_def addr_limit_def sample_app_def kNaClBadAddress_def)
  from NaClUserToSysAddrRange_sandbox [OF sample_app_space this, of 64]
  show ?thesis by (simp add: sample_app_def)
qed

text \<open>C25: \<open>NaClUserToSys\<close> and \<open>NaClSysToUser\<close> are inverse to each other and neither aborts: for every
  non-NULL user address \<open>u\<close> below \<open>2 ^ addr_bits\<close> translating to the system address and back gives \<open>u\<close>,
  and for every system address of the application but the first, to which the NULL user address would
  belong, translating to the user address and back gives it again.\<close>

theorem NaClUserToSys_roundtrip:
  assumes "app_space nap"
  shows "(\<forall>u. u \<noteq> 0 \<and> unat u < 2 ^ unat (addr_bits nap) \<longrightarrow>
            bind_res (NaClUserToSys nap u) (NaClSysToUser nap) = Inr u) \<and>
         (\<forall>s. NaClIsUserAddr nap s \<and> s \<noteq> mem_start nap \<longrightarrow>
            bind_res (NaClSysToUser nap s) (NaClUserToSys nap) = Inr s)"
proof -
  have bits: "unat (addr_bits nap) \<le> 30" and top: "unat (mem_start nap) + 2 ^ unat (addr_bits nap) < 2 ^ 32"
    using assms by (simp_all add: app_space_def)
  note lim = addr_limit_eq(2) [OF bits]
  have endp: "unat (mem_start nap + addr_limit nap) = unat (mem_start nap) + 2 ^ unat (addr_bits nap)"
    using unat_add_no_wrap [of "mem_start nap" "addr_limit nap"] top lim by simp
  have "bind_res (NaClUserToSys nap u) (NaClSysToUser nap) = Inr u"
    if "u \<noteq> 0" and u: "unat u < 2 ^ unat (addr_bits nap)" for u
  proof -
    have "unat (u + mem_start nap) = unat u + unat (mem_start nap)"
      using unat_add_no_wrap [of u "mem_start nap"] u top by simp
    then show ?thesis using that lim endp by (simp add: NaClUserToSys_def NaClSysToUser_def nat_of_word)
  qed
  moreover have "bind_res (NaClSysToUser nap s) (NaClUserToSys nap) = Inr s"
    if s: "NaClIsUserAddr nap s" and ne: "s \<noteq> mem_start nap" for s
  proof -
    have "mem_start nap \<le> s" and le: "unat (mem_start nap) \<le> unat s" "unat s < unat (mem_start nap) + 2 ^ unat (addr_bits nap)"
      using s endp by (simp_all add: NaClIsUserAddr_def word_le_nat_alt word_less_nat_alt)
    then have "unat (s - mem_start nap) = unat s - unat (mem_start nap)" by (simp add: unat_sub_le)
    then have "\<not> addr_limit nap \<le> s - mem_start nap" and "s - mem_start nap \<noteq> 0"
      using le lim ne by (simp_all add: word_le_nat_alt)
    moreover have "\<not> (s < mem_start nap \<or> mem_start nap + addr_limit nap \<le> s)"
      using le endp by (simp add: word_le_nat_alt word_less_nat_alt)
    ultimately show ?thesis by (simp add: NaClUserToSys_def NaClSysToUser_def)
  qed
  ultimately show ?thesis by blast
qed

theorem NaClUserToSys_roundtrip_witness:
  "bind_res (NaClUserToSys sample_app 0x20000) (NaClSysToUser sample_app) = Inr 0x20000 \<and>
   bind_res (NaClSysToUser sample_app 0x40020000) (NaClUserToSys sample_app) = Inr 0x40020000"
proof -
  have "NaClIsUserAddr sample_app 0x40020000" "0x40020000 \<noteq> mem_start sample_app"
    by (simp_all add: NaClIsUserAddr_def addr_limit_def sample_app_def)
  moreover have "unat (0x20000 :: uintptr_t) < 2 ^ unat (addr_bits sample_app)" by (simp add: sample_app_def)
  ultimately show ?thesis
    using NaClUserToSys_roundtrip [OF sample_app_space] by simp
qed

end
