(* ===== verification/Gio_Mem.thy ===== *)
theory Gio_Mem
  imports Nacl_Prelude
begin

text \<open>
  Generic I/O: the virtual table of \<open>shared/gio/gio.h\<close> as far as the loader uses it, the
  memory file of \<open>shared/gio/gio_mem.c\<close>, and the contract between them as the locale
  \<open>gio_file\<close>. \<open>off_t\<close> is 32 bits wide on the target, so the casts between \<open>off_t\<close> and \<open>size_t\<close>
  keep the bits, and \<open>(off_t) -1\<close> is the word \<open>-1\<close>.
\<close>

type_synonym off_t = "32 word"

definition SEEK_SET :: int where "SEEK_SET = 0"
definition SEEK_CUR :: int where "SEEK_CUR = 1"
definition SEEK_END :: int where "SEEK_END = 2"

text \<open>
  \<open>Read\<close> returns the object, the bytes it stored in the buffer and the return value;
  \<open>Seek\<close> the object and the new position or -1.
\<close>

record 'g GioVtbl =
  Read :: "'g \<Rightarrow> size_t \<Rightarrow> 'g \<times> u8 list \<times> 32 word"
  Seek :: "'g \<Rightarrow> off_t \<Rightarrow> int \<Rightarrow> 'g \<times> off_t"

section \<open>The memory file\<close>

record GioMemoryFile =
  buffer :: "u8 list"
  len :: size_t
  curpos :: size_t

definition GioMemoryFileCtor :: "u8 list \<Rightarrow> size_t \<Rightarrow> GioMemoryFile" where
  "GioMemoryFileCtor buf n = \<lparr>buffer = buf, len = n, curpos = 0\<rparr>"

definition GioMemoryFileRead :: "GioMemoryFile \<Rightarrow> size_t \<Rightarrow> GioMemoryFile \<times> u8 list \<times> 32 word" where
  "GioMemoryFileRead self cnt =
     (let remain = len self - curpos self;
          cnt1 = (if cnt > remain then remain else cnt) in
      if 0 = cnt1 then (self, [], 0)
      else let newpos = curpos self + cnt1 in
        (self\<lparr>curpos := newpos\<rparr>, take (unat cnt1) (drop (unat (curpos self)) (buffer self)), cnt1))"

definition GioMemoryFileWrite :: "GioMemoryFile \<Rightarrow> u8 list \<Rightarrow> size_t \<Rightarrow> GioMemoryFile \<times> 32 word" where
  "GioMemoryFileWrite self buf cnt =
     (let remain = len self - curpos self;
          cnt1 = (if cnt > remain then remain else cnt) in
      if 0 = cnt1 then (self, 0)
      else let newpos = curpos self + cnt1 in
        (self\<lparr>buffer := take (unat (curpos self)) (buffer self) @ take (unat cnt1) buf
                         @ drop (unat (curpos self) + unat cnt1) (buffer self),
              curpos := newpos\<rparr>, cnt1))"

definition GioMemoryFileSeek :: "GioMemoryFile \<Rightarrow> off_t \<Rightarrow> int \<Rightarrow> GioMemoryFile \<times> off_t" where
  "GioMemoryFileSeek self off whence =
     (let new_pos = (if whence = SEEK_SET then off
                     else if whence = SEEK_CUR then curpos self + off
                     else if whence = SEEK_END then len self + off
                     else - 1) in
      if new_pos > len self then (self, - 1)
      else (self\<lparr>curpos := new_pos\<rparr>, new_pos))"

definition GioMemoryFileClose :: "GioMemoryFile \<Rightarrow> int" where "GioMemoryFileClose self = 0"
definition GioMemoryFileFlush :: "GioMemoryFile \<Rightarrow> int" where "GioMemoryFileFlush self = 0"

definition kGioMemoryFileVtbl :: "GioMemoryFile GioVtbl" where
  "kGioMemoryFileVtbl = \<lparr>Read = GioMemoryFileRead, Seek = GioMemoryFileSeek\<rparr>"

definition gm_inv :: "GioMemoryFile \<Rightarrow> bool" where
  "gm_inv self \<longleftrightarrow> length (buffer self) = unat (len self) \<and> curpos self \<le> len self"

section \<open>The contract a reader of a file relies on\<close>

locale gio_file =
  fixes vt :: "'g GioVtbl" and inv :: "'g \<Rightarrow> bool" and contents :: "'g \<Rightarrow> u8 list" and pos :: "'g \<Rightarrow> nat"
  assumes seek_set: "inv g \<Longrightarrow> Seek vt g off SEEK_SET = (g', r) \<Longrightarrow>
      inv g' \<and> contents g' = contents g \<and> (r = - 1 \<or> pos g' = unat off)"
    and read_bytes: "inv g \<Longrightarrow> Read vt g n = (g', bs, r) \<Longrightarrow>
      inv g' \<and> contents g' = contents g \<and> length bs \<le> unat n \<and> (r = n \<longrightarrow> bs = take (unat n) (drop (pos g) (contents g)) \<and>
      length bs = unat n)"
begin

lemma seek_then_read:
  assumes "inv g" "Seek vt g off SEEK_SET = (g1, r1)" "r1 \<noteq> - 1" "Read vt g1 n = (g2, bs, r2)" "r2 = n"
  shows "bs = take (unat n) (drop (unat off) (contents g)) \<and> length bs = unat n \<and> inv g2 \<and>
    contents g2 = contents g"
  using seek_set [OF assms(1,2)] read_bytes [OF _ assms(4)] assms(3,5) by auto

end

section \<open>The memory file honours it\<close>

lemma mem_read_facts:
  assumes "gm_inv self"
  shows "unat (len self - curpos self) = unat (len self) - unat (curpos self)"
    "unat (curpos self) \<le> unat (len self)"
  using assms by (auto simp: gm_inv_def unat_sub_le word_le_nat_alt)

lemma min_remain:
  assumes "gm_inv self" "cnt1 = (if cnt > len self - curpos self then len self - curpos self else cnt)"
  shows "unat cnt1 = min (unat cnt) (unat (len self) - unat (curpos self))"
    "unat (curpos self + cnt1) = unat (curpos self) + unat cnt1"
proof -
  show m: "unat cnt1 = min (unat cnt) (unat (len self) - unat (curpos self))"
    using mem_read_facts [OF assms(1)] assms(2) by (auto simp: word_less_nat_alt)
  show "unat (curpos self + cnt1) = unat (curpos self) + unat cnt1"
    using m mem_read_facts(2) [OF assms(1)] unat_lt_size_t [of "len self"]
    by (intro unat_add_no_wrap) (simp add: min_def split: if_splits)
qed

lemma GioMemoryFileRead_spec:
  assumes "gm_inv self"
  shows "GioMemoryFileRead self cnt =
    (let n = min (unat cnt) (unat (len self) - unat (curpos self)) in
     (self\<lparr>curpos := curpos self + of_nat n\<rparr>, take n (drop (unat (curpos self)) (buffer self)), of_nat n))"
proof -
  define c where "c = (if cnt > len self - curpos self then len self - curpos self else cnt)"
  note m = min_remain [OF assms c_def]
  have "of_nat (min (unat cnt) (unat (len self) - unat (curpos self))) = c"
    by (simp flip: m(1))
  then show ?thesis
    using m(1) by (auto simp: GioMemoryFileRead_def Let_def simp flip: c_def)
qed

lemma gm_inv_Read:
  assumes "gm_inv self" "GioMemoryFileRead self cnt = (self', bs, r)"
  shows "gm_inv self'" "buffer self' = buffer self"
proof -
  define c where "c = (if cnt > len self - curpos self then len self - curpos self else cnt)"
  note m = min_remain [OF assms(1) c_def]
  have "self' = self\<lparr>curpos := curpos self + c\<rparr>"
    using assms(2) by (auto simp: GioMemoryFileRead_def Let_def simp flip: c_def split: if_splits)
  then show "gm_inv self'" "buffer self' = buffer self"
    using assms(1) m mem_read_facts(2) [OF assms(1)] by (auto simp: gm_inv_def word_le_nat_alt)
qed

lemma gm_read_bytes:
  assumes "gm_inv self" "GioMemoryFileRead self cnt = (self', bs, r)" "r = cnt"
  shows "bs = take (unat cnt) (drop (unat (curpos self)) (buffer self)) \<and> length bs = unat cnt"
proof -
  let ?n = "min (unat cnt) (unat (len self) - unat (curpos self))"
  have "unat (of_nat ?n :: size_t) = ?n"
    using unat_lt_size_t [of cnt] by (simp only: unat_of_nat) simp
  moreover have "bs = take ?n (drop (unat (curpos self)) (buffer self))" "r = of_nat ?n"
    using assms(2) by (auto simp: GioMemoryFileRead_spec [OF assms(1)] Let_def)
  ultimately have "?n = unat cnt" "bs = take ?n (drop (unat (curpos self)) (buffer self))"
    using assms(3) by auto
  then show ?thesis using assms(1) by (simp add: gm_inv_def)
qed

lemma gm_read_length:
  assumes "gm_inv self" "GioMemoryFileRead self cnt = (self', bs, r)"
  shows "length bs \<le> unat cnt"
  using assms by (auto simp: GioMemoryFileRead_spec Let_def)

interpretation gm: gio_file kGioMemoryFileVtbl gm_inv buffer "\<lambda>g. unat (curpos g)"
proof unfold_locales
  fix g off g' r
  assume "gm_inv g" "Seek kGioMemoryFileVtbl g off SEEK_SET = (g', r)"
  then show "gm_inv g' \<and> buffer g' = buffer g \<and> (r = - 1 \<or> unat (curpos g') = unat off)"
    by (auto simp: kGioMemoryFileVtbl_def GioMemoryFileSeek_def Let_def gm_inv_def split: if_splits)
next
  fix g n g' bs r
  assume a: "gm_inv g" "Read kGioMemoryFileVtbl g n = (g', bs, r)"
  then have "GioMemoryFileRead g n = (g', bs, r)" by (simp add: kGioMemoryFileVtbl_def)
  with a(1) gm_inv_Read gm_read_bytes gm_read_length
  show "gm_inv g' \<and> buffer g' = buffer g \<and> length bs \<le> unat n \<and> (r = n \<longrightarrow>
      bs = take (unat n) (drop (unat (curpos g)) (buffer g)) \<and> length bs = unat n)"
    by blast
qed

section \<open>Properties\<close>

text \<open>C26: Every operation of a memory file keeps the position inside the buffer: a read returns the
  bytes between the old and the new position, a write changes only those bytes, and a seek
  either fails and changes nothing or moves to a position inside the buffer.\<close>

theorem gio_memory_file_bounds:
  assumes "gm_inv self" and "unat cnt \<le> length bs"
  shows "(let (self', out, r) = GioMemoryFileRead self cnt in
            gm_inv self' \<and> buffer self' = buffer self \<and> length out = unat r \<and> r \<le> cnt \<and>
            unat (curpos self') = unat (curpos self) + unat r \<and>
            out = take (unat r) (drop (unat (curpos self)) (buffer self))) \<and>
         (let (self', r) = GioMemoryFileWrite self bs cnt in
            gm_inv self' \<and> unat (curpos self') = unat (curpos self) + unat r \<and>
            buffer self' = take (unat (curpos self)) (buffer self) @ take (unat r) bs
                             @ drop (unat (curpos self')) (buffer self)) \<and>
         (let (self', r) = GioMemoryFileSeek self off whence in
            gm_inv self' \<and> buffer self' = buffer self \<and> (self' = self \<and> r = - 1 \<or> curpos self' = r))"
proof -
  define c where "c = (if cnt > len self - curpos self then len self - curpos self else cnt)"
  note m = min_remain [OF assms(1) c_def] and b = mem_read_facts [OF assms(1)]
  have lb: "length (buffer self) = unat (len self)" using assms(1) by (simp add: gm_inv_def)
  have rd: "let (self', out, r) = GioMemoryFileRead self cnt in
            gm_inv self' \<and> buffer self' = buffer self \<and> length out = unat r \<and> r \<le> cnt \<and>
            unat (curpos self') = unat (curpos self) + unat r \<and>
            out = take (unat r) (drop (unat (curpos self)) (buffer self))"
    using m b lb assms(1)
    by (auto simp: GioMemoryFileRead_def Let_def gm_inv_def word_le_nat_alt simp flip: c_def)
  moreover have "let (self', r) = GioMemoryFileWrite self bs cnt in
            gm_inv self' \<and> unat (curpos self') = unat (curpos self) + unat r \<and>
            buffer self' = take (unat (curpos self)) (buffer self) @ take (unat r) bs
                             @ drop (unat (curpos self')) (buffer self)"
    using m b lb assms
    by (auto simp: GioMemoryFileWrite_def Let_def gm_inv_def word_le_nat_alt simp flip: c_def)
  moreover have "let (self', r) = GioMemoryFileSeek self off whence in
            gm_inv self' \<and> buffer self' = buffer self \<and> (self' = self \<and> r = - 1 \<or> curpos self' = r)"
    using assms(1) by (auto simp: GioMemoryFileSeek_def Let_def gm_inv_def)
  ultimately show ?thesis by blast
qed

theorem gio_memory_file_bounds_witness:
  "gm_inv (GioMemoryFileCtor [1, 2, 3] 3) \<and>
   (let (self', out, r) = GioMemoryFileRead (GioMemoryFileCtor [1, 2, 3] 3) 2 in gm_inv self' \<and> length out = unat r)"
proof -
  have inv: "gm_inv (GioMemoryFileCtor [1, 2, 3] 3)"
    by (simp add: gm_inv_def GioMemoryFileCtor_def)
  then show ?thesis
    using gio_memory_file_bounds [OF inv, of 2 "[0, 0]" 0 0] by (auto simp: Let_def)
qed

end
