(* ===== verification/Elf_Util.thy ===== *)
theory Elf_Util
  imports App_State Gio_Mem
begin

text \<open>
  The ELF reader of the loader, \<open>service_runtime/elf_util.c\<close>, for 32-bit x86 images: reading the
  header and program headers from a generic I/O object, the checks on them, and loading the
  segments into the application's memory. The routines that only print are left out.
\<close>

section \<open>Data\<close>

datatype NaClErrorCode =
    LOAD_OK | LOAD_STATUS_UNKNOWN | LOAD_UNSUPPORTED_OS_PLATFORM | LOAD_DEP_UNSUPPORTED | LOAD_INTERNAL
  | LOAD_DUP_LOAD_MODULE | LOAD_DUP_START_MODULE | LOAD_OPEN_ERROR | LOAD_READ_ERROR
  | LOAD_TOO_MANY_PROG_HDRS | LOAD_PROG_HDR_SIZE_TOO_SMALL | LOAD_BAD_ELF_MAGIC | LOAD_NOT_32_BIT
  | LOAD_NOT_64_BIT | LOAD_BAD_ABI | LOAD_NOT_EXEC | LOAD_BAD_MACHINE | LOAD_BAD_ELF_VERS
  | LOAD_TOO_MANY_SECT | LOAD_BAD_SECT | LOAD_NO_MEMORY | LOAD_SECT_HDR | LOAD_ADDR_SPACE_TOO_SMALL
  | LOAD_ADDR_SPACE_TOO_BIG | LOAD_DATA_OVERLAPS_STACK_SECTION | LOAD_RODATA_OVERLAPS_DATA
  | LOAD_DATA_NOT_LAST_SEGMENT | LOAD_NO_DATA_BUT_RODATA_NOT_LAST_SEGMENT | LOAD_TEXT_OVERLAPS_RODATA
  | LOAD_TEXT_OVERLAPS_DATA | LOAD_BAD_RODATA_ALIGNMENT | LOAD_BAD_DATA_ALIGNMENT | LOAD_UNLOADABLE
  | LOAD_BAD_ELF_TEXT | LOAD_TEXT_SEG_TOO_BIG | LOAD_DATA_SEG_TOO_BIG | LOAD_MPROTECT_FAIL
  | LOAD_MADVISE_FAIL | LOAD_TOO_MANY_SYMBOL_STR | LOAD_SYMTAB_ENTRY_TOO_SMALL | LOAD_NO_SYMTAB
  | LOAD_NO_SYMTAB_STRINGS | LOAD_SYMTAB_ENTRY | LOAD_UNKNOWN_SYMBOL_TYPE | LOAD_SYMTAB_DUP
  | LOAD_REL_ERROR | LOAD_REL_UNIMPL | LOAD_UNDEF_SYMBOL | LOAD_BAD_SYMBOL_DATA | LOAD_BAD_FILE
  | LOAD_BAD_ENTRY | LOAD_SEGMENT_OUTSIDE_ADDRSPACE | LOAD_DUP_SEGMENT | LOAD_SEGMENT_BAD_LOC
  | LOAD_BAD_SEGMENT | LOAD_REQUIRED_SEG_MISSING | LOAD_SEGMENT_BAD_PARAM | LOAD_VALIDATION_FAILED
  | LOAD_UNIMPLEMENTED | SRT_NO_SEG_SEL

record Elf_Ehdr =
  e_ident :: "u8 list"
  e_type :: u16
  e_machine :: u16
  e_version :: u32
  e_entry :: u32
  e_phoff :: u32
  e_shoff :: u32
  e_flags :: u32
  e_ehsize :: u16
  e_phentsize :: u16
  e_phnum :: u16
  e_shentsize :: u16
  e_shnum :: u16
  e_shstrndx :: u16

record Elf_Phdr =
  p_type :: u32
  p_offset :: u32
  p_vaddr :: u32
  p_paddr :: u32
  p_filesz :: u32
  p_memsz :: u32
  p_flags :: u32
  p_align :: u32

record NaClElfImage =
  ehdr :: Elf_Ehdr
  phdrs :: "Elf_Phdr list"
  loadable :: "bool list"

definition NACL_MAX_PROGRAM_HEADERS :: nat where "NACL_MAX_PROGRAM_HEADERS = 128"

datatype NaClPhdrCheckAction = PCA_NONE | PCA_TEXT_CHECK | PCA_RODATA | PCA_DATA | PCA_IGNORE

record NaClPhdrChecks =
  c_type :: u32
  c_flags :: u32
  c_action :: NaClPhdrCheckAction
  c_required :: bool
  c_vaddr :: u32

definition PT_NULL :: u32 where "PT_NULL = 0"
definition PT_LOAD :: u32 where "PT_LOAD = 1"
definition PT_DYNAMIC :: u32 where "PT_DYNAMIC = 2"
definition PT_INTERP :: u32 where "PT_INTERP = 3"
definition PT_NOTE :: u32 where "PT_NOTE = 4"
definition PT_PHDR :: u32 where "PT_PHDR = 6"
definition PT_TLS :: u32 where "PT_TLS = 7"
definition PT_GNU_EH_FRAME :: u32 where "PT_GNU_EH_FRAME = 0x6474e550"
definition PT_GNU_STACK :: u32 where "PT_GNU_STACK = 0x6474e551"
definition PT_GNU_RELRO :: u32 where "PT_GNU_RELRO = 0x6474e552"
definition PF_X :: u32 where "PF_X = 1"
definition PF_W :: u32 where "PF_W = 2"
definition PF_R :: u32 where "PF_R = 4"

definition check_row :: "u32 \<Rightarrow> u32 \<Rightarrow> NaClPhdrCheckAction \<Rightarrow> bool \<Rightarrow> u32 \<Rightarrow> NaClPhdrChecks" where
  "check_row t f a r v = \<lparr>c_type = t, c_flags = f, c_action = a, c_required = r, c_vaddr = v\<rparr>"

definition nacl_phdr_check_data :: "NaClPhdrChecks list" where
  "nacl_phdr_check_data =
     [check_row PT_PHDR PF_R PCA_IGNORE False 0,
      check_row PT_LOAD (PF_R OR PF_X) PCA_TEXT_CHECK True NACL_TRAMPOLINE_END,
      check_row PT_LOAD PF_R PCA_RODATA False 0,
      check_row PT_LOAD (PF_R OR PF_W) PCA_DATA False 0,
      check_row PT_TLS PF_R PCA_IGNORE False 0,
      check_row PT_GNU_STACK (PF_R OR PF_W) PCA_NONE False 0,
      check_row PT_DYNAMIC PF_R PCA_IGNORE False 0,
      check_row PT_INTERP PF_R PCA_IGNORE False 0,
      check_row PT_NOTE PF_R PCA_IGNORE False 0,
      check_row PT_GNU_EH_FRAME PF_R PCA_IGNORE False 0,
      check_row PT_GNU_RELRO PF_R PCA_IGNORE False 0,
      check_row PT_NULL PF_R PCA_IGNORE False 0]"

section \<open>Header checks\<close>

definition NaClElfImageValidateAbi :: "NaClElfImage \<Rightarrow> NaClErrorCode" where
  "NaClElfImageValidateAbi img =
     (let hdr = ehdr img in
      if 123 \<noteq> e_ident hdr ! 7 then LOAD_BAD_ABI
      else if 7 \<noteq> e_ident hdr ! 8 then LOAD_BAD_ABI
      else LOAD_OK)"

definition NaClElfImageValidateElfHeader :: "NaClElfImage \<Rightarrow> NaClErrorCode" where
  "NaClElfImageValidateElfHeader img =
     (let hdr = ehdr img in
      if take 4 (e_ident hdr) \<noteq> [0x7F, 0x45, 0x4C, 0x46] then LOAD_BAD_ELF_MAGIC
      else if 1 \<noteq> e_ident hdr ! 4 then LOAD_NOT_32_BIT
      else if 2 \<noteq> e_type hdr then LOAD_NOT_EXEC
      else if 3 \<noteq> e_machine hdr then LOAD_BAD_MACHINE
      else if 1 \<noteq> e_version hdr then LOAD_BAD_ELF_VERS
      else LOAD_OK)"

section \<open>Program header checks\<close>

text \<open>The out parameters of \<open>NaClElfImageValidateProgramHeaders\<close> and its local \<open>seen_seg\<close>.\<close>

record phdr_out =
  o_static_text_end :: u32
  o_rodata_start :: u32
  o_rodata_end :: u32
  o_data_start :: u32
  o_data_end :: u32
  o_max_vaddr :: u32
  seen_seg :: "bool list"

fun find_check :: "NaClPhdrChecks list \<Rightarrow> nat \<Rightarrow> Elf_Phdr \<Rightarrow> nat" where
  "find_check [] j php = j"
| "find_check (c # cs) j php =
     (if p_type php = c_type c \<and> p_flags php = c_flags c then j else find_check cs (Suc j) php)"

text \<open>The body of the loop for one segment: \<open>Inl\<close> is an early return.\<close>

definition check_segment ::
    "u8 \<Rightarrow> nat \<Rightarrow> Elf_Phdr \<Rightarrow> bool list \<Rightarrow> phdr_out \<Rightarrow> NaClErrorCode + (bool list \<times> phdr_out)" where
  "check_segment bits segnum php load_flags out =
     (if 0 = p_memsz php then Inr (load_flags, out)
      else
        let j = find_check nacl_phdr_check_data 0 php in
        if j = length nacl_phdr_check_data then Inl LOAD_BAD_SEGMENT
        else if seen_seg out ! j then Inl LOAD_DUP_SEGMENT
        else
          let out1 = out\<lparr>seen_seg := (seen_seg out)[j := True]\<rparr>; c = nacl_phdr_check_data ! j in
          if PCA_IGNORE = c_action c then Inr (load_flags, out1)
          else if 0 \<noteq> c_vaddr c \<and> c_vaddr c \<noteq> p_vaddr php then Inl LOAD_SEGMENT_BAD_LOC
          else if p_vaddr php < NACL_TRAMPOLINE_END then Inl LOAD_SEGMENT_OUTSIDE_ADDRSPACE
          else if p_vaddr php + p_memsz php < p_vaddr php then Inl LOAD_SEGMENT_OUTSIDE_ADDRSPACE
          else if p_vaddr php + p_memsz php \<ge> push_bit (unat bits) 1 then Inl LOAD_SEGMENT_OUTSIDE_ADDRSPACE
          else if p_filesz php > p_memsz php then Inl LOAD_SEGMENT_BAD_PARAM
          else
            let lf = load_flags[segnum := True];
                seg_end = p_vaddr php + p_memsz php;
                out2 = (if o_max_vaddr out1 < seg_end then out1\<lparr>o_max_vaddr := seg_end\<rparr> else out1) in
            case c_action c of
              PCA_NONE \<Rightarrow> Inr (lf, out2)
            | PCA_TEXT_CHECK \<Rightarrow>
                if 0 = p_memsz php then Inl LOAD_BAD_ELF_TEXT
                else Inr (lf, out2\<lparr>o_static_text_end := NACL_TRAMPOLINE_END + p_filesz php\<rparr>)
            | PCA_RODATA \<Rightarrow> Inr (lf, out2\<lparr>o_rodata_start := p_vaddr php, o_rodata_end := seg_end\<rparr>)
            | PCA_DATA \<Rightarrow> Inr (lf, out2\<lparr>o_data_start := p_vaddr php, o_data_end := seg_end\<rparr>)
            | PCA_IGNORE \<Rightarrow> Inr (lf, out2))"

fun check_segments ::
    "u8 \<Rightarrow> nat \<Rightarrow> Elf_Phdr list \<Rightarrow> bool list \<Rightarrow> phdr_out \<Rightarrow> NaClErrorCode + (bool list \<times> phdr_out)" where
  "check_segments bits segnum [] load_flags out = Inr (load_flags, out)"
| "check_segments bits segnum (php # phs) load_flags out =
     (case check_segment bits segnum php load_flags out of
        Inl e \<Rightarrow> Inl e
      | Inr (lf, out1) \<Rightarrow> check_segments bits (Suc segnum) phs lf out1)"

definition required_missing :: "bool list \<Rightarrow> bool" where
  "required_missing seen \<longleftrightarrow>
     (\<exists>j < length nacl_phdr_check_data. c_required (nacl_phdr_check_data ! j) \<and> \<not> seen ! j)"

lemma required_missing_code [code]:
  "required_missing seen =
     list_ex (\<lambda>j. c_required (nacl_phdr_check_data ! j) \<and> \<not> seen ! j) [0..<length nacl_phdr_check_data]"
  by (auto simp: required_missing_def list_ex_iff)

text \<open>
  The whole call. The out parameters start with the caller's values \<open>out0\<close>; on an early return
  they may already have been changed, which no caller looks at, so the model returns the code
  alone.
\<close>

definition NaClElfImageValidateProgramHeaders ::
    "NaClElfImage \<Rightarrow> u8 \<Rightarrow> phdr_out \<Rightarrow> NaClErrorCode + (NaClElfImage \<times> phdr_out)" where
  "NaClElfImageValidateProgramHeaders img bits out0 =
     (let out = out0\<lparr>o_max_vaddr := NACL_TRAMPOLINE_END,
                     seen_seg := replicate (length nacl_phdr_check_data) False\<rparr> in
      case check_segments bits 0 (take (unat (e_phnum (ehdr img))) (phdrs img)) (loadable img) out of
        Inl e \<Rightarrow> Inl e
      | Inr (lf, out1) \<Rightarrow>
          if required_missing (seen_seg out1) then Inl LOAD_REQUIRED_SEG_MISSING
          else Inr (img\<lparr>loadable := lf\<rparr>, out1))"

section \<open>Reading the image\<close>

text \<open>Little-endian fields of the on-disk structures.\<close>

definition get16 :: "u8 list \<Rightarrow> nat \<Rightarrow> u16" where
  "get16 bs i = ucast (bs ! i) OR push_bit 8 (ucast (bs ! (i + 1)))"

definition get32 :: "u8 list \<Rightarrow> nat \<Rightarrow> u32" where
  "get32 bs i = ucast (bs ! i) OR push_bit 8 (ucast (bs ! (i + 1)))
     OR push_bit 16 (ucast (bs ! (i + 2))) OR push_bit 24 (ucast (bs ! (i + 3)))"

definition SIZEOF_EHDR :: nat where "SIZEOF_EHDR = 52"
definition SIZEOF_PHDR :: nat where "SIZEOF_PHDR = 32"

definition parse_ehdr :: "u8 list \<Rightarrow> Elf_Ehdr" where
  "parse_ehdr bs = \<lparr>e_ident = take 16 bs, e_type = get16 bs 16, e_machine = get16 bs 18,
     e_version = get32 bs 20, e_entry = get32 bs 24, e_phoff = get32 bs 28, e_shoff = get32 bs 32,
     e_flags = get32 bs 36, e_ehsize = get16 bs 40, e_phentsize = get16 bs 42, e_phnum = get16 bs 44,
     e_shentsize = get16 bs 46, e_shnum = get16 bs 48, e_shstrndx = get16 bs 50\<rparr>"

definition parse_phdr :: "u8 list \<Rightarrow> Elf_Phdr" where
  "parse_phdr bs = \<lparr>p_type = get32 bs 0, p_offset = get32 bs 4, p_vaddr = get32 bs 8, p_paddr = get32 bs 12,
     p_filesz = get32 bs 16, p_memsz = get32 bs 20, p_flags = get32 bs 24, p_align = get32 bs 28\<rparr>"

definition parse_phdrs :: "u8 list \<Rightarrow> nat \<Rightarrow> Elf_Phdr list" where
  "parse_phdrs bs n = map (\<lambda>i. parse_phdr (drop (SIZEOF_PHDR * i) bs)) [0..<n]"

text \<open>
  \<open>NaClElfImageNew\<close>: the image, or NULL with the error code the call stored, if any. The first
  failure path returns NULL without storing a code.
\<close>

definition NaClElfImageNew ::
    "'g GioVtbl \<Rightarrow> bool \<Rightarrow> 'g \<Rightarrow> ('g \<times> (NaClErrorCode option + NaClElfImage)) res" where
  "NaClElfImageNew vt malloc_ok gp =
     (case Seek vt gp 0 0 of (gp1, r1) \<Rightarrow>
      if r1 = - 1 then Inr (gp1, Inl None)
      else case Read vt gp1 (of_nat SIZEOF_EHDR) of (gp2, bs, r2) \<Rightarrow>
      if r2 \<noteq> of_nat SIZEOF_EHDR then Inr (gp2, Inl (Some LOAD_READ_ERROR))
      else
        let hdr = parse_ehdr bs in
        if unat (e_phnum hdr) > NACL_MAX_PROGRAM_HEADERS then Inr (gp2, Inl (Some LOAD_TOO_MANY_PROG_HDRS))
        else if unat (e_phentsize hdr) < SIZEOF_PHDR then Inr (gp2, Inl (Some LOAD_PROG_HDR_SIZE_TOO_SMALL))
        else case Seek vt gp2 (e_phoff hdr) SEEK_SET of (gp3, r3) \<Rightarrow>
        if r3 = - 1 then Inr (gp3, Inl (Some LOAD_READ_ERROR))
        else
          let sz = of_nat (unat (e_phnum hdr) * SIZEOF_PHDR) in
          case Read vt gp3 sz of (gp4, pbs, r4) \<Rightarrow>
          if r4 \<noteq> sz then Inr (gp4, Inl (Some LOAD_READ_ERROR))
          else if \<not> malloc_ok then Inl LogFatal
          else Inr (gp4, Inr \<lparr>ehdr = hdr, phdrs = parse_phdrs pbs (unat (e_phnum hdr)),
                              loadable = replicate NACL_MAX_PROGRAM_HEADERS False\<rparr>))"

section \<open>Loading the segments\<close>

fun load_segments ::
    "'g GioVtbl \<Rightarrow> u8 \<Rightarrow> uintptr_t \<Rightarrow> (Elf_Phdr \<times> bool) list \<Rightarrow> 'g \<times> memory
      \<Rightarrow> ('g \<times> memory \<times> NaClErrorCode) res" where
  "load_segments vt bits mstart [] (gp, m) = Inr (gp, m, LOAD_OK)"
| "load_segments vt bits mstart ((php, ld) # segs) (gp, m) =
     (if \<not> ld then load_segments vt bits mstart segs (gp, m)
      else
        let end_vaddr = p_vaddr php + p_filesz php in
        if end_vaddr < p_vaddr php then Inl LogFatal
        else if end_vaddr \<ge> push_bit (unat bits) 1 then Inl LogFatal
        else
          let paddr = mstart + p_vaddr php in
          case Seek vt gp (p_offset php) SEEK_SET of (gp1, r1) \<Rightarrow>
          if r1 = - 1 then Inr (gp1, m, LOAD_SEGMENT_BAD_PARAM)
          else case Read vt gp1 (p_filesz php) of (gp2, bs, r2) \<Rightarrow>
          let m1 = mem_write m paddr bs in
          if r2 \<noteq> p_filesz php then Inr (gp2, m1, LOAD_SEGMENT_BAD_PARAM)
          else load_segments vt bits mstart segs (gp2, m1))"

definition NaClElfImageLoad ::
    "'g GioVtbl \<Rightarrow> NaClElfImage \<Rightarrow> 'g \<Rightarrow> u8 \<Rightarrow> uintptr_t \<Rightarrow> memory \<Rightarrow> ('g \<times> memory \<times> NaClErrorCode) res" where
  "NaClElfImageLoad vt img gp bits mstart m =
     load_segments vt bits mstart
       (take (unat (e_phnum (ehdr img))) (zip (phdrs img) (loadable img))) (gp, m)"

definition NaClElfImageGetEntryPoint :: "NaClElfImage \<Rightarrow> uintptr_t" where
  "NaClElfImageGetEntryPoint img = e_entry (ehdr img)"

definition NaClElfImageGetBundleSize :: "NaClElfImage \<Rightarrow> u32 res" where
  "NaClElfImageGetBundleSize img =
     (let v = e_flags (ehdr img) AND 0x300000 in
      if v = 0x100000 then Inr 16 else if v = 0x200000 then Inr 32 else Inl LogFatal)"

section \<open>What the checks establish\<close>

text \<open>A segment the loader may write: above the trampolines, inside the address space.\<close>

definition seg_ok :: "u8 \<Rightarrow> u32 \<Rightarrow> Elf_Phdr \<Rightarrow> bool" where
  "seg_ok bits maxv php \<longleftrightarrow> unat NACL_TRAMPOLINE_END \<le> unat (p_vaddr php) \<and>
     unat (p_vaddr php) + unat (p_memsz php) < 2 ^ unat bits \<and> unat (p_filesz php) \<le> unat (p_memsz php) \<and>
     unat (p_vaddr php) + unat (p_memsz php) \<le> unat maxv"

definition is_text :: "Elf_Phdr \<Rightarrow> bool" where
  "is_text php \<longleftrightarrow> p_memsz php \<noteq> 0 \<and> p_type php = PT_LOAD \<and> p_flags php = PF_R OR PF_X"

lemma no_wrap_sum:
  fixes a b :: u32
  assumes "\<not> a + b < a"
  shows "unat (a + b) = unat a + unat b"
proof (cases "unat a + unat b < 2 ^ 32")
  case True
  then show ?thesis by (intro unat_add_no_wrap) simp
next
  case False
  then have "unat (a + b) = unat a + unat b - 2 ^ 32"
    using unat_lt_size_t [of a] unat_lt_size_t [of b] by (simp add: unat_word_ariths mod_if)
  moreover have "unat a + unat b - 2 ^ 32 < unat a"
    using False unat_lt_size_t [of a] unat_lt_size_t [of b] by simp
  ultimately show ?thesis using assms by (simp only: word_less_nat_alt simp_thms)
qed

lemma unat_limit: "unat bits < 32 \<Longrightarrow> unat (push_bit (unat bits) 1 :: u32) = 2 ^ unat bits"
  using unat_pow2_size_t [of "unat bits"] by (simp add: push_bit_eq_mult)

lemma phdr_table [simp]: "length nacl_phdr_check_data = 12"
  by (simp add: nacl_phdr_check_data_def)

lemma find_check_le: "find_check cs j php \<le> j + length cs"
proof (induction cs arbitrary: j)
  case (Cons c cs)
  from Cons.IH [of "Suc j"] show ?case by simp
qed simp

lemma find_check_text: "find_check nacl_phdr_check_data 0 php = 1 \<longleftrightarrow> p_type php = PT_LOAD \<and> p_flags php = PF_R OR PF_X"
  by (auto simp: nacl_phdr_check_data_def check_row_def PT_LOAD_def PT_PHDR_def PF_R_def PF_X_def)

lemma text_row: "nacl_phdr_check_data ! 1 = check_row PT_LOAD (PF_R OR PF_X) PCA_TEXT_CHECK True NACL_TRAMPOLINE_END"
  by (simp add: nacl_phdr_check_data_def)

lemma text_action: "j < 12 \<Longrightarrow> c_action (nacl_phdr_check_data ! j) = PCA_TEXT_CHECK \<longleftrightarrow> j = 1"
  by (simp add: nacl_phdr_check_data_def check_row_def less_Suc_eq numeral_eq_Suc) auto

text \<open>What one accepted segment did to the flags and the outputs.\<close>

lemma check_segment_ok:
  assumes r: "check_segment bits n php lf out = Inr (lf', out')"
    and bits: "unat bits < 32" and len: "length (seen_seg out) = 12"
  shows "lf' = lf \<or> lf' = lf[n := True] \<and> seg_ok bits (o_max_vaddr out') php"
    and "o_max_vaddr out \<le> o_max_vaddr out'" and "length (seen_seg out') = 12"
    and "seen_seg out' ! 1 \<longleftrightarrow> seen_seg out ! 1 \<or> is_text php"
    and "is_text php \<Longrightarrow> \<not> seen_seg out ! 1 \<and> p_vaddr php = NACL_TRAMPOLINE_END \<and> lf' = lf[n := True] \<and>
           o_static_text_end out' = NACL_TRAMPOLINE_END + p_filesz php"
    and "\<not> is_text php \<Longrightarrow> o_static_text_end out' = o_static_text_end out"
proof -
  let ?j = "find_check nacl_phdr_check_data 0 php"
  let ?c = "nacl_phdr_check_data ! ?j"
  have jle: "?j \<le> 12" using find_check_le [of nacl_phdr_check_data 0 php] by simp
  consider (empty) "p_memsz php = 0" "lf' = lf" "out' = out"
    | (ignore) "p_memsz php \<noteq> 0" "?j < 12" "\<not> seen_seg out ! ?j" "c_action ?c = PCA_IGNORE" "lf' = lf"
        "out' = out\<lparr>seen_seg := (seen_seg out)[?j := True]\<rparr>"
    | (load) "p_memsz php \<noteq> 0" "?j < 12" "\<not> seen_seg out ! ?j" "c_action ?c \<noteq> PCA_IGNORE"
        "c_vaddr ?c \<noteq> 0 \<Longrightarrow> c_vaddr ?c = p_vaddr php" "lf' = lf[n := True]"
        "seg_ok bits (o_max_vaddr out') php" "o_max_vaddr out \<le> o_max_vaddr out'"
        "seen_seg out' = (seen_seg out)[?j := True]"
        "o_static_text_end out' = (if c_action ?c = PCA_TEXT_CHECK then NACL_TRAMPOLINE_END + p_filesz php
           else o_static_text_end out)"
  proof (cases "p_memsz php = 0 \<or> c_action ?c = PCA_IGNORE")
    case True
    then show thesis
      using r jle empty ignore
      by (auto simp: check_segment_def Let_def split: if_splits NaClPhdrCheckAction.splits)
  next
    case False
    have guards: "?j < 12" "\<not> seen_seg out ! ?j" "c_vaddr ?c \<noteq> 0 \<Longrightarrow> c_vaddr ?c = p_vaddr php"
      "\<not> p_vaddr php < NACL_TRAMPOLINE_END" "\<not> p_vaddr php + p_memsz php < p_vaddr php"
      "\<not> push_bit (unat bits) 1 \<le> p_vaddr php + p_memsz php" "\<not> p_memsz php < p_filesz php"
      using r False jle by (auto simp: check_segment_def Let_def split: if_splits)
    have res: "lf' = lf[n := True]" "seen_seg out' = (seen_seg out)[?j := True]"
      "o_max_vaddr out' = (if o_max_vaddr out < p_vaddr php + p_memsz php then p_vaddr php + p_memsz php
         else o_max_vaddr out)"
      "o_static_text_end out' = (if c_action ?c = PCA_TEXT_CHECK then NACL_TRAMPOLINE_END + p_filesz php
         else o_static_text_end out)"
      using r False guards
      by (auto simp: check_segment_def Let_def split: if_splits NaClPhdrCheckAction.splits)
    note sum = no_wrap_sum [OF guards(5)]
    have "seg_ok bits (o_max_vaddr out') php"
      using guards(4,6,7) sum unat_limit [OF bits] res(3) by (auto simp: seg_ok_def nat_of_word)
    moreover have "o_max_vaddr out \<le> o_max_vaddr out'" using res(3) by auto
    ultimately show thesis using load False guards res by blast
  qed
  note cases = this
  have tj: "is_text php \<longleftrightarrow> p_memsz php \<noteq> 0 \<and> ?j = 1"
    unfolding is_text_def find_check_text ..
  show "lf' = lf \<or> lf' = lf[n := True] \<and> seg_ok bits (o_max_vaddr out') php"
    "o_max_vaddr out \<le> o_max_vaddr out'" "length (seen_seg out') = 12"
    "seen_seg out' ! 1 \<longleftrightarrow> seen_seg out ! 1 \<or> is_text php"
    using cases by (cases; use len tj in \<open>auto simp: nth_list_update\<close>)+
  show "\<not> seen_seg out ! 1 \<and> p_vaddr php = NACL_TRAMPOLINE_END \<and> lf' = lf[n := True] \<and>
           o_static_text_end out' = NACL_TRAMPOLINE_END + p_filesz php" if "is_text php"
    using cases by (cases; use that tj in \<open>auto simp: text_row [simplified] check_row_def\<close>)
  show "o_static_text_end out' = o_static_text_end out" if "\<not> is_text php"
    using cases by (cases; use that tj text_action in auto)
qed

lemma check_segments_ok:
  assumes "check_segments bits n phs lf out = Inr (lf', out')"
    and "unat bits < 32" and "length (seen_seg out) = 12" and "n + length phs \<le> length lf"
  shows "length lf' = length lf \<and> o_max_vaddr out \<le> o_max_vaddr out' \<and>
    (\<forall>i < n. lf' ! i = lf ! i) \<and>
    (\<forall>i < length phs. lf' ! (n + i) \<longrightarrow> lf ! (n + i) \<or> seg_ok bits (o_max_vaddr out') (phs ! i)) \<and>
    (seen_seg out' ! 1 \<longleftrightarrow> seen_seg out ! 1 \<or> (\<exists>php \<in> set phs. is_text php)) \<and>
    length (filter is_text phs) \<le> (if seen_seg out ! 1 then 0 else 1) \<and>
    (\<forall>i < length phs. is_text (phs ! i) \<longrightarrow> p_vaddr (phs ! i) = NACL_TRAMPOLINE_END \<and> lf' ! (n + i) \<and>
       o_static_text_end out' = NACL_TRAMPOLINE_END + p_filesz (phs ! i)) \<and>
    ((\<forall>php \<in> set phs. \<not> is_text php) \<longrightarrow> o_static_text_end out' = o_static_text_end out)"
  using assms(1,3,4)
proof (induction phs arbitrary: n lf out)
  case (Cons php phs)
  obtain lf1 out1 where s: "check_segment bits n php lf out = Inr (lf1, out1)"
    and rest: "check_segments bits (Suc n) phs lf1 out1 = Inr (lf', out')"
    using Cons.prems(1) by (auto split: sum.splits)
  note one = check_segment_ok [OF s assms(2) Cons.prems(2)]
  have len1: "length lf1 = length lf" using one(1) by auto
  note IH = Cons.IH [OF rest one(3)]
  have IH': "length lf' = length lf1" "o_max_vaddr out1 \<le> o_max_vaddr out'" "\<forall>i < Suc n. lf' ! i = lf1 ! i"
    "\<forall>i < length phs. lf' ! (Suc n + i) \<longrightarrow> lf1 ! (Suc n + i) \<or> seg_ok bits (o_max_vaddr out') (phs ! i)"
    "seen_seg out' ! 1 \<longleftrightarrow> seen_seg out1 ! 1 \<or> (\<exists>php \<in> set phs. is_text php)"
    "length (filter is_text phs) \<le> (if seen_seg out1 ! 1 then 0 else 1)"
    "\<forall>i < length phs. is_text (phs ! i) \<longrightarrow> p_vaddr (phs ! i) = NACL_TRAMPOLINE_END \<and> lf' ! (Suc n + i) \<and>
       o_static_text_end out' = NACL_TRAMPOLINE_END + p_filesz (phs ! i)"
    "(\<forall>php \<in> set phs. \<not> is_text php) \<longrightarrow> o_static_text_end out' = o_static_text_end out1"
    using IH len1 Cons.prems(3) by auto
  have keep: "lf1 ! i = lf ! i" if "i \<noteq> n" for i using one(1) that by auto
  have mono: "seg_ok bits (o_max_vaddr out1) php \<Longrightarrow> seg_ok bits (o_max_vaddr out') php"
    using IH'(2) by (auto simp: seg_ok_def word_le_nat_alt)
  have head: "lf' ! n \<longrightarrow> lf ! n \<or> seg_ok bits (o_max_vaddr out') php"
    using IH'(3) one(1) mono by auto
  have no_more: "\<not> is_text x" if "is_text php" "x \<in> set phs" for x
    using IH'(6) one(4) that by (auto simp: filter_empty_conv)
  have tx: "p_vaddr php = NACL_TRAMPOLINE_END \<and> lf' ! n \<and>
      o_static_text_end out' = NACL_TRAMPOLINE_END + p_filesz php" if "is_text php"
    using one(5) [OF that] IH'(3,8) no_more [OF that] Cons.prems(3) by auto
  have count: "length (filter is_text (php # phs)) \<le> (if seen_seg out ! 1 then 0 else 1)"
    using IH'(6) one(4,5) by (auto split: if_splits)
  show ?case
  proof (intro conjI)
    show "length lf' = length lf" using IH'(1) len1 by simp
    show "o_max_vaddr out \<le> o_max_vaddr out'" using one(2) IH'(2) by (rule order_trans)
    show "\<forall>i < n. lf' ! i = lf ! i" using IH'(3) keep by auto
    show "\<forall>i < length (php # phs). lf' ! (n + i) \<longrightarrow>
        lf ! (n + i) \<or> seg_ok bits (o_max_vaddr out') ((php # phs) ! i)"
      using head IH'(4) keep by (auto simp: less_Suc_eq_0_disj)
    show "seen_seg out' ! 1 \<longleftrightarrow> seen_seg out ! 1 \<or> (\<exists>php \<in> set (php # phs). is_text php)"
      using IH'(5) one(4) by auto
    show "length (filter is_text (php # phs)) \<le> (if seen_seg out ! 1 then 0 else 1)" by (rule count)
    show "\<forall>i < length (php # phs). is_text ((php # phs) ! i) \<longrightarrow>
        p_vaddr ((php # phs) ! i) = NACL_TRAMPOLINE_END \<and> lf' ! (n + i) \<and>
        o_static_text_end out' = NACL_TRAMPOLINE_END + p_filesz ((php # phs) ! i)"
      using tx IH'(7) by (auto simp: less_Suc_eq_0_disj)
    show "(\<forall>php \<in> set (php # phs). \<not> is_text php) \<longrightarrow> o_static_text_end out' = o_static_text_end out"
      using IH'(8) one(6) by auto
  qed
qed simp

section \<open>Loading stays inside the segments\<close>

text \<open>The addresses a loaded segment writes.\<close>

definition in_seg :: "uintptr_t \<Rightarrow> Elf_Phdr \<Rightarrow> uintptr_t \<Rightarrow> bool" where
  "in_seg mstart php x \<longleftrightarrow> unat (x - (mstart + p_vaddr php)) < unat (p_filesz php)"

lemma in_seg_range:
  assumes "in_seg mstart php x" "seg_ok bits maxv php" "unat bits \<le> 30" "unat mstart + 2 ^ unat bits < 2 ^ 32"
  shows "unat mstart + unat NACL_TRAMPOLINE_END \<le> unat x" "unat x < unat mstart + 2 ^ unat bits"
proof -
  let ?p = "mstart + p_vaddr php"
  have ok: "unat NACL_TRAMPOLINE_END \<le> unat (p_vaddr php)"
    "unat (p_vaddr php) + unat (p_memsz php) < 2 ^ unat bits" "unat (p_filesz php) \<le> unat (p_memsz php)"
    using assms(2) by (auto simp: seg_ok_def)
  have p: "unat ?p = unat mstart + unat (p_vaddr php)"
    using ok(2) assms(4) by (intro unat_add_no_wrap) simp
  have d: "unat (x - ?p) < unat (p_filesz php)" using assms(1) by (simp add: in_seg_def)
  have "unat (?p + (x - ?p)) = unat ?p + unat (x - ?p)"
    using p d ok assms(4) by (intro unat_add_no_wrap) simp
  then have "unat x = unat mstart + unat (p_vaddr php) + unat (x - ?p)" using p by simp
  then show "unat mstart + unat NACL_TRAMPOLINE_END \<le> unat x" "unat x < unat mstart + 2 ^ unat bits"
    using d ok by linarith+
qed

lemma load_guards:
  assumes "seg_ok bits maxv php" "unat bits \<le> 30"
  shows "\<not> p_vaddr php + p_filesz php < p_vaddr php"
    "\<not> push_bit (unat bits) 1 \<le> p_vaddr php + p_filesz php"
proof -
  have b: "unat (p_vaddr php) + unat (p_filesz php) < 2 ^ unat bits" using assms(1) by (auto simp: seg_ok_def)
  moreover have "(2 :: nat) ^ unat bits \<le> 2 ^ 30" using assms(2) by (intro power_increasing) simp_all
  ultimately have s: "unat (p_vaddr php + p_filesz php) = unat (p_vaddr php) + unat (p_filesz php)"
    by (intro unat_add_no_wrap) simp
  show "\<not> p_vaddr php + p_filesz php < p_vaddr php" using s by (simp add: word_less_nat_alt)
  show "\<not> push_bit (unat bits) 1 \<le> p_vaddr php + p_filesz php"
    using s b unat_limit [of bits] assms(2) by (simp add: word_le_nat_alt)
qed

context gio_file
begin

text \<open>One loaded segment: it does not abort and writes inside its range; when the read was
  complete the range holds the bytes of the file.\<close>

lemma load_one:
  assumes "inv g" "Seek vt g (p_offset php) SEEK_SET = (g1, r1)" "Read vt g1 (p_filesz php) = (g2, bs, r2)"
  shows "inv g2" "contents g2 = contents g"
    "\<not> in_seg mstart php x \<Longrightarrow> mem_write m (mstart + p_vaddr php) bs x = m x"
    "r1 \<noteq> - 1 \<Longrightarrow> r2 = p_filesz php \<Longrightarrow>
       mem_read (mem_write m (mstart + p_vaddr php) bs) (mstart + p_vaddr php) (unat (p_filesz php))
       = take (unat (p_filesz php)) (drop (unat (p_offset php)) (contents g))"
proof -
  have s: "inv g1" "contents g1 = contents g" using seek_set [OF assms(1,2)] by auto
  have rd: "inv g2 \<and> contents g2 = contents g1 \<and> length bs \<le> unat (p_filesz php)"
    using read_bytes [OF s(1) assms(3)] by auto
  then show "inv g2" "contents g2 = contents g" using s by auto
  show "mem_write m (mstart + p_vaddr php) bs x = m x" if "\<not> in_seg mstart php x"
    using rd that by (intro mem_write_outside) (auto simp: in_seg_def)
  show "mem_read (mem_write m (mstart + p_vaddr php) bs) (mstart + p_vaddr php) (unat (p_filesz php))
       = take (unat (p_filesz php)) (drop (unat (p_offset php)) (contents g))"
    if "r1 \<noteq> - 1" "r2 = p_filesz php"
  proof -
    from seek_then_read [OF assms(1,2) that(1) assms(3) that(2)]
    have b: "bs = take (unat (p_filesz php)) (drop (unat (p_offset php)) (contents g))"
      "length bs = unat (p_filesz php)" by auto
    have "length bs \<le> 2 ^ 32" using b(2) unat_lt_size_t [of "p_filesz php"] by simp
    from mem_read_write_same [OF this, of m "mstart + p_vaddr php"] show ?thesis
      unfolding b(2) by (simp flip: b(1))
  qed
qed

lemma load_segments_total:
  assumes "inv g" and "\<forall>(php, ld) \<in> set segs. ld \<longrightarrow> seg_ok bits maxv php" and "unat bits \<le> 30"
  shows "\<exists>g' m' e. load_segments vt bits mstart segs (g, m) = Inr (g', m', e) \<and> inv g' \<and>
    (\<forall>x. (\<forall>(php, ld) \<in> set segs. ld \<longrightarrow> \<not> in_seg mstart php x) \<longrightarrow> m' x = m x)"
  using assms(1,2)
proof (induction segs arbitrary: g m)
  case (Cons seg segs)
  obtain php ld where seg: "seg = (php, ld)" by (cases seg)
  have rest: "\<forall>(php, ld) \<in> set segs. ld \<longrightarrow> seg_ok bits maxv php" using Cons.prems(2) by simp
  show ?case
  proof (cases ld)
    case False
    then show ?thesis using Cons.IH [OF Cons.prems(1) rest, of m] seg by auto
  next
    case True
    obtain g1 r1 where sk: "Seek vt g (p_offset php) SEEK_SET = (g1, r1)" by fastforce
    obtain g2 bs r2 where rd: "Read vt g1 (p_filesz php) = (g2, bs, r2)" by (metis prod_cases3)
    note one = load_one [OF Cons.prems(1) sk rd]
    have "seg_ok bits maxv php" using Cons.prems(2) seg True by simp
    note g = load_guards [OF this assms(3)]
    have g1: "inv g1" using seek_set [OF Cons.prems(1) sk] by simp
    let ?m = "mem_write m (mstart + p_vaddr php) bs"
    obtain g' m' e where IH: "load_segments vt bits mstart segs (g2, ?m) = Inr (g', m', e)" "inv g'"
      "\<forall>x. (\<forall>(php, ld) \<in> set segs. ld \<longrightarrow> \<not> in_seg mstart php x) \<longrightarrow> m' x = ?m x"
      using Cons.IH [OF one(1) rest, of ?m] by blast
    have "load_segments vt bits mstart (seg # segs) (g, m) =
        (if r1 = - 1 then Inr (g1, m, LOAD_SEGMENT_BAD_PARAM)
         else if r2 \<noteq> p_filesz php then Inr (g2, ?m, LOAD_SEGMENT_BAD_PARAM)
         else Inr (g', m', e))"
      using seg True g sk rd IH(1) by (simp add: Let_def)
    then show ?thesis using one(1,3) g1 IH(2,3) seg True by (auto split: if_splits)
  qed
qed simp

text \<open>After a complete load the file range of every loaded segment holds the file's bytes, unless a
  later segment overwrote it.\<close>

lemma load_segments_contents:
  assumes "inv g" and "load_segments vt bits mstart segs (g, m) = Inr (g', m', LOAD_OK)"
    and "\<forall>(php, ld) \<in> set segs. ld \<longrightarrow> seg_ok bits maxv php" and "unat bits \<le> 30"
    and "i < length segs" and "segs ! i = (php, True)"
    and "\<And>j php' x. i < j \<Longrightarrow> j < length segs \<Longrightarrow> segs ! j = (php', True) \<Longrightarrow>
           in_seg mstart php x \<Longrightarrow> \<not> in_seg mstart php' x"
  shows "mem_read m' (mstart + p_vaddr php) (unat (p_filesz php))
         = take (unat (p_filesz php)) (drop (unat (p_offset php)) (contents g))"
  using assms(1,2,3,5,6,7)
proof (induction segs arbitrary: g m i)
  case (Cons seg segs)
  obtain php0 ld0 where seg: "seg = (php0, ld0)" by (cases seg)
  have rest: "\<forall>(php, ld) \<in> set segs. ld \<longrightarrow> seg_ok bits maxv php" using Cons.prems(3) by simp
  obtain g1 r1 where sk: "Seek vt g (p_offset php0) SEEK_SET = (g1, r1)" by fastforce
  obtain g2 bs r2 where rd: "Read vt g1 (p_filesz php0) = (g2, bs, r2)" by (metis prod_cases3)
  note one = load_one [OF Cons.prems(1) sk rd]
  let ?m = "mem_write m (mstart + p_vaddr php0) bs"
  have later: "\<not> in_seg mstart php' x"
    if "i < Suc j" "j < length segs" "segs ! j = (php', True)" "in_seg mstart php x" for j php' x
    using Cons.prems(6) [of "Suc j"] that by simp
  show ?case
  proof (cases "ld0")
    case False
    then obtain k where k: "i = Suc k" using Cons.prems(5) seg by (cases i) auto
    have "load_segments vt bits mstart segs (g, m) = Inr (g', m', LOAD_OK)"
      using Cons.prems(2) False seg by simp
    from Cons.IH [OF Cons.prems(1) this rest, of k] show ?thesis
      using Cons.prems(4,5) k later by simp
  next
    case True
    have ok: "load_segments vt bits mstart segs (g2, ?m) = Inr (g', m', LOAD_OK)" "r1 \<noteq> - 1" "r2 = p_filesz php0"
      using Cons.prems(2) True seg sk rd by (auto simp: Let_def split: if_splits)
    show ?thesis
    proof (cases i)
      case (Suc k)
      from Cons.IH [OF one(1) ok(1) rest, of k] show ?thesis
        using Cons.prems(4,5) Suc later one(2) by simp
    next
      case 0
      then have php: "php = php0" using Cons.prems(5) seg by simp
      obtain g'' m'' e where "load_segments vt bits mstart segs (g2, ?m) = Inr (g'', m'', e)"
        and frame: "\<forall>x. (\<forall>(php, ld) \<in> set segs. ld \<longrightarrow> \<not> in_seg mstart php x) \<longrightarrow> m'' x = ?m x"
        using load_segments_total [OF one(1) rest assms(4), of mstart ?m] by blast
      then have same: "m' x = ?m x" if "in_seg mstart php x" for x
      proof -
        have "\<not> in_seg mstart p x" if mem: "(p, True) \<in> set segs" for p
        proof -
          obtain j where "j < length segs" "segs ! j = (p, True)" using mem by (auto simp: in_set_conv_nth)
          then show ?thesis using later [of j p x] 0 \<open>in_seg mstart php x\<close> by simp
        qed
        then have "\<forall>(php, ld) \<in> set segs. ld \<longrightarrow> \<not> in_seg mstart php x" by auto
        then have "m'' x = ?m x" using frame by blast
        moreover have "m'' = m'" using ok(1) \<open>load_segments vt bits mstart segs (g2, ?m) = Inr (g'', m'', e)\<close> by simp
        ultimately show ?thesis by simp
      qed
      have "in_seg mstart php (mstart + p_vaddr php + of_nat k)" if "k < unat (p_filesz php)" for k
      proof -
        have "unat (of_nat k :: uintptr_t) = k"
          using that unat_lt_size_t [of "p_filesz php"] by (simp only: unat_of_nat) simp
        then show ?thesis using that by (simp add: in_seg_def)
      qed
      then have "mem_read m' (mstart + p_vaddr php) (unat (p_filesz php))
          = mem_read ?m (mstart + p_vaddr php) (unat (p_filesz php))"
        using same by (simp add: mem_read_def)
      then show ?thesis using one(4) ok(2,3) php by simp
    qed
  qed
qed simp

end

section \<open>Properties\<close>

text \<open>C27: When \<open>NaClElfImageValidateProgramHeaders\<close> accepts an image, every segment it marks for
  loading lies above the trampolines and inside the address space, with no wrap-around and no
  more file than memory; exactly one non-empty text segment exists, it starts at
  \<open>NACL_TRAMPOLINE_END\<close>, is marked for loading, and \<open>static_text_end\<close> is the end of its file
  contents.\<close>

theorem NaClElfImageValidateProgramHeaders_sound:
  assumes "NaClElfImageValidateProgramHeaders img bits out0 = Inr (img', out)"
    and "unat bits \<le> 30" and "loadable img = replicate 128 False"
    and "unat (e_phnum (ehdr img)) \<le> length (phdrs img)" and "length (phdrs img) \<le> 128"
  shows "ehdr img' = ehdr img \<and> phdrs img' = phdrs img \<and>
    (\<forall>i < unat (e_phnum (ehdr img)). loadable img' ! i \<longrightarrow> seg_ok bits (o_max_vaddr out) (phdrs img ! i)) \<and>
    (\<exists>!i. i < unat (e_phnum (ehdr img)) \<and> is_text (phdrs img ! i)) \<and>
    (\<forall>i < unat (e_phnum (ehdr img)). is_text (phdrs img ! i) \<longrightarrow>
       p_vaddr (phdrs img ! i) = NACL_TRAMPOLINE_END \<and> loadable img' ! i \<and>
       o_static_text_end out = NACL_TRAMPOLINE_END + p_filesz (phdrs img ! i))"
proof -
  let ?n = "unat (e_phnum (ehdr img))" and ?o = "out0\<lparr>o_max_vaddr := NACL_TRAMPOLINE_END, seen_seg := replicate 12 False\<rparr>"
  let ?phs = "take ?n (phdrs img)"
  obtain lf where c: "check_segments bits 0 ?phs (loadable img) ?o = Inr (lf, out)"
    and req: "\<not> required_missing (seen_seg out)" and img': "img' = img\<lparr>loadable := lf\<rparr>"
    using assms(1) by (auto simp: NaClElfImageValidateProgramHeaders_def Let_def split: sum.splits if_splits)
  have len: "length ?phs = ?n" using assms(4) by simp
  have ok: "(\<forall>i < length ?phs. lf ! (0 + i) \<longrightarrow> loadable img ! (0 + i) \<or> seg_ok bits (o_max_vaddr out) (?phs ! i))"
    "seen_seg out ! 1 \<longleftrightarrow> seen_seg ?o ! 1 \<or> (\<exists>php \<in> set ?phs. is_text php)"
    "length (filter is_text ?phs) \<le> (if seen_seg ?o ! 1 then 0 else 1)"
    "\<forall>i < length ?phs. is_text (?phs ! i) \<longrightarrow> p_vaddr (?phs ! i) = NACL_TRAMPOLINE_END \<and> lf ! (0 + i) \<and>
       o_static_text_end out = NACL_TRAMPOLINE_END + p_filesz (?phs ! i)"
    using check_segments_ok [OF c] assms(2-5) by auto
  have "seen_seg out ! 1"
    using req text_row by (auto simp: required_missing_def check_row_def)
  then obtain i where i: "i < ?n" "is_text (phdrs img ! i)"
    using ok(2) len by (auto simp: in_set_conv_nth)
  have uniq: "j = k" if "j < ?n" "k < ?n" "is_text (phdrs img ! j)" "is_text (phdrs img ! k)" for j k
  proof (rule ccontr)
    assume "j \<noteq> k"
    then have "{j, k} \<subseteq> {i. i < length ?phs \<and> is_text (?phs ! i)}" using that len by auto
    then have "card {j, k} \<le> card {i. i < length ?phs \<and> is_text (?phs ! i)}" by (intro card_mono) auto
    also have "\<dots> = length (filter is_text ?phs)" by (rule length_filter_conv_card [symmetric])
    finally show False using ok(3) \<open>j \<noteq> k\<close> by simp
  qed
  have "\<exists>!i. i < ?n \<and> is_text (phdrs img ! i)" using i uniq by blast
  moreover have "\<forall>i < ?n. lf ! i \<longrightarrow> seg_ok bits (o_max_vaddr out) (phdrs img ! i)"
    using ok(1) len assms(3-5) by auto
  ultimately show ?thesis using img' ok(4) len by auto
qed

definition text_phdr :: Elf_Phdr where
  "text_phdr = \<lparr>p_type = 1, p_offset = 4, p_vaddr = 0x20000, p_paddr = 0, p_filesz = 2, p_memsz = 2,
     p_flags = 5, p_align = 0\<rparr>"

definition tiny_image :: NaClElfImage where
  "tiny_image = \<lparr>ehdr = \<lparr>e_ident = replicate 16 0, e_type = 2, e_machine = 3, e_version = 1, e_entry = 0x20000,
       e_phoff = 0, e_shoff = 0, e_flags = 0x200000, e_ehsize = 52, e_phentsize = 32, e_phnum = 1,
       e_shentsize = 0, e_shnum = 0, e_shstrndx = 0\<rparr>,
     phdrs = [text_phdr], loadable = replicate 128 False\<rparr>"

definition no_out :: phdr_out where
  "no_out = \<lparr>o_static_text_end = 0, o_rodata_start = 0, o_rodata_end = 0, o_data_start = 0, o_data_end = 0,
     o_max_vaddr = 0, seen_seg = []\<rparr>"

definition tiny_out :: phdr_out where
  "tiny_out = \<lparr>o_static_text_end = 0x20002, o_rodata_start = 0, o_rodata_end = 0, o_data_start = 0,
     o_data_end = 0, o_max_vaddr = 0x20002,
     seen_seg = [False, True, False, False, False, False, False, False, False, False, False, False]\<rparr>"

lemma tiny_image_valid:
  "NaClElfImageValidateProgramHeaders tiny_image 28 no_out
   = Inr (tiny_image\<lparr>loadable := (replicate 128 False)[0 := True]\<rparr>, tiny_out)"
  by code_simp

theorem NaClElfImageValidateProgramHeaders_sound_witness:
  "\<exists>!i. i < unat (e_phnum (ehdr tiny_image)) \<and> is_text (phdrs tiny_image ! i)"
proof -
  have "loadable tiny_image = replicate 128 False" "unat (e_phnum (ehdr tiny_image)) \<le> length (phdrs tiny_image)"
    "length (phdrs tiny_image) \<le> 128"
    by (simp_all add: tiny_image_def)
  from NaClElfImageValidateProgramHeaders_sound [OF tiny_image_valid _ this] show ?thesis by simp
qed

text \<open>C28: \<open>NaClElfImageLoad\<close>, run on an image whose marked segments passed the checks, never
  reaches its "should have been detected already" aborts; every byte it changes lies in the file
  part of a loadable segment, and between the end of the trampolines and the end of the
  application's address space; when it returns
  \<open>LOAD_OK\<close>, the file part of each loaded segment holds the bytes of the file, unless a later
  segment of the same image overlaps it.\<close>

theorem NaClElfImageLoad_confined:
  assumes "gm_inv gp" and "unat bits \<le> 30" and "unat mstart + 2 ^ unat bits < 2 ^ 32"
    and "\<forall>(php, ld) \<in> set (take (unat (e_phnum (ehdr img))) (zip (phdrs img) (loadable img))).
           ld \<longrightarrow> seg_ok bits maxv php"
  shows "\<exists>gp' m' e. NaClElfImageLoad kGioMemoryFileVtbl img gp bits mstart m = Inr (gp', m', e) \<and>
    (\<forall>x. m' x \<noteq> m x \<longrightarrow> unat mstart + unat NACL_TRAMPOLINE_END \<le> unat x \<and> unat x < unat mstart + 2 ^ unat bits \<and>
       (\<exists>i < min (unat (e_phnum (ehdr img))) (min (length (phdrs img)) (length (loadable img))).
          loadable img ! i \<and> in_seg mstart (phdrs img ! i) x)) \<and>
    (e = LOAD_OK \<longrightarrow> (\<forall>i < min (unat (e_phnum (ehdr img))) (min (length (phdrs img)) (length (loadable img))).
       let php = phdrs img ! i in
       loadable img ! i \<longrightarrow>
       (\<forall>j x. i < j \<and> j < unat (e_phnum (ehdr img)) \<and> j < length (phdrs img) \<and> j < length (loadable img) \<and>
          loadable img ! j \<and> in_seg mstart php x \<longrightarrow> \<not> in_seg mstart (phdrs img ! j) x) \<longrightarrow>
       mem_read m' (mstart + p_vaddr php) (unat (p_filesz php))
         = take (unat (p_filesz php)) (drop (unat (p_offset php)) (buffer gp))))"
proof -
  let ?segs = "take (unat (e_phnum (ehdr img))) (zip (phdrs img) (loadable img))"
  obtain gp' m' e where r: "load_segments kGioMemoryFileVtbl bits mstart ?segs (gp, m) = Inr (gp', m', e)"
    and frame: "\<forall>x. (\<forall>(php, ld) \<in> set ?segs. ld \<longrightarrow> \<not> in_seg mstart php x) \<longrightarrow> m' x = m x"
    using gm.load_segments_total [OF assms(1,4,2), of mstart m] by blast
  have conf: "unat mstart + unat NACL_TRAMPOLINE_END \<le> unat x \<and> unat x < unat mstart + 2 ^ unat bits \<and>
      (\<exists>i < min (unat (e_phnum (ehdr img))) (min (length (phdrs img)) (length (loadable img))).
          loadable img ! i \<and> in_seg mstart (phdrs img ! i) x)"
    if "m' x \<noteq> m x" for x
  proof -
    obtain php where php: "(php, True) \<in> set ?segs" "in_seg mstart php x"
    proof -
      have "\<not> (\<forall>(php, ld) \<in> set ?segs. ld \<longrightarrow> \<not> in_seg mstart php x)"
        using frame \<open>m' x \<noteq> m x\<close> by blast
      then show thesis using that by auto
    qed
    have "seg_ok bits maxv php" using bspec [OF assms(4) php(1)] by simp
    from in_seg_range [OF _ this assms(2,3)] php(2)
    have "unat mstart + unat NACL_TRAMPOLINE_END \<le> unat x \<and> unat x < unat mstart + 2 ^ unat bits" by blast
    moreover obtain i where "i < length ?segs" "?segs ! i = (php, True)" using php(1) by (auto simp: in_set_conv_nth)
    ultimately show ?thesis using php(2) by auto
  qed
  have cont: "mem_read m' (mstart + p_vaddr (phdrs img ! i)) (unat (p_filesz (phdrs img ! i)))
         = take (unat (p_filesz (phdrs img ! i))) (drop (unat (p_offset (phdrs img ! i))) (buffer gp))"
    if "e = LOAD_OK" and i: "i < min (unat (e_phnum (ehdr img))) (min (length (phdrs img)) (length (loadable img)))"
      and "loadable img ! i"
      and later: "\<forall>j x. i < j \<and> j < unat (e_phnum (ehdr img)) \<and> j < length (phdrs img) \<and> j < length (loadable img) \<and>
          loadable img ! j \<and> in_seg mstart (phdrs img ! i) x \<longrightarrow> \<not> in_seg mstart (phdrs img ! j) x" for i
  proof (rule gm.load_segments_contents [OF assms(1) _ assms(4,2)])
    show "load_segments kGioMemoryFileVtbl bits mstart ?segs (gp, m) = Inr (gp', m', LOAD_OK)"
      using r that(1) by simp
    show "i < length ?segs" using i by simp
    show "?segs ! i = (phdrs img ! i, True)" using i that(3) by simp
    show "\<not> in_seg mstart php' x"
      if "i < j" "j < length ?segs" "?segs ! j = (php', True)" "in_seg mstart (phdrs img ! i) x" for j php' x
      using that later by auto
  qed
  have "NaClElfImageLoad kGioMemoryFileVtbl img gp bits mstart m = Inr (gp', m', e)"
    using r by (simp add: NaClElfImageLoad_def)
  then show ?thesis unfolding Let_def using conf cont by blast
qed

theorem NaClElfImageLoad_confined_witness:
  "\<exists>gp' m' e. NaClElfImageLoad kGioMemoryFileVtbl (tiny_image\<lparr>loadable := [True]\<rparr>)
     (GioMemoryFileCtor [0, 0, 0, 0, 0x90, 0xF4] 6) 28 0x40000000 (\<lambda>_. 0) = Inr (gp', m', e)"
proof -
  have "gm_inv (GioMemoryFileCtor [0, 0, 0, 0, 0x90, 0xF4] 6)"
    by (simp add: gm_inv_def GioMemoryFileCtor_def)
  from NaClElfImageLoad_confined [OF this, of 28 "0x40000000" "tiny_image\<lparr>loadable := [True]\<rparr>" "0x20002" "\<lambda>_. 0"]
  show ?thesis by (auto simp: tiny_image_def text_phdr_def seg_ok_def)
qed

end
