(* ===== verification/Ncdecode.thy ===== *)
theory Ncdecode
  imports App_State
begin

text \<open>
  The table driven x86-32 instruction decoder, \<open>validator_x86/ncdecode.c\<close>. The opcode tables it
  reads are generated at build time (\<open>ncdecodetab.h\<close>) and are a parameter of every routine.
  Instruction bytes are read from the memory of the process at the addresses the C pointers hold.
  The decoder reports to its client through callbacks on a client state; they are a record of
  functions here, and the client state is threaded through the calls.
\<close>

section \<open>Types of \<open>ncdecode.h\<close>\<close>

type_synonym NaClPcAddress = "32 word"
type_synonym NaClMemorySize = "32 word"

definition kPrefixSEGCS :: u32 where "kPrefixSEGCS = 0x0001"
definition kPrefixSEGSS :: u32 where "kPrefixSEGSS = 0x0002"
definition kPrefixSEGFS :: u32 where "kPrefixSEGFS = 0x0004"
definition kPrefixSEGGS :: u32 where "kPrefixSEGGS = 0x0008"
definition kPrefixDATA16 :: u32 where "kPrefixDATA16 = 0x0010"
definition kPrefixADDR16 :: u32 where "kPrefixADDR16 = 0x0020"
definition kPrefixREPNE :: u32 where "kPrefixREPNE = 0x0040"
definition kPrefixREP :: u32 where "kPrefixREP = 0x0080"
definition kPrefixLOCK :: u32 where "kPrefixLOCK = 0x0100"
definition kPrefixSEGES :: u32 where "kPrefixSEGES = 0x0200"
definition kPrefixSEGDS :: u32 where "kPrefixSEGDS = 0x0400"

lemmas kPrefix_defs = kPrefixSEGCS_def kPrefixSEGSS_def kPrefixSEGFS_def kPrefixSEGGS_def
  kPrefixDATA16_def kPrefixADDR16_def kPrefixREPNE_def kPrefixREP_def kPrefixLOCK_def
  kPrefixSEGES_def kPrefixSEGDS_def

datatype NaClInstType =
    NACLi_UNDEFINED | NACLi_ILLEGAL | NACLi_INVALID | NACLi_SYSTEM | NACLi_386
  | NACLi_386L | NACLi_386R | NACLi_386RE | NACLi_JMP8 | NACLi_JMPZ
  | NACLi_INDIRECT | NACLi_OPINMRM | NACLi_RETURN | NACLi_SFENCE_CLFLUSH | NACLi_CMPXCHG8B
  | NACLi_CMPXCHG16B | NACLi_CMOV | NACLi_RDMSR | NACLi_RDTSC | NACLi_RDTSCP
  | NACLi_SYSCALL | NACLi_SYSENTER | NACLi_X87 | NACLi_MMX | NACLi_MMXSSE2
  | NACLi_3DNOW | NACLi_EMMX | NACLi_E3DNOW | NACLi_SSE | NACLi_SSE2
  | NACLi_SSE2x | NACLi_SSE3 | NACLi_SSE4A | NACLi_SSE41 | NACLi_SSE42
  | NACLi_MOVBE | NACLi_POPCNT | NACLi_LZCNT | NACLi_LONGMODE | NACLi_SVM
  | NACLi_SSSE3 | NACLi_3BYTE | NACLi_FCMOV | NACLi_VMX | NACLi_FXSAVE

datatype NCDecodeImmediateType =
    IMM_UNKNOWN | IMM_NONE | IMM_FIXED1 | IMM_FIXED2 | IMM_FIXED3 | IMM_FIXED4 | IMM_DATAV
  | IMM_ADDRV | IMM_GROUP3_F6 | IMM_GROUP3_F7 | IMM_FARPTR | IMM_MOV_DATAV

fun kImmTypeToSize66 :: "NCDecodeImmediateType \<Rightarrow> u8" where
  "kImmTypeToSize66 IMM_UNKNOWN = 0" | "kImmTypeToSize66 IMM_NONE = 0"
| "kImmTypeToSize66 IMM_FIXED1 = 1" | "kImmTypeToSize66 IMM_FIXED2 = 2"
| "kImmTypeToSize66 IMM_FIXED3 = 3" | "kImmTypeToSize66 IMM_FIXED4 = 4"
| "kImmTypeToSize66 IMM_DATAV = 2" | "kImmTypeToSize66 IMM_ADDRV = 4"
| "kImmTypeToSize66 IMM_GROUP3_F6 = 0" | "kImmTypeToSize66 IMM_GROUP3_F7 = 0"
| "kImmTypeToSize66 IMM_FARPTR = 6" | "kImmTypeToSize66 IMM_MOV_DATAV = 2"

fun kImmTypeToSize67 :: "NCDecodeImmediateType \<Rightarrow> u8" where
  "kImmTypeToSize67 IMM_UNKNOWN = 0" | "kImmTypeToSize67 IMM_NONE = 0"
| "kImmTypeToSize67 IMM_FIXED1 = 1" | "kImmTypeToSize67 IMM_FIXED2 = 2"
| "kImmTypeToSize67 IMM_FIXED3 = 3" | "kImmTypeToSize67 IMM_FIXED4 = 4"
| "kImmTypeToSize67 IMM_DATAV = 4" | "kImmTypeToSize67 IMM_ADDRV = 2"
| "kImmTypeToSize67 IMM_GROUP3_F6 = 0" | "kImmTypeToSize67 IMM_GROUP3_F7 = 0"
| "kImmTypeToSize67 IMM_FARPTR = 4" | "kImmTypeToSize67 IMM_MOV_DATAV = 4"

fun kImmTypeToSize :: "NCDecodeImmediateType \<Rightarrow> u8" where
  "kImmTypeToSize IMM_UNKNOWN = 0" | "kImmTypeToSize IMM_NONE = 0"
| "kImmTypeToSize IMM_FIXED1 = 1" | "kImmTypeToSize IMM_FIXED2 = 2"
| "kImmTypeToSize IMM_FIXED3 = 3" | "kImmTypeToSize IMM_FIXED4 = 4"
| "kImmTypeToSize IMM_DATAV = 4" | "kImmTypeToSize IMM_ADDRV = 4"
| "kImmTypeToSize IMM_GROUP3_F6 = 0" | "kImmTypeToSize IMM_GROUP3_F7 = 0"
| "kImmTypeToSize IMM_FARPTR = 6" | "kImmTypeToSize IMM_MOV_DATAV = 4"

record OpInfo =
  insttype :: NaClInstType
  hasmrmbyte :: u8
  op_immtype :: NCDecodeImmediateType
  opinmrm :: u8

record InstInfo =
  vaddr :: NaClPcAddress
  maddr :: uintptr_t
  prefixbytes :: u8
  hasopbyte2 :: u8
  hasopbyte3 :: u8
  hassibbyte :: u8
  mrm :: u8
  immtype :: NCDecodeImmediateType
  dispbytes :: u8
  inst_length :: u8
  prefixmask :: u32
  rexprefix :: u8

record NCDecoderState =
  mpc :: uintptr_t
  nextbyte :: uintptr_t
  dbindex :: u8
  vpc :: NaClPcAddress
  opinfo :: "OpInfo option"
  inst :: InstInfo

text \<open>
  The generated tables of \<open>ncdecodetab.h\<close>, and whether the decoder is compiled with \<open>NDEBUG\<close>, which
  turns the assertion on the immediate type into nothing.
\<close>

record DecodeTables =
  kPrefixTable :: "u8 \<Rightarrow> u32"
  kDecode1ByteOp :: "u8 \<Rightarrow> OpInfo"
  kDecode0FXXOp :: "u8 \<Rightarrow> OpInfo"
  kDecode660FXXOp :: "u8 \<Rightarrow> OpInfo"
  kDecodeF20FXXOp :: "u8 \<Rightarrow> OpInfo"
  kDecodeF30FXXOp :: "u8 \<Rightarrow> OpInfo"
  kDecode0F38Op :: "u8 \<Rightarrow> OpInfo"
  kDecode660F38Op :: "u8 \<Rightarrow> OpInfo"
  kDecodeF20F38Op :: "u8 \<Rightarrow> OpInfo"
  kDecode0F3AOp :: "u8 \<Rightarrow> OpInfo"
  kDecode660F3AOp :: "u8 \<Rightarrow> OpInfo"
  kDecode0F0FOp :: "u8 \<Rightarrow> OpInfo"
  kDecodeModRMOp :: "u8 \<Rightarrow> u8 \<Rightarrow> OpInfo"
  kDecode87D8 :: "u8 \<Rightarrow> OpInfo"
  kDecode87D9 :: "u8 \<Rightarrow> OpInfo"
  kDecode87DA :: "u8 \<Rightarrow> OpInfo"
  kDecode87DB :: "u8 \<Rightarrow> OpInfo"
  kDecode87DC :: "u8 \<Rightarrow> OpInfo"
  kDecode87DD :: "u8 \<Rightarrow> OpInfo"
  kDecode87DE :: "u8 \<Rightarrow> OpInfo"
  kDecode87DF :: "u8 \<Rightarrow> OpInfo"
  ndebug :: bool

definition kDecodeX87Op :: "DecodeTables \<Rightarrow> (u8 \<Rightarrow> OpInfo) list" where
  "kDecodeX87Op dt = [kDecode87D8 dt, kDecode87D9 dt, kDecode87DA dt, kDecode87DB dt,
                      kDecode87DC dt, kDecode87DD dt, kDecode87DE dt, kDecode87DF dt]"

text \<open>
  The callbacks registered by \<open>NCDecodeRegisterCallbacks\<close>. The action sees the ring of decoder
  states and the index of the current one, and may change memory and the client state.
\<close>

record 'v NCCallbacks =
  g_DecoderAction :: "NCDecoderState list \<Rightarrow> nat \<Rightarrow> memory \<times> 'v \<Rightarrow> (memory \<times> 'v) res"
  g_NewSegment :: "'v \<Rightarrow> 'v"
  g_SegFault :: "'v \<Rightarrow> 'v"
  g_InternalError :: "'v \<Rightarrow> 'v"

definition kDecodeBufferSize :: nat where "kDecodeBufferSize = 4"
definition kTwoByteOpcodeByte1 :: u8 where "kTwoByteOpcodeByte1 = 0x0f"
definition k3DNowOpcodeByte2 :: u8 where "k3DNowOpcodeByte2 = 0x0f"
definition kMaxPrefixBytes :: nat where "kMaxPrefixBytes = 4"

definition modrm_mod :: "u8 \<Rightarrow> u8" where "modrm_mod modrm = drop_bit 6 modrm AND 0x03"
definition modrm_rm :: "u8 \<Rightarrow> u8" where "modrm_rm modrm = modrm AND 0x07"
definition modrm_reg :: "u8 \<Rightarrow> u8" where "modrm_reg modrm = drop_bit 3 modrm AND 0x07"
definition modrm_opcode :: "u8 \<Rightarrow> u8" where "modrm_opcode modrm = modrm_reg modrm"
definition sib_base :: "u8 \<Rightarrow> u8" where "sib_base sib = sib AND 0x07"

section \<open>One instruction\<close>

definition ErrorSegmentation :: "'v NCCallbacks \<Rightarrow> 'v \<Rightarrow> 'v" where
  "ErrorSegmentation cb vstate = g_SegFault cb vstate"

definition ErrorInternal :: "'v NCCallbacks \<Rightarrow> 'v \<Rightarrow> 'v" where
  "ErrorInternal cb vstate = g_InternalError cb vstate"

definition InitDecoder :: "NCDecoderState \<Rightarrow> NCDecoderState" where
  "InitDecoder mstate = mstate\<lparr>
     inst := \<lparr>vaddr = vpc mstate, maddr = mpc mstate, prefixbytes = 0, hasopbyte2 = 0, hasopbyte3 = 0,
              hassibbyte = 0, mrm = 0, immtype = IMM_UNKNOWN, dispbytes = 0, inst_length = 0,
              prefixmask = 0, rexprefix = 0\<rparr>,
     opinfo := None\<rparr>"

text \<open>\<open>NACL_TARGET_SUBARCH\<close> is 32 in this build, so the REX branches are dead.\<close>

definition ExtractOperandSize :: "NCDecoderState \<Rightarrow> u32" where
  "ExtractOperandSize mstate = (if prefixmask (inst mstate) AND kPrefixDATA16 \<noteq> 0 then 2 else 4)"

definition consume_prefix :: "u32 \<Rightarrow> NCDecoderState \<Rightarrow> NCDecoderState" where
  "consume_prefix prefix_form mstate = mstate\<lparr>
     inst := (inst mstate)\<lparr>prefixmask := prefixmask (inst mstate) OR prefix_form OR prefix_form,
                           prefixbytes := prefixbytes (inst mstate) + 1\<rparr>,
     nextbyte := nextbyte mstate + 1\<rparr>"

fun prefix_loop :: "DecodeTables \<Rightarrow> memory \<Rightarrow> nat \<Rightarrow> NCDecoderState \<Rightarrow> NCDecoderState" where
  "prefix_loop dt m 0 mstate = mstate"
| "prefix_loop dt m (Suc n) mstate =
     (let prefix_form = kPrefixTable dt (m (nextbyte mstate)) in
      if prefix_form = 0 then mstate
      else prefix_loop dt m n (consume_prefix prefix_form mstate))"

definition ConsumePrefixBytes :: "DecodeTables \<Rightarrow> memory \<Rightarrow> NCDecoderState \<Rightarrow> NCDecoderState" where
  "ConsumePrefixBytes dt m mstate = prefix_loop dt m kMaxPrefixBytes mstate"

definition GetExtendedOpInfo ::
    "'v NCCallbacks \<Rightarrow> DecodeTables \<Rightarrow> NCDecoderState \<Rightarrow> u8 \<Rightarrow> 'v \<Rightarrow> OpInfo option \<times> 'v" where
  "GetExtendedOpInfo cb dt mstate opbyte2 vstate =
     (let pm = prefixmask (inst mstate) in
      if pm AND (kPrefixDATA16 OR kPrefixREPNE OR kPrefixREP) = 0
        then (Some (kDecode0FXXOp dt opbyte2), vstate)
      else if pm AND kPrefixDATA16 \<noteq> 0 then (Some (kDecode660FXXOp dt opbyte2), vstate)
      else if pm AND kPrefixREPNE \<noteq> 0 then (Some (kDecodeF20FXXOp dt opbyte2), vstate)
      else if pm AND kPrefixREP \<noteq> 0 then (Some (kDecodeF30FXXOp dt opbyte2), vstate)
      else (opinfo mstate, ErrorInternal cb vstate))"

definition GetX87OpInfo ::
    "'v NCCallbacks \<Rightarrow> DecodeTables \<Rightarrow> memory \<Rightarrow> NCDecoderState \<Rightarrow> 'v \<Rightarrow> NCDecoderState \<times> 'v" where
  "GetX87OpInfo cb dt m mstate vstate =
     (let op1 = m (maddr (inst mstate) + ucast (prefixbytes (inst mstate))) in
      if op1 < 0xd8 \<or> op1 > 0xdf then
        (if op1 \<noteq> 0x9b then (mstate, ErrorInternal cb vstate) else (mstate, vstate))
      else (mstate\<lparr>opinfo := Some ((kDecodeX87Op dt ! unat (op1 - 0xd8)) (mrm (inst mstate)))\<rparr>, vstate))"

text \<open>The \<open>switch\<close> on the second opcode byte of a three byte opcode.\<close>

definition three_byte_opinfo ::
    "'v NCCallbacks \<Rightarrow> DecodeTables \<Rightarrow> u32 \<Rightarrow> u8 \<Rightarrow> u8 \<Rightarrow> OpInfo \<Rightarrow> 'v \<Rightarrow> OpInfo \<times> 'v" where
  "three_byte_opinfo cb dt pm opcode2 opcode3 op vstate =
     (if opcode2 = 0x38 then
        (if pm AND kPrefixDATA16 \<noteq> 0 then (kDecode660F38Op dt opcode3, vstate)
         else if pm AND kPrefixREPNE \<noteq> 0 then (kDecodeF20F38Op dt opcode3, vstate)
         else if pm = 0 then (kDecode0F38Op dt opcode3, vstate)
         else (op, ErrorInternal cb vstate))
      else if opcode2 = 0x3A then
        (if pm AND kPrefixDATA16 \<noteq> 0 then (kDecode660F3AOp dt opcode3, vstate)
         else if pm = 0 then (kDecode0F3AOp dt opcode3, vstate)
         else (op, ErrorInternal cb vstate))
      else (op, ErrorInternal cb vstate))"

definition set_opcode :: "OpInfo \<Rightarrow> NCDecoderState \<Rightarrow> NCDecoderState" where
  "set_opcode op mstate =
     mstate\<lparr>opinfo := Some op, inst := (inst mstate)\<lparr>immtype := op_immtype op\<rparr>\<rparr>"

definition ConsumeOpcodeBytes ::
    "'v NCCallbacks \<Rightarrow> DecodeTables \<Rightarrow> memory \<Rightarrow> NCDecoderState \<Rightarrow> 'v \<Rightarrow> (NCDecoderState \<times> 'v) res" where
  "ConsumeOpcodeBytes cb dt m mstate vstate =
     (let opcode = m (nextbyte mstate);
          op1 = kDecode1ByteOp dt opcode;
          ms1 = mstate\<lparr>opinfo := Some op1, nextbyte := nextbyte mstate + 1\<rparr> in
      if opcode \<noteq> kTwoByteOpcodeByte1 then Inr (set_opcode op1 ms1, vstate)
      else
        let opcode2 = m (nextbyte ms1) in
        case GetExtendedOpInfo cb dt ms1 opcode2 vstate of (op2, v1) \<Rightarrow>
        let ms2 = ms1\<lparr>opinfo := op2, inst := (inst ms1)\<lparr>hasopbyte2 := 1\<rparr>, nextbyte := nextbyte ms1 + 1\<rparr> in
        case op2 of None \<Rightarrow> Inl NullDeref
        | Some op \<Rightarrow>
          if insttype op = NACLi_3BYTE then
            let opcode3 = m (nextbyte ms2);
                ms3 = ms2\<lparr>nextbyte := nextbyte ms2 + 1, inst := (inst ms2)\<lparr>hasopbyte3 := 1\<rparr>\<rparr> in
            case three_byte_opinfo cb dt (prefixmask (inst mstate)) opcode2 opcode3 op v1 of (op3, v2) \<Rightarrow>
            Inr (set_opcode op3 ms3, v2)
          else Inr (set_opcode op ms2, v1))"

text \<open>Displacement sizes for 16-bit and 32-bit addressing; \<open>None\<close> is the \<open>default\<close> error branch.\<close>

definition disp_addr16 :: "u8 \<Rightarrow> u8 option" where
  "disp_addr16 mb =
     (if modrm_mod mb = 0 then (if modrm_rm mb = 0x06 then Some 2 else Some 0)
      else if modrm_mod mb = 1 then Some 1
      else if modrm_mod mb = 2 then Some 2
      else if modrm_mod mb = 3 then Some 0 else None)"

definition disp_addr32 :: "u8 \<Rightarrow> u8 option" where
  "disp_addr32 mb =
     (if modrm_mod mb = 0 then (if modrm_rm mb = 0x05 then Some 4 else Some 0)
      else if modrm_mod mb = 1 then Some 1
      else if modrm_mod mb = 2 then Some 4
      else if modrm_mod mb = 3 then Some 0 else None)"

definition set_disp :: "'v NCCallbacks \<Rightarrow> u8 option \<Rightarrow> u8 \<Rightarrow> NCDecoderState \<Rightarrow> 'v \<Rightarrow> NCDecoderState \<times> 'v" where
  "set_disp cb d sib mstate vstate =
     (case d of
        Some n \<Rightarrow> (mstate\<lparr>inst := (inst mstate)\<lparr>dispbytes := n, hassibbyte := sib\<rparr>\<rparr>, vstate)
      | None \<Rightarrow> (mstate\<lparr>inst := (inst mstate)\<lparr>hassibbyte := sib\<rparr>\<rparr>, ErrorInternal cb vstate))"

definition modrm_addressing :: "'v NCCallbacks \<Rightarrow> u8 \<Rightarrow> NCDecoderState \<Rightarrow> 'v \<Rightarrow> NCDecoderState \<times> 'v" where
  "modrm_addressing cb mb mstate vstate =
     (if prefixmask (inst mstate) AND kPrefixADDR16 \<noteq> 0 then set_disp cb (disp_addr16 mb) 0 mstate vstate
      else set_disp cb (disp_addr32 mb)
             (if modrm_rm mb = 0x04 \<and> modrm_mod mb \<noteq> 3 then 1 else 0) mstate vstate)"

text \<open>
  The opcode extension in the ModRM byte; an unknown immediate type fails the assertion, or with
  \<open>NDEBUG\<close> is replaced by the one of the extended opcode.
\<close>

definition modrm_opcode_extension ::
    "DecodeTables \<Rightarrow> u8 \<Rightarrow> OpInfo \<Rightarrow> NCDecoderState \<Rightarrow> NCDecoderState res" where
  "modrm_opcode_extension dt mb op mstate =
     (if opinmrm op = 0 then Inr mstate
      else if immtype (inst mstate) = IMM_UNKNOWN \<and> \<not> ndebug dt then Inl CheckFailed
      else
        let mopinfo = kDecodeModRMOp dt (opinmrm op) (modrm_opcode mb);
            it = (if immtype (inst mstate) = IMM_UNKNOWN then op_immtype mopinfo else immtype (inst mstate));
            it' = (if modrm_opcode mb = 0 then
                     (if it = IMM_GROUP3_F6 then IMM_FIXED1
                      else if it = IMM_GROUP3_F7 then IMM_DATAV else it)
                   else it) in
        Inr (mstate\<lparr>opinfo := Some mopinfo,
                    inst := (inst mstate)\<lparr>immtype := it'\<rparr>\<rparr>))"

definition ConsumeModRM ::
    "'v NCCallbacks \<Rightarrow> DecodeTables \<Rightarrow> memory \<Rightarrow> NCDecoderState \<Rightarrow> 'v \<Rightarrow> (NCDecoderState \<times> 'v) res" where
  "ConsumeModRM cb dt m mstate vstate =
     (case opinfo mstate of None \<Rightarrow> Inl NullDeref
      | Some op \<Rightarrow>
        if hasmrmbyte op = 0 then Inr (mstate, vstate)
        else
          let mb = m (nextbyte mstate);
              ms1 = mstate\<lparr>inst := (inst mstate)\<lparr>mrm := mb\<rparr>, nextbyte := nextbyte mstate + 1\<rparr> in
          case (if insttype op = NACLi_X87 then GetX87OpInfo cb dt m ms1 vstate else (ms1, vstate)) of
            (ms2, v2) \<Rightarrow>
          case opinfo ms2 of None \<Rightarrow> Inl NullDeref
          | Some op2 \<Rightarrow>
            bind_res (modrm_opcode_extension dt mb op2 ms2)
              (\<lambda>ms3. Inr (modrm_addressing cb mb ms3 v2)))"

definition ConsumeSIB ::
    "'v NCCallbacks \<Rightarrow> memory \<Rightarrow> NCDecoderState \<Rightarrow> 'v \<Rightarrow> NCDecoderState \<times> 'v" where
  "ConsumeSIB cb m mstate vstate =
     (if hassibbyte (inst mstate) = 0 then (mstate, vstate)
      else
        let sib = m (nextbyte mstate);
            ms1 = mstate\<lparr>nextbyte := nextbyte mstate + 1\<rparr>;
            md = modrm_mod (mrm (inst mstate)) in
        if sib_base sib \<noteq> 0x05 then (ms1, vstate)
        else if md = 0 then (ms1\<lparr>inst := (inst ms1)\<lparr>dispbytes := 4\<rparr>\<rparr>, vstate)
        else if md = 1 then (ms1\<lparr>inst := (inst ms1)\<lparr>dispbytes := 1\<rparr>\<rparr>, vstate)
        else if md = 2 then (ms1\<lparr>inst := (inst ms1)\<lparr>dispbytes := 4\<rparr>\<rparr>, vstate)
        else (ms1, ErrorInternal cb vstate))"

definition imm_size :: "NCDecoderState \<Rightarrow> u32" where
  "imm_size mstate =
     (let it = immtype (inst mstate); pm = prefixmask (inst mstate) in
      if it = IMM_MOV_DATAV then ExtractOperandSize mstate
      else if pm AND kPrefixDATA16 \<noteq> 0 then ucast (kImmTypeToSize66 it)
      else if pm AND kPrefixADDR16 \<noteq> 0 then ucast (kImmTypeToSize67 it)
      else ucast (kImmTypeToSize it))"

definition ConsumeID :: "'v NCCallbacks \<Rightarrow> NCDecoderState \<Rightarrow> 'v \<Rightarrow> NCDecoderState \<times> 'v" where
  "ConsumeID cb mstate vstate =
     (let v1 = (if immtype (inst mstate) = IMM_UNKNOWN then ErrorInternal cb vstate else vstate);
          nb = nextbyte mstate + imm_size mstate + ucast (dispbytes (inst mstate));
          len = nb - mpc mstate;
          ms1 = mstate\<lparr>nextbyte := nb, inst := (inst mstate)\<lparr>inst_length := ucast (len AND 0xff)\<rparr>\<rparr> in
      (ms1, if ucast (inst_length (inst ms1)) \<noteq> len then ErrorInternal cb v1 else v1))"

definition MaybeGet3ByteOpInfo :: "DecodeTables \<Rightarrow> memory \<Rightarrow> NCDecoderState \<Rightarrow> NCDecoderState res" where
  "MaybeGet3ByteOpInfo dt m mstate =
     (case opinfo mstate of None \<Rightarrow> Inl NullDeref
      | Some op \<Rightarrow>
        if insttype op \<noteq> NACLi_3DNOW then Inr mstate
        else
          let opbyte1 = m (mpc mstate + ucast (prefixbytes (inst mstate)));
              opbyte2 = m (mpc mstate + ucast (prefixbytes (inst mstate)) + 1);
              immbyte = m (mpc mstate + (ucast (inst_length (inst mstate)) - 1)) in
          if opbyte1 = kTwoByteOpcodeByte1 \<and> opbyte2 = k3DNowOpcodeByte2
          then Inr (mstate\<lparr>opinfo := Some (kDecode0F0FOp dt immbyte)\<rparr>)
          else Inr mstate)"

definition ConsumeNextInstruction ::
    "'v NCCallbacks \<Rightarrow> DecodeTables \<Rightarrow> memory \<Rightarrow> NCDecoderState \<Rightarrow> 'v
      \<Rightarrow> (NaClPcAddress \<times> NCDecoderState \<times> 'v) res" where
  "ConsumeNextInstruction cb dt m mstate vstate =
     bind_res (ConsumeOpcodeBytes cb dt m (ConsumePrefixBytes dt m (InitDecoder mstate)) vstate) (\<lambda>(ms2, v2).
     bind_res (ConsumeModRM cb dt m ms2 v2) (\<lambda>(ms3, v3).
     case ConsumeSIB cb m ms3 v3 of (ms4, v4) \<Rightarrow>
     case ConsumeID cb ms4 v4 of (ms5, v5) \<Rightarrow>
     bind_res (MaybeGet3ByteOpInfo dt m ms5) (\<lambda>ms6.
     Inr (vpc ms6 + ucast (inst_length (inst ms6)), ms6, v5))))"

section \<open>The ring of decoder states and the two decoding loops\<close>

definition PreviousInst :: "NCDecoderState list \<Rightarrow> NCDecoderState \<Rightarrow> int \<Rightarrow> nat" where
  "PreviousInst decodebuffer mstate nindex =
     nat ((int (unat (dbindex mstate)) + nindex + int kDecodeBufferSize) AND (int kDecodeBufferSize - 1))"

text \<open>\<open>decodebuffer\<close> is an uninitialised array on the stack; its contents are an argument.\<close>

definition init_slot :: "nat \<Rightarrow> NCDecoderState \<Rightarrow> NCDecoderState" where
  "init_slot i mstate = mstate\<lparr>dbindex := of_nat i, inst := (inst mstate)\<lparr>inst_length := 0\<rparr>, vpc := 0, mpc := 0\<rparr>"

definition InitDecodeBuffer ::
    "uintptr_t \<Rightarrow> NaClPcAddress \<Rightarrow> NCDecoderState list \<Rightarrow> NCDecoderState list \<times> nat" where
  "InitDecodeBuffer mbase vbase decodebuffer =
     (let db = map (\<lambda>i. init_slot i (decodebuffer ! i)) [0..<kDecodeBufferSize] in
      (db[0 := (db ! 0)\<lparr>mpc := mbase, nextbyte := mbase, vpc := vbase\<rparr>], 0))"

definition IncrementDecodeBuffer :: "NCDecoderState list \<Rightarrow> nat \<Rightarrow> NCDecoderState list \<times> nat" where
  "IncrementDecodeBuffer decodebuffer cur =
     (let mstate = decodebuffer ! cur; nxt = PreviousInst decodebuffer mstate 1 in
      (decodebuffer[nxt := (decodebuffer ! nxt)\<lparr>
          vpc := vpc mstate + ucast (inst_length (inst mstate)),
          mpc := mpc mstate + ucast (inst_length (inst mstate)),
          nextbyte := nextbyte mstate\<rparr>], nxt))"

text \<open>The loop of \<open>NCDecodeSegment\<close>; \<open>None\<close> is a run that never ends.\<close>

partial_function (option) decode_loop ::
    "'v NCCallbacks \<Rightarrow> DecodeTables \<Rightarrow> NaClPcAddress \<Rightarrow> NCDecoderState list \<Rightarrow> nat \<Rightarrow> memory \<Rightarrow> 'v
      \<Rightarrow> (memory \<times> 'v) res option" where
  "decode_loop cb dt vlimit db cur m vstate =
     (if \<not> vpc (db ! cur) < vlimit then Some (Inr (m, vstate))
      else case ConsumeNextInstruction cb dt m (db ! cur) vstate of
        Inl e \<Rightarrow> Some (Inl e)
      | Inr (newpc, mstate, v1) \<Rightarrow>
          if newpc > vlimit then Some (Inr (m, ErrorSegmentation cb v1))
          else case g_DecoderAction cb (db[cur := mstate]) cur (m, v1) of
            Inl e \<Rightarrow> Some (Inl e)
          | Inr (m2, v2) \<Rightarrow>
              (case IncrementDecodeBuffer (db[cur := mstate]) cur of (db2, cur2) \<Rightarrow>
                decode_loop cb dt vlimit db2 cur2 m2 v2))"

definition NCDecodeSegment ::
    "'v NCCallbacks \<Rightarrow> DecodeTables \<Rightarrow> NCDecoderState list \<Rightarrow> uintptr_t \<Rightarrow> NaClPcAddress \<Rightarrow> NaClMemorySize
      \<Rightarrow> memory \<Rightarrow> 'v \<Rightarrow> (memory \<times> 'v) res option" where
  "NCDecodeSegment cb dt stack mbase vbase sz m vstate =
     (case InitDecodeBuffer mbase vbase stack of (db, cur) \<Rightarrow>
      decode_loop cb dt (vbase + sz) db cur m (g_NewSegment cb vstate))"

type_synonym 'v pair_action =
  "NCDecoderState list \<Rightarrow> nat \<Rightarrow> NCDecoderState list \<Rightarrow> nat \<Rightarrow> memory \<times> 'v \<Rightarrow> (memory \<times> 'v) res"

partial_function (option) decode_pair_loop ::
    "'v NCCallbacks \<Rightarrow> DecodeTables \<Rightarrow> 'v pair_action \<Rightarrow> NaClPcAddress \<Rightarrow> NCDecoderState list \<Rightarrow> nat
      \<Rightarrow> NCDecoderState list \<Rightarrow> nat \<Rightarrow> memory \<Rightarrow> 'v \<Rightarrow> (memory \<times> 'v) res option" where
  "decode_pair_loop cb dt action vlimit dbo curo dbn curn m vstate =
     (if \<not> (vpc (dbo ! curo) < vlimit \<and> vpc (dbn ! curn) < vlimit) then Some (Inr (m, vstate))
      else case ConsumeNextInstruction cb dt m (dbo ! curo) vstate of
        Inl e \<Rightarrow> Some (Inl e)
      | Inr (newpc_old, mstate_old, v1) \<Rightarrow>
        (case ConsumeNextInstruction cb dt m (dbn ! curn) v1 of
          Inl e \<Rightarrow> Some (Inl e)
        | Inr (newpc_new, mstate_new, v2) \<Rightarrow>
            if newpc_old \<noteq> newpc_new then Some (Inr (m, ErrorSegmentation cb v2))
            else if newpc_new > vlimit then Some (Inr (m, ErrorSegmentation cb v2))
            else case action (dbo[curo := mstate_old]) curo (dbn[curn := mstate_new]) curn (m, v2) of
              Inl e \<Rightarrow> Some (Inl e)
            | Inr (m3, v3) \<Rightarrow>
                (case IncrementDecodeBuffer (dbo[curo := mstate_old]) curo of (dbo2, curo2) \<Rightarrow>
                 case IncrementDecodeBuffer (dbn[curn := mstate_new]) curn of (dbn2, curn2) \<Rightarrow>
                  decode_pair_loop cb dt action vlimit dbo2 curo2 dbn2 curn2 m3 v3)))"

declare decode_loop.simps [code] decode_pair_loop.simps [code]

definition NCDecodeSegmentPair ::
    "'v NCCallbacks \<Rightarrow> DecodeTables \<Rightarrow> NCDecoderState list \<Rightarrow> NCDecoderState list \<Rightarrow> uintptr_t \<Rightarrow> uintptr_t
      \<Rightarrow> NaClPcAddress \<Rightarrow> NaClMemorySize \<Rightarrow> 'v pair_action \<Rightarrow> memory \<Rightarrow> 'v \<Rightarrow> (memory \<times> 'v) res option" where
  "NCDecodeSegmentPair cb dt stack_old stack_new mbase_old mbase_new vbase sz action m vstate =
     (case InitDecodeBuffer mbase_old vbase stack_old of (dbo, curo) \<Rightarrow>
      case InitDecodeBuffer mbase_new vbase stack_new of (dbn, curn) \<Rightarrow>
      decode_pair_loop cb dt action (vbase + sz) dbo curo dbn curn m (g_NewSegment cb vstate))"

section \<open>How far one instruction reaches\<close>

text \<open>
  \<open>decoding a p j ms\<close>: the state \<open>ms\<close> is decoding the instruction at memory address \<open>a\<close> and
  program address \<open>p\<close> and has consumed \<open>j\<close> bytes of it.
\<close>

definition decoding :: "uintptr_t \<Rightarrow> NaClPcAddress \<Rightarrow> u8 \<Rightarrow> nat \<Rightarrow> NCDecoderState \<Rightarrow> bool" where
  "decoding a p d j ms \<longleftrightarrow>
     mpc ms = a \<and> vpc ms = p \<and> dbindex ms = d \<and> vaddr (inst ms) = p \<and> maddr (inst ms) = a \<and>
     nextbyte ms = a + of_nat j \<and> unat (prefixbytes (inst ms)) \<le> 4 \<and> dispbytes (inst ms) \<in> {0, 1, 2, 4}"

lemma InitDecoder_decoding:
  assumes "nextbyte ms = mpc ms"
  shows "decoding (mpc ms) (vpc ms) (dbindex ms) 0 (InitDecoder ms)"
  using assms by (simp add: decoding_def InitDecoder_def)

lemma prefix_loop_decoding:
  assumes "decoding a p d j ms" and "unat (prefixbytes (inst ms)) + n \<le> 4"
  shows "\<exists>k \<le> n. decoding a p d (j + k) (prefix_loop dt m n ms)"
  using assms
proof (induction n arbitrary: j ms)
  case 0
  then show ?case by simp
next
  case (Suc n)
  define pf where "pf = kPrefixTable dt (m (nextbyte ms))"
  show ?case
  proof (cases "pf = 0")
    case True
    then have "prefix_loop dt m (Suc n) ms = ms" by (simp add: pf_def)
    then show ?thesis using Suc.prems(1) by (intro exI [of _ 0]) simp
  next
    case False
    have pb: "unat (prefixbytes (inst ms) + 1) = unat (prefixbytes (inst ms)) + 1"
      using Suc.prems(2) unat_add_no_wrap [of "prefixbytes (inst ms)" 1] by simp
    have "decoding a p d (j + 1) (consume_prefix pf ms)"
      using Suc.prems pb by (simp add: decoding_def consume_prefix_def algebra_simps)
    moreover have "unat (prefixbytes (inst (consume_prefix pf ms))) + n \<le> 4"
      using Suc.prems(2) pb by (simp add: consume_prefix_def)
    ultimately obtain k where "k \<le> n" "decoding a p d (j + 1 + k) (prefix_loop dt m n (consume_prefix pf ms))"
      using Suc.IH by blast
    then show ?thesis using False by (intro exI [of _ "Suc k"]) (simp add: pf_def [symmetric] Let_def)
  qed
qed

lemma ConsumePrefixBytes_decoding:
  assumes "nextbyte ms = mpc ms"
  shows "\<exists>k \<le> 4. decoding (mpc ms) (vpc ms) (dbindex ms) k (ConsumePrefixBytes dt m (InitDecoder ms))"
  using prefix_loop_decoding [OF InitDecoder_decoding [OF assms], of 4 dt m]
  by (simp add: ConsumePrefixBytes_def kMaxPrefixBytes_def InitDecoder_def)

lemma set_opcode_decoding [simp]: "decoding a p d j (set_opcode op ms) = decoding a p d j ms"
  by (simp add: set_opcode_def decoding_def)

lemma opinfo_set_opcode [simp]: "opinfo (set_opcode op ms) = Some op"
  by (simp add: set_opcode_def)

text \<open>The three ways \<open>ConsumeOpcodeBytes\<close> returns.\<close>

lemma ConsumeOpcodeBytes_cases:
  assumes "ConsumeOpcodeBytes cb dt m ms v = Inr (ms', v')"
  obtains (one) op where "ms' = set_opcode op (ms\<lparr>opinfo := Some op, nextbyte := nextbyte ms + 1\<rparr>)"
  | (two) op where "ms' = set_opcode op (ms\<lparr>opinfo := Some op,
      inst := (inst ms)\<lparr>hasopbyte2 := 1\<rparr>, nextbyte := nextbyte ms + 1 + 1\<rparr>)"
  | (three) op0 op where "ms' = set_opcode op (ms\<lparr>opinfo := Some op0, nextbyte := nextbyte ms + 1 + 1 + 1,
      inst := (inst ms)\<lparr>hasopbyte2 := 1, hasopbyte3 := 1\<rparr>\<rparr>)"
proof (cases "m (nextbyte ms) = kTwoByteOpcodeByte1")
  case False
  then show ?thesis using assms one [of "kDecode1ByteOp dt (m (nextbyte ms))"]
    by (simp add: ConsumeOpcodeBytes_def Let_def)
next
  case True
  obtain op2 v1 where g: "GetExtendedOpInfo cb dt
      (ms\<lparr>opinfo := Some (kDecode1ByteOp dt (m (nextbyte ms))), nextbyte := nextbyte ms + 1\<rparr>)
      (m (nextbyte ms + 1)) v = (op2, v1)" by fastforce
  obtain op where op: "op2 = Some op"
    using assms True g by (cases op2) (simp_all add: ConsumeOpcodeBytes_def Let_def)
  show ?thesis
  proof (cases "insttype op = NACLi_3BYTE")
    case False
    then show ?thesis using assms True g op two [of op] by (simp add: ConsumeOpcodeBytes_def Let_def)
  next
    case t: True
    obtain op3 v2 where g3: "three_byte_opinfo cb dt (prefixmask (inst ms)) (m (nextbyte ms + 1))
        (m (nextbyte ms + 1 + 1)) op v1 = (op3, v2)" by fastforce
    show ?thesis using assms True g op t three [of op3 op] g3
      by (simp add: ConsumeOpcodeBytes_def Let_def)
  qed
qed

lemma ConsumeOpcodeBytes_decoding:
  assumes "decoding a p d j ms" and "ConsumeOpcodeBytes cb dt m ms v = Inr (ms', v')"
  shows "(\<exists>k \<in> {1, 2, 3}. decoding a p d (j + k) ms') \<and> opinfo ms' \<noteq> None"
  using assms(2)
proof (cases rule: ConsumeOpcodeBytes_cases)
  case one
  then show ?thesis using assms(1) by (simp add: decoding_def set_opcode_def algebra_simps)
next
  case two
  then show ?thesis using assms(1) by (simp add: decoding_def set_opcode_def algebra_simps)
next
  case three
  then show ?thesis using assms(1) by (simp add: decoding_def set_opcode_def algebra_simps)
qed

lemma disp_values:
  "disp_addr16 mb = Some n \<Longrightarrow> n \<in> {0, 1, 2, 4}" "disp_addr32 mb = Some n \<Longrightarrow> n \<in> {0, 1, 2, 4}"
  by (auto simp: disp_addr16_def disp_addr32_def split: if_splits)

lemma modrm_addressing_decoding:
  assumes "decoding a p d j ms"
  shows "decoding a p d j (fst (modrm_addressing cb mb ms v))"
  using assms disp_values(1) [of mb] disp_values(2) [of mb]
  by (auto simp: modrm_addressing_def set_disp_def decoding_def split: option.splits)

lemma modrm_addressing_opinfo [simp]: "opinfo (fst (modrm_addressing cb mb ms v)) = opinfo ms"
  by (simp add: modrm_addressing_def set_disp_def split: option.splits)

lemma modrm_opcode_extension_decoding:
  assumes "decoding a p d j ms" and "modrm_opcode_extension dt mb op ms = Inr ms'"
  shows "decoding a p d j ms'" and "opinfo ms \<noteq> None \<Longrightarrow> opinfo ms' \<noteq> None"
  using assms by (auto simp: modrm_opcode_extension_def Let_def decoding_def split: if_splits)

lemma GetX87OpInfo_decoding:
  assumes "decoding a p d j ms"
  shows "decoding a p d j (fst (GetX87OpInfo cb dt m ms v))"
  using assms by (simp add: GetX87OpInfo_def Let_def decoding_def)

lemma ConsumeModRM_decoding:
  assumes "decoding a p d j ms" and "ConsumeModRM cb dt m ms v = Inr (ms', v')"
  shows "(\<exists>k \<le> 1. decoding a p d (j + k) ms') \<and> opinfo ms' \<noteq> None"
proof -
  obtain op where op: "opinfo ms = Some op" using assms(2)
    by (auto simp: ConsumeModRM_def split: option.splits)
  show ?thesis
  proof (cases "hasmrmbyte op = 0")
    case True
    then show ?thesis using assms op by (auto simp: ConsumeModRM_def intro: exI [of _ 0])
  next
    case False
    define mb where "mb = m (nextbyte ms)"
    define ms1 where "ms1 = ms\<lparr>inst := (inst ms)\<lparr>mrm := mb\<rparr>, nextbyte := nextbyte ms + 1\<rparr>"
    obtain ms2 v2 where s2: "(if insttype op = NACLi_X87 then GetX87OpInfo cb dt m ms1 v else (ms1, v)) = (ms2, v2)"
      by fastforce
    have d1: "decoding a p d (j + 1) ms1"
      using assms(1) by (simp add: ms1_def decoding_def algebra_simps)
    have d2: "decoding a p d (j + 1) ms2"
      using d1 GetX87OpInfo_decoding [OF d1, of cb dt m v] s2 by (auto split: if_splits)
    obtain op2 ms3 where o2: "opinfo ms2 = Some op2" and s3: "modrm_opcode_extension dt mb op2 ms2 = Inr ms3"
      and r: "(ms', v') = modrm_addressing cb mb ms3 v2"
    proof -
      have "ConsumeModRM cb dt m ms v = (case opinfo ms2 of None \<Rightarrow> Inl NullDeref
          | Some op2 \<Rightarrow> bind_res (modrm_opcode_extension dt mb op2 ms2)
              (\<lambda>ms3. Inr (modrm_addressing cb mb ms3 v2)))"
        unfolding ConsumeModRM_def op Let_def option.case mb_def [symmetric] ms1_def [symmetric] s2
        using False by simp
      then have "(case opinfo ms2 of None \<Rightarrow> Inl NullDeref
          | Some op2 \<Rightarrow> bind_res (modrm_opcode_extension dt mb op2 ms2)
              (\<lambda>ms3. Inr (modrm_addressing cb mb ms3 v2))) = Inr (ms', v')"
        using assms(2) by simp
      then show thesis using that by (cases "opinfo ms2") (auto simp: bind_res_Inr_iff)
    qed
    have "decoding a p d (j + 1) ms3" "opinfo ms3 \<noteq> None"
      using modrm_opcode_extension_decoding [OF d2 s3] o2 by simp_all
    moreover have "ms' = fst (modrm_addressing cb mb ms3 v2)" using r by (simp flip: r)
    ultimately have "decoding a p d (j + 1) ms'" "opinfo ms' \<noteq> None"
      using modrm_addressing_decoding [of a p d "j + 1" ms3 cb mb v2] by simp_all
    then show ?thesis by (intro conjI exI [of _ 1]) simp_all
  qed
qed

lemma modrm_addressing_result: "modrm_addressing cb mb ms v = (ms', v') \<Longrightarrow> opinfo ms' = opinfo ms"
  using modrm_addressing_opinfo [of cb mb ms v] by simp

lemma ConsumeModRM_keeps_opinfo:
  assumes "ConsumeModRM cb dt m ms v = Inr (ms', v')"
  shows "\<exists>op. opinfo ms' = Some op"
  using assms
  by (auto simp: ConsumeModRM_def modrm_opcode_extension_def Let_def bind_res_Inr_iff
      split: option.splits prod.splits if_splits dest: modrm_addressing_result)

lemma ConsumeSIB_decoding:
  assumes "decoding a p d j ms" and "ConsumeSIB cb m ms v = (ms', v')"
  shows "(\<exists>k \<le> 1. decoding a p d (j + k) ms') \<and> opinfo ms' = opinfo ms"
proof (cases "hassibbyte (inst ms) = 0")
  case True
  then show ?thesis using assms by (auto simp: ConsumeSIB_def intro: exI [of _ 0])
next
  case False
  then have "decoding a p d (j + 1) ms'" "opinfo ms' = opinfo ms"
    using assms by (auto simp: ConsumeSIB_def Let_def decoding_def algebra_simps split: if_splits)
  then show ?thesis by (intro conjI exI [of _ 1]) simp_all
qed

lemma imm_size_bound: "\<exists>k \<le> 6. imm_size ms = of_nat k"
proof -
  have "imm_size ms \<in> {0, 1, 2, 3, 4, 6}"
    by (cases "immtype (inst ms)") (simp_all add: imm_size_def ExtractOperandSize_def Let_def)
  then show ?thesis
    by (auto intro: exI [of _ 0] exI [of _ 1] exI [of _ 2] exI [of _ 3] exI [of _ 4] exI [of _ 6])
qed

lemma disp_bound: "db \<in> {0, 1, 2, 4} \<Longrightarrow> \<exists>k \<le> 4. ucast (db :: u8) = (of_nat k :: u32)"
  by (auto intro: exI [of _ 0] exI [of _ 1] exI [of _ 2] exI [of _ 4])

lemma length_byte:
  assumes "n < 256"
  shows "unat (ucast ((of_nat n :: u32) AND 0xff) :: u8) = n"
    and "ucast (ucast ((of_nat n :: u32) AND 0xff) :: u8) = (of_nat n :: u32)"
proof -
  have "unat ((of_nat n :: u32) AND mask 8) = n"
    using assms by (simp add: unat_and_mask_mod unat_of_nat)
  moreover have "(0xff :: u32) = mask 8" by (simp add: mask_eq_exp_minus_1)
  ultimately have u: "unat ((of_nat n :: u32) AND 0xff) = n" by simp
  then show l: "unat (ucast ((of_nat n :: u32) AND 0xff) :: u8) = n"
    using assms by (simp add: unsigned_ucast_eq take_bit_nat_eq_self)
  show "ucast (ucast ((of_nat n :: u32) AND 0xff) :: u8) = (of_nat n :: u32)"
  proof (rule word_unat_eq_iff [THEN iffD2])
    have "unat (ucast (ucast ((of_nat n :: u32) AND 0xff) :: u8) :: u32) = take_bit 32 n"
      unfolding unsigned_ucast_eq [of "ucast ((of_nat n :: u32) AND 0xff) :: u8"] l by simp
    then show "unat (ucast (ucast ((of_nat n :: u32) AND 0xff) :: u8) :: u32) = unat (of_nat n :: u32)"
      using assms by (simp add: unat_of_nat take_bit_nat_eq_self)
  qed
qed

lemma ConsumeID_decoding:
  assumes "decoding a p d j ms" and "1 \<le> j" and "j \<le> 9" and "ConsumeID cb ms v = (ms', v')"
  shows "\<exists>n. j \<le> n \<and> n \<le> 19 \<and> decoding a p d n ms' \<and> inst_length (inst ms') = of_nat n \<and>
             opinfo ms' = opinfo ms \<and> v' = (if immtype (inst ms) = IMM_UNKNOWN then ErrorInternal cb v else v)"
proof -
  obtain k where k: "k \<le> 6" "imm_size ms = of_nat k" using imm_size_bound by blast
  obtain l where l: "l \<le> 4" "ucast (dispbytes (inst ms)) = (of_nat l :: u32)"
    using disp_bound assms(1) by (auto simp: decoding_def)
  define n where "n = j + k + l"
  have n: "n < 256" "1 \<le> n" "n \<le> 19" using assms(2,3) k(1) l(1) by (simp_all add: n_def)
  have nb: "nextbyte ms + imm_size ms + ucast (dispbytes (inst ms)) = a + of_nat n"
    using assms(1) k(2) l(2) by (simp add: decoding_def n_def)
  have len: "a + of_nat n - mpc ms = of_nat n" using assms(1) by (simp add: decoding_def)
  have b: "(ucast ((of_nat n :: u32) AND 0xff) :: u8) = of_nat n"
    using length_byte(1) [OF n(1)] n(1) by (simp only: word_unat_eq_iff) (simp add: unat_of_nat)
  have r: "ms' = ms\<lparr>nextbyte := a + of_nat n, inst := (inst ms)\<lparr>inst_length := of_nat n\<rparr>\<rparr>"
    "v' = (if immtype (inst ms) = IMM_UNKNOWN then ErrorInternal cb v else v)"
    using assms(4) length_byte(2) [OF n(1)] b unfolding ConsumeID_def Let_def nb len b by auto
  have "decoding a p d n ms'" using assms(1) by (simp add: r decoding_def)
  moreover have "j \<le> n" by (simp add: n_def)
  ultimately show ?thesis using n(3) r by (intro exI [of _ n]) simp
qed

lemma MaybeGet3ByteOpInfo_frame:
  assumes "MaybeGet3ByteOpInfo dt m ms = Inr ms'"
  shows "\<exists>op. ms' = ms\<lparr>opinfo := Some op\<rparr>"
proof (cases "opinfo ms")
  case None
  then show ?thesis using assms by (simp add: MaybeGet3ByteOpInfo_def)
next
  case (Some op)
  then have "ms = ms\<lparr>opinfo := Some op\<rparr>" by simp
  then show ?thesis using assms Some
    by (auto simp: MaybeGet3ByteOpInfo_def Let_def split: if_splits intro: exI [of _ op])
qed

text \<open>The stages of \<open>ConsumeNextInstruction\<close> as a chain of equations.\<close>

lemma ConsumeNextInstruction_stages:
  assumes "ConsumeNextInstruction cb dt m ms v = Inr (newpc, ms', v')"
  obtains ms2 v2 ms3 v3 ms4 v4 ms5 where
    "ConsumeOpcodeBytes cb dt m (ConsumePrefixBytes dt m (InitDecoder ms)) v = Inr (ms2, v2)"
    "ConsumeModRM cb dt m ms2 v2 = Inr (ms3, v3)" "ConsumeSIB cb m ms3 v3 = (ms4, v4)"
    "ConsumeID cb ms4 v4 = (ms5, v')" "MaybeGet3ByteOpInfo dt m ms5 = Inr ms'"
    "newpc = vpc ms' + ucast (inst_length (inst ms'))"
proof -
  let ?ms1 = "ConsumePrefixBytes dt m (InitDecoder ms)"
  obtain ms2 v2 where 1: "ConsumeOpcodeBytes cb dt m ?ms1 v = Inr (ms2, v2)"
    using assms by (cases "ConsumeOpcodeBytes cb dt m ?ms1 v") (auto simp: ConsumeNextInstruction_def)
  obtain ms3 v3 where 2: "ConsumeModRM cb dt m ms2 v2 = Inr (ms3, v3)"
    using assms 1 by (cases "ConsumeModRM cb dt m ms2 v2") (auto simp: ConsumeNextInstruction_def)
  obtain ms4 v4 where 3: "ConsumeSIB cb m ms3 v3 = (ms4, v4)" by fastforce
  obtain ms5 v5 where 4: "ConsumeID cb ms4 v4 = (ms5, v5)" by fastforce
  show ?thesis
    using assms 1 2 3 4 that by (auto simp: ConsumeNextInstruction_def bind_res_Inr_iff)
qed

text \<open>
  A decoded instruction is between 1 and 19 bytes long, and the decoder state records exactly
  where it starts and ends.
\<close>

definition decoded_at :: "uintptr_t \<Rightarrow> NaClPcAddress \<Rightarrow> NCDecoderState \<Rightarrow> bool" where
  "decoded_at a p ms \<longleftrightarrow>
     mpc ms = a \<and> vpc ms = p \<and> vaddr (inst ms) = p \<and> maddr (inst ms) = a \<and>
     1 \<le> unat (inst_length (inst ms)) \<and> unat (inst_length (inst ms)) \<le> 19 \<and>
     nextbyte ms = a + ucast (inst_length (inst ms)) \<and> opinfo ms \<noteq> None \<and>
     unat (prefixbytes (inst ms)) \<le> 4"

lemma ConsumeNextInstruction_decoded:
  assumes "nextbyte ms = mpc ms" and "ConsumeNextInstruction cb dt m ms v = Inr (newpc, ms', v')"
  shows "decoded_at (mpc ms) (vpc ms) ms'" and "dbindex ms' = dbindex ms"
    and "newpc = vpc ms + ucast (inst_length (inst ms'))"
proof -
  let ?a = "mpc ms" and ?p = "vpc ms" and ?d = "dbindex ms"
  from assms(2) obtain ms2 v2 ms3 v3 ms4 v4 ms5 where st:
    "ConsumeOpcodeBytes cb dt m (ConsumePrefixBytes dt m (InitDecoder ms)) v = Inr (ms2, v2)"
    "ConsumeModRM cb dt m ms2 v2 = Inr (ms3, v3)" "ConsumeSIB cb m ms3 v3 = (ms4, v4)"
    "ConsumeID cb ms4 v4 = (ms5, v')" "MaybeGet3ByteOpInfo dt m ms5 = Inr ms'"
    "newpc = vpc ms' + ucast (inst_length (inst ms'))"
    by (rule ConsumeNextInstruction_stages)
  obtain k1 where k1: "k1 \<le> 4" "decoding ?a ?p ?d k1 (ConsumePrefixBytes dt m (InitDecoder ms))"
    using ConsumePrefixBytes_decoding [OF assms(1)] by blast
  obtain k2 where k2: "k2 \<in> {1, 2, 3}" "decoding ?a ?p ?d (k1 + k2) ms2"
    using ConsumeOpcodeBytes_decoding [OF k1(2) st(1)] by blast
  obtain k3 where k3: "k3 \<le> 1" "decoding ?a ?p ?d (k1 + k2 + k3) ms3"
    using ConsumeModRM_decoding [OF k2(2) st(2)] by blast
  obtain k4 where k4: "k4 \<le> 1" "decoding ?a ?p ?d (k1 + k2 + k3 + k4) ms4"
    using ConsumeSIB_decoding [OF k3(2) st(3)] by blast
  have "1 \<le> k1 + k2 + k3 + k4" "k1 + k2 + k3 + k4 \<le> 9" using k1(1) k2(1) k3(1) k4(1) by auto
  from ConsumeID_decoding [OF k4(2) this st(4)] obtain n where n: "1 \<le> n" "n \<le> 19"
    "decoding ?a ?p ?d n ms5" "inst_length (inst ms5) = of_nat n"
    using \<open>1 \<le> k1 + k2 + k3 + k4\<close> by (meson le_trans)
  obtain op where op: "ms' = ms5\<lparr>opinfo := Some op\<rparr>" using MaybeGet3ByteOpInfo_frame [OF st(5)] by blast
  have u: "unat (of_nat n :: u8) = n" using n(2) by (simp add: unat_of_nat)
  then have "(of_nat n :: u32) = ucast (of_nat n :: u8)"
    by (intro word_unat_eq_iff [THEN iffD2]) (use n(2) in \<open>simp add: unsigned_ucast_eq unat_of_nat take_bit_nat_eq_self\<close>)
  then show "decoded_at ?a ?p ms'" "dbindex ms' = ?d"
    using n u by (simp_all add: op decoding_def decoded_at_def)
  then show "newpc = vpc ms + ucast (inst_length (inst ms'))"
    using st(6) by (simp add: decoded_at_def)
qed

section \<open>The decoder reads only the bytes of the instruction\<close>

definition mem_agree :: "memory \<Rightarrow> memory \<Rightarrow> uintptr_t \<Rightarrow> nat \<Rightarrow> bool" where
  "mem_agree m m' a n \<longleftrightarrow> (\<forall>k < n. m (a + of_nat k) = m' (a + of_nat k))"

lemma mem_agree_at: "mem_agree m m' a n \<Longrightarrow> k < n \<Longrightarrow> x = a + of_nat k \<Longrightarrow> m x = m' x"
  by (simp add: mem_agree_def)

lemma decoding_agree:
  assumes "mem_agree m m' a 20" and "decoding a p d j ms" and "j + k < 20"
  shows "m (nextbyte ms + of_nat k) = m' (nextbyte ms + of_nat k)"
  using mem_agree_at [OF assms(1,3)] assms(2) by (simp add: decoding_def algebra_simps)

lemma decoding_agree_prefix:
  assumes "mem_agree m m' a 20" and "decoding a p d j ms" and "k < 10"
  shows "m (a + ucast (prefixbytes (inst ms)) + of_nat k) = m' (a + ucast (prefixbytes (inst ms)) + of_nat k)"
proof -
  have "(ucast (prefixbytes (inst ms)) :: u32) = of_nat (unat (prefixbytes (inst ms)))"
    by (rule of_nat_unat [symmetric])
  moreover have "unat (prefixbytes (inst ms)) + k < 20" using assms(2,3) by (simp add: decoding_def)
  ultimately show ?thesis
    using mem_agree_at [OF assms(1), of "unat (prefixbytes (inst ms)) + k"
        "a + ucast (prefixbytes (inst ms)) + of_nat k"]
    by (simp add: add.assoc)
qed

lemma prefix_loop_cong:
  assumes "mem_agree m m' a 20" and "decoding a p d j ms" and "unat (prefixbytes (inst ms)) + n \<le> 4" and "j + n < 20"
  shows "prefix_loop dt m n ms = prefix_loop dt m' n ms"
  using assms
proof (induction n arbitrary: j ms)
  case (Suc n)
  have eq: "m (nextbyte ms) = m' (nextbyte ms)"
    using decoding_agree [OF Suc.prems(1,2), of 0] Suc.prems(4) by simp
  show ?case
  proof (cases "kPrefixTable dt (m' (nextbyte ms)) = 0")
    case False
    let ?ms = "consume_prefix (kPrefixTable dt (m' (nextbyte ms))) ms"
    have pb: "unat (prefixbytes (inst ms) + 1) = unat (prefixbytes (inst ms)) + 1"
      using Suc.prems(3) unat_add_no_wrap [of "prefixbytes (inst ms)" 1] by simp
    have "decoding a p d (j + 1) ?ms" "unat (prefixbytes (inst ?ms)) + n \<le> 4"
      using Suc.prems pb by (simp_all add: decoding_def consume_prefix_def algebra_simps)
    then have "prefix_loop dt m n ?ms = prefix_loop dt m' n ?ms"
      using Suc.IH [OF Suc.prems(1)] Suc.prems(4) by simp
    then show ?thesis using eq by (simp add: Let_def)
  qed (use eq in \<open>simp add: Let_def\<close>)
qed simp

lemma ConsumeOpcodeBytes_cong:
  assumes "mem_agree m m' a 20" and "decoding a p d j ms" and "j \<le> 4"
  shows "ConsumeOpcodeBytes cb dt m ms v = ConsumeOpcodeBytes cb dt m' ms v"
proof -
  have "m (nextbyte ms) = m' (nextbyte ms)" "m (nextbyte ms + 1) = m' (nextbyte ms + 1)"
    "m (nextbyte ms + 1 + 1) = m' (nextbyte ms + 1 + 1)"
    using decoding_agree [OF assms(1,2), of 0] decoding_agree [OF assms(1,2), of 1]
      decoding_agree [OF assms(1,2), of 2] assms(3) by (simp_all add: algebra_simps)
  then show ?thesis
    by (simp add: ConsumeOpcodeBytes_def Let_def split: prod.split option.split)
qed

lemma GetX87OpInfo_cong:
  assumes "mem_agree m m' a 20" and "decoding a p d j ms"
  shows "GetX87OpInfo cb dt m ms v = GetX87OpInfo cb dt m' ms v"
  using decoding_agree_prefix [OF assms, of 0] assms(2) by (simp add: GetX87OpInfo_def decoding_def)

lemma ConsumeModRM_cong:
  assumes "mem_agree m m' a 20" and "decoding a p d j ms" and "j \<le> 7"
  shows "ConsumeModRM cb dt m ms v = ConsumeModRM cb dt m' ms v"
proof -
  have nb: "m (nextbyte ms) = m' (nextbyte ms)"
    using decoding_agree [OF assms(1,2), of 0] assms(3) by simp
  have "decoding a p d (j + 1) (ms\<lparr>inst := (inst ms)\<lparr>mrm := b\<rparr>, nextbyte := nextbyte ms + 1\<rparr>)" for b
    using assms(2) by (simp add: decoding_def algebra_simps)
  note x87 = GetX87OpInfo_cong [OF assms(1) this]
  show ?thesis unfolding ConsumeModRM_def nb Let_def x87 ..
qed

lemma ConsumeSIB_cong:
  assumes "mem_agree m m' a 20" and "decoding a p d j ms" and "j \<le> 8"
  shows "ConsumeSIB cb m ms v = ConsumeSIB cb m' ms v"
  using decoding_agree [OF assms(1,2), of 0] assms(3) by (simp add: ConsumeSIB_def)

lemma MaybeGet3ByteOpInfo_cong:
  assumes "mem_agree m m' a 20" and "decoding a p d n ms" and "inst_length (inst ms) = of_nat n"
    and "1 \<le> n" and "n \<le> 19"
  shows "MaybeGet3ByteOpInfo dt m ms = MaybeGet3ByteOpInfo dt m' ms"
proof -
  have a: "mpc ms = a" using assms(2) by (simp add: decoding_def)
  have "unat (inst_length (inst ms)) = n" using assms(3,5) by (simp add: unat_of_nat)
  then have "(ucast (inst_length (inst ms)) :: u32) = of_nat n" using of_nat_unat by metis
  then have "a + (ucast (inst_length (inst ms)) - 1) = a + of_nat (n - 1)"
    using assms(4) by (simp add: of_nat_diff)
  then have "m (a + (ucast (inst_length (inst ms)) - 1)) = m' (a + (ucast (inst_length (inst ms)) - 1))"
    using mem_agree_at [OF assms(1), of "n - 1"] assms(5) by simp
  then show ?thesis
    using decoding_agree_prefix [OF assms(1,2), of 0] decoding_agree_prefix [OF assms(1,2), of 1] a
    by (simp add: MaybeGet3ByteOpInfo_def Let_def split: option.split)
qed

lemma ConsumeNextInstruction_cong:
  assumes "nextbyte ms = mpc ms" and "mem_agree m m' (mpc ms) 20"
  shows "ConsumeNextInstruction cb dt m ms v = ConsumeNextInstruction cb dt m' ms v"
proof -
  let ?a = "mpc ms" and ?p = "vpc ms" and ?d = "dbindex ms"
  let ?ms1 = "ConsumePrefixBytes dt m (InitDecoder ms)"
  have 1: "ConsumePrefixBytes dt m' (InitDecoder ms) = ?ms1"
    using prefix_loop_cong [OF assms(2) InitDecoder_decoding [OF assms(1)], of 4 dt]
    by (simp add: ConsumePrefixBytes_def kMaxPrefixBytes_def InitDecoder_def)
  obtain k1 where k1: "k1 \<le> 4" "decoding ?a ?p ?d k1 ?ms1"
    using ConsumePrefixBytes_decoding [OF assms(1)] by blast
  show ?thesis
    unfolding ConsumeNextInstruction_def 1
  proof (rule bind_res_cong, rule ConsumeOpcodeBytes_cong [OF assms(2) k1(2,1)], clarify, rule bind_res_cong)
    fix ms2 v2 assume r2: "ConsumeOpcodeBytes cb dt m' ?ms1 v = Inr (ms2, v2)"
    obtain k2 where k2: "k2 \<in> {1, 2, 3}" "decoding ?a ?p ?d (k1 + k2) ms2"
      using ConsumeOpcodeBytes_decoding [OF k1(2) r2] by blast
    have "k1 + k2 \<le> 7" using k1(1) k2(1) by auto
    show "ConsumeModRM cb dt m ms2 v2 = ConsumeModRM cb dt m' ms2 v2"
      by (rule ConsumeModRM_cong [OF assms(2) k2(2) \<open>k1 + k2 \<le> 7\<close>])
    fix r assume r: "ConsumeModRM cb dt m' ms2 v2 = Inr r"
    obtain ms3 v3 where r3: "r = (ms3, v3)" by fastforce
    obtain k3 where k3: "k3 \<le> 1" "decoding ?a ?p ?d (k1 + k2 + k3) ms3"
      using ConsumeModRM_decoding [OF k2(2) r [unfolded r3]] by blast
    obtain ms4 v4 where s4: "ConsumeSIB cb m ms3 v3 = (ms4, v4)" by fastforce
    have s4': "ConsumeSIB cb m' ms3 v3 = (ms4, v4)"
      using ConsumeSIB_cong [OF assms(2) k3(2), of cb v3] s4 k3(1) \<open>k1 + k2 \<le> 7\<close> by simp
    obtain k4 where k4: "k4 \<le> 1" "decoding ?a ?p ?d (k1 + k2 + k3 + k4) ms4"
      using ConsumeSIB_decoding [OF k3(2) s4] by blast
    have b: "1 \<le> k1 + k2 + k3 + k4" "k1 + k2 + k3 + k4 \<le> 9"
      using k2(1) k3(1) k4(1) \<open>k1 + k2 \<le> 7\<close> by auto
    obtain ms5 v5 where s5: "ConsumeID cb ms4 v4 = (ms5, v5)" by fastforce
    from ConsumeID_decoding [OF k4(2) b s5] obtain n where n: "1 \<le> n" "n \<le> 19"
      "decoding ?a ?p ?d n ms5" "inst_length (inst ms5) = of_nat n" using b(1) by (meson le_trans)
    show "(\<lambda>(ms3, v3). case ConsumeSIB cb m ms3 v3 of (ms4, v4) \<Rightarrow> case ConsumeID cb ms4 v4 of (ms5, v5) \<Rightarrow>
            bind_res (MaybeGet3ByteOpInfo dt m ms5)
              (\<lambda>ms6. Inr (vpc ms6 + ucast (inst_length (inst ms6)), ms6, v5))) r =
          (\<lambda>(ms3, v3). case ConsumeSIB cb m' ms3 v3 of (ms4, v4) \<Rightarrow> case ConsumeID cb ms4 v4 of (ms5, v5) \<Rightarrow>
            bind_res (MaybeGet3ByteOpInfo dt m' ms5)
              (\<lambda>ms6. Inr (vpc ms6 + ucast (inst_length (inst ms6)), ms6, v5))) r"
      using MaybeGet3ByteOpInfo_cong [OF assms(2) n(3,4,1,2)]
      by (simp add: r3 s4 s4' s5)
  qed
qed

section \<open>The decoder does not depend on its client\<close>

text \<open>
  The decoder touches the client state only through the internal error callback. Two clients whose
  callbacks correspond under \<open>h\<close> therefore see the same instructions.
\<close>

locale decoder_client =
  fixes cb :: "'v NCCallbacks" and cb' :: "'w NCCallbacks" and h :: "'v \<Rightarrow> 'w"
  assumes error_hom: "h (g_InternalError cb v) = g_InternalError cb' (h v)"
begin

lemma error_hom' [simp]: "ErrorInternal cb' (h v) = h (ErrorInternal cb v)"
  by (simp add: ErrorInternal_def error_hom)

lemma GetExtendedOpInfo_hom:
  "GetExtendedOpInfo cb' dt ms b (h v) = map_prod id h (GetExtendedOpInfo cb dt ms b v)"
  by (simp add: GetExtendedOpInfo_def Let_def)

lemma three_byte_opinfo_hom:
  "three_byte_opinfo cb' dt pm b c op (h v) = map_prod id h (three_byte_opinfo cb dt pm b c op v)"
  by (simp add: three_byte_opinfo_def)

lemma GetX87OpInfo_hom:
  "GetX87OpInfo cb' dt m ms (h v) = map_prod id h (GetX87OpInfo cb dt m ms v)"
  by (simp add: GetX87OpInfo_def Let_def)

lemma ConsumeOpcodeBytes_hom:
  "ConsumeOpcodeBytes cb' dt m ms (h v) = map_sum id (map_prod id h) (ConsumeOpcodeBytes cb dt m ms v)"
  by (simp add: ConsumeOpcodeBytes_def Let_def GetExtendedOpInfo_hom three_byte_opinfo_hom
      split: prod.splits option.splits)

lemma modrm_addressing_hom:
  "modrm_addressing cb' mb ms (h v) = map_prod id h (modrm_addressing cb mb ms v)"
  by (simp add: modrm_addressing_def set_disp_def split: option.splits)

lemma ConsumeModRM_hom:
  "ConsumeModRM cb' dt m ms (h v) = map_sum id (map_prod id h) (ConsumeModRM cb dt m ms v)"
proof -
  have "bind_res r (\<lambda>ms3. Inr (modrm_addressing cb' mb ms3 (h w))) =
        map_sum id (map_prod id h) (bind_res r (\<lambda>ms3. Inr (modrm_addressing cb mb ms3 w)))" for r mb w
    by (cases r) (simp_all add: modrm_addressing_hom)
  then show ?thesis
    by (simp add: ConsumeModRM_def Let_def GetX87OpInfo_hom split: prod.splits option.splits)
qed

lemma ConsumeSIB_hom: "ConsumeSIB cb' m ms (h v) = map_prod id h (ConsumeSIB cb m ms v)"
  by (simp add: ConsumeSIB_def Let_def)

lemma ConsumeID_hom: "ConsumeID cb' ms (h v) = map_prod id h (ConsumeID cb ms v)"
  by (simp add: ConsumeID_def Let_def)

lemma ConsumeNextInstruction_hom:
  assumes "ConsumeNextInstruction cb dt m ms v = Inr (newpc, ms', v')"
  shows "ConsumeNextInstruction cb' dt m ms (h v) = Inr (newpc, ms', h v')"
proof -
  from assms obtain ms2 v2 ms3 v3 ms4 v4 ms5 where st:
    "ConsumeOpcodeBytes cb dt m (ConsumePrefixBytes dt m (InitDecoder ms)) v = Inr (ms2, v2)"
    "ConsumeModRM cb dt m ms2 v2 = Inr (ms3, v3)" "ConsumeSIB cb m ms3 v3 = (ms4, v4)"
    "ConsumeID cb ms4 v4 = (ms5, v')" "MaybeGet3ByteOpInfo dt m ms5 = Inr ms'"
    "newpc = vpc ms' + ucast (inst_length (inst ms'))"
    by (rule ConsumeNextInstruction_stages)
  show ?thesis
    using st ConsumeOpcodeBytes_hom ConsumeModRM_hom ConsumeSIB_hom ConsumeID_hom
    by (simp add: ConsumeNextInstruction_def)
qed

end

text \<open>A property of client states that the internal error callback keeps is kept by the decoder.\<close>

locale client_invariant =
  fixes cb :: "'v NCCallbacks" and R :: "'v \<Rightarrow> bool"
  assumes error_keeps: "R v \<Longrightarrow> R (g_InternalError cb v)"
begin

lemma ErrorInternal_keeps [simp]: "R v \<Longrightarrow> R (ErrorInternal cb v)"
  by (simp add: ErrorInternal_def error_keeps)

lemma GetExtendedOpInfo_keeps: "R v \<Longrightarrow> R (snd (GetExtendedOpInfo cb dt ms b v))"
  by (simp add: GetExtendedOpInfo_def Let_def)

lemma three_byte_opinfo_keeps: "R v \<Longrightarrow> R (snd (three_byte_opinfo cb dt pm b c op v))"
  by (simp add: three_byte_opinfo_def)

lemma ConsumeOpcodeBytes_keeps:
  assumes "ConsumeOpcodeBytes cb dt m ms v = Inr (ms', v')" and "R v"
  shows "R v'"
proof (cases "m (nextbyte ms) = kTwoByteOpcodeByte1")
  case False
  then show ?thesis using assms by (simp add: ConsumeOpcodeBytes_def Let_def)
next
  case True
  obtain op2 v1 where g: "GetExtendedOpInfo cb dt
      (ms\<lparr>opinfo := Some (kDecode1ByteOp dt (m (nextbyte ms))), nextbyte := nextbyte ms + 1\<rparr>)
      (m (nextbyte ms + 1)) v = (op2, v1)" by fastforce
  have r1: "R v1" using GetExtendedOpInfo_keeps [OF assms(2)] g by (metis snd_conv)
  obtain op where op: "op2 = Some op"
    using assms True g by (cases op2) (simp_all add: ConsumeOpcodeBytes_def Let_def)
  show ?thesis
  proof (cases "insttype op = NACLi_3BYTE")
    case False
    then show ?thesis using assms True g op r1 by (simp add: ConsumeOpcodeBytes_def Let_def)
  next
    case t: True
    obtain op3 v2 where g3: "three_byte_opinfo cb dt (prefixmask (inst ms)) (m (nextbyte ms + 1))
        (m (nextbyte ms + 1 + 1)) op v1 = (op3, v2)" by fastforce
    have "R v2" using three_byte_opinfo_keeps [OF r1] g3 by (metis snd_conv)
    then show ?thesis using assms True g op t g3 by (simp add: ConsumeOpcodeBytes_def Let_def)
  qed
qed

lemma GetX87OpInfo_keeps: "R v \<Longrightarrow> R (snd (GetX87OpInfo cb dt m ms v))"
  by (simp add: GetX87OpInfo_def Let_def)

lemma modrm_addressing_keeps: "R v \<Longrightarrow> R (snd (modrm_addressing cb mb ms v))"
  by (simp add: modrm_addressing_def set_disp_def split: option.split)

lemma ConsumeModRM_keeps:
  assumes "ConsumeModRM cb dt m ms v = Inr (ms', v')" and "R v"
  shows "R v'"
proof -
  obtain op where op: "opinfo ms = Some op" using assms(1) by (auto simp: ConsumeModRM_def split: option.splits)
  show ?thesis
  proof (cases "hasmrmbyte op = 0")
    case True
    then show ?thesis using assms op by (simp add: ConsumeModRM_def)
  next
    case False
    define ms1 where "ms1 = ms\<lparr>inst := (inst ms)\<lparr>mrm := m (nextbyte ms)\<rparr>, nextbyte := nextbyte ms + 1\<rparr>"
    define s2 where "s2 = (if insttype op = NACLi_X87 then GetX87OpInfo cb dt m ms1 v else (ms1, v))"
    have r: "R (snd s2)" using assms(2) GetX87OpInfo_keeps by (simp add: s2_def)
    have e: "ConsumeModRM cb dt m ms v = (case opinfo (fst s2) of None \<Rightarrow> Inl NullDeref
        | Some op2 \<Rightarrow> bind_res (modrm_opcode_extension dt (m (nextbyte ms)) op2 (fst s2))
            (\<lambda>ms3. Inr (modrm_addressing cb (m (nextbyte ms)) ms3 (snd s2))))"
      unfolding ConsumeModRM_def op Let_def option.case ms1_def [symmetric] s2_def [symmetric]
      using False by (simp add: split_beta)
    obtain op2 where op2: "opinfo (fst s2) = Some op2"
      using assms(1) e by (cases "opinfo (fst s2)") simp_all
    obtain ms3 where "modrm_opcode_extension dt (m (nextbyte ms)) op2 (fst s2) = Inr ms3"
      using assms(1) e op2 by (cases "modrm_opcode_extension dt (m (nextbyte ms)) op2 (fst s2)") simp_all
    then have "modrm_addressing cb (m (nextbyte ms)) ms3 (snd s2) = (ms', v')" using assms(1) e op2 by simp
    then show ?thesis using modrm_addressing_keeps [OF r, of "m (nextbyte ms)" ms3] by simp
  qed
qed

lemma ConsumeSIB_keeps: "R v \<Longrightarrow> R (snd (ConsumeSIB cb m ms v))"
  by (simp add: ConsumeSIB_def Let_def)

lemma ConsumeID_keeps: "R v \<Longrightarrow> R (snd (ConsumeID cb ms v))"
  by (simp add: ConsumeID_def Let_def)

lemma ConsumeNextInstruction_keeps:
  assumes "ConsumeNextInstruction cb dt m ms v = Inr (newpc, ms', v')" and "R v"
  shows "R v'"
proof -
  from assms(1) obtain ms2 v2 ms3 v3 ms4 v4 ms5 where st:
    "ConsumeOpcodeBytes cb dt m (ConsumePrefixBytes dt m (InitDecoder ms)) v = Inr (ms2, v2)"
    "ConsumeModRM cb dt m ms2 v2 = Inr (ms3, v3)" "ConsumeSIB cb m ms3 v3 = (ms4, v4)"
    "ConsumeID cb ms4 v4 = (ms5, v')" "MaybeGet3ByteOpInfo dt m ms5 = Inr ms'"
    "newpc = vpc ms' + ucast (inst_length (inst ms'))"
    by (rule ConsumeNextInstruction_stages)
  have "R v3" by (rule ConsumeModRM_keeps [OF st(2) ConsumeOpcodeBytes_keeps [OF st(1) assms(2)]])
  then have "R v4" using ConsumeSIB_keeps [of v3 m ms3] st(3) by simp
  then show ?thesis using ConsumeID_keeps [of v4 ms4] st(4) by simp
qed

end

section \<open>The ring buffer\<close>

definition ring_ok :: "NCDecoderState list \<Rightarrow> nat \<Rightarrow> bool" where
  "ring_ok db cur \<longleftrightarrow> length db = 4 \<and> cur < 4 \<and> (\<forall>i < 4. dbindex (db ! i) = of_nat i)"

definition ring_at :: "NCDecoderState list \<Rightarrow> nat \<Rightarrow> bool" where
  "ring_at db cur \<longleftrightarrow> ring_ok db cur \<and> nextbyte (db ! cur) = mpc (db ! cur)"

lemma lt4_cases: "n < 4 \<Longrightarrow> n = 0 \<or> n = 1 \<or> n = 2 \<or> n = (3 :: nat)"
  by arith

lemma PreviousInst_ring:
  assumes "cur < 4" and "dbindex ms = of_nat cur"
  shows "PreviousInst db ms 1 = (cur + 1) mod 4" and "PreviousInst db ms (- 1) = (cur + 3) mod 4"
  using lt4_cases [OF assms(1)] assms(2) by (auto simp: PreviousInst_def kDecodeBufferSize_def)

lemma InitDecodeBuffer_ring:
  assumes "length stack = 4" and "InitDecodeBuffer mbase vbase stack = (db, cur)"
  shows "ring_at db cur" and "mpc (db ! cur) = mbase" and "vpc (db ! cur) = vbase" and "cur = 0"
    and "inst_length (inst (db ! 3)) = 0"
proof -
  have db: "db = [(init_slot 0 (stack ! 0))\<lparr>mpc := mbase, nextbyte := mbase, vpc := vbase\<rparr>,
      init_slot 1 (stack ! 1), init_slot 2 (stack ! 2), init_slot 3 (stack ! 3)]" "cur = 0"
    using assms(2)
    by (auto simp: InitDecodeBuffer_def Let_def kDecodeBufferSize_def upt_rec numeral_2_eq_2 numeral_3_eq_3)
  show "ring_at db cur"
    by (auto simp: ring_at_def ring_ok_def db init_slot_def dest!: lt4_cases)
  show "mpc (db ! cur) = mbase" "vpc (db ! cur) = vbase" "cur = 0" "inst_length (inst (db ! 3)) = 0"
    by (simp_all add: db init_slot_def)
qed

lemma IncrementDecodeBuffer_ring:
  assumes "ring_ok db cur" and "decoded_at a p (db ! cur)" and "IncrementDecodeBuffer db cur = (db2, cur2)"
  shows "ring_at db2 cur2" and "mpc (db2 ! cur2) = a + ucast (inst_length (inst (db ! cur)))"
    and "vpc (db2 ! cur2) = p + ucast (inst_length (inst (db ! cur)))"
    and "db2 ! PreviousInst db2 (db2 ! cur2) (- 1) = db ! cur"
    and "i < 4 \<Longrightarrow> inst (db2 ! i) = inst (db ! i)"
proof -
  have r: "length db = 4" "cur < 4" "\<And>i. i < 4 \<Longrightarrow> dbindex (db ! i) = of_nat i"
    using assms(1) by (simp_all add: ring_ok_def)
  have nxt: "PreviousInst db (db ! cur) 1 = (cur + 1) mod 4" by (rule PreviousInst_ring [OF r(2) r(3) [OF r(2)]])
  let ?n = "(cur + 1) mod 4"
  have e: "db2 = db[?n := (db ! ?n)\<lparr>vpc := vpc (db ! cur) + ucast (inst_length (inst (db ! cur))),
      mpc := mpc (db ! cur) + ucast (inst_length (inst (db ! cur))), nextbyte := nextbyte (db ! cur)\<rparr>]"
    "cur2 = ?n"
    using assms(3) by (auto simp: IncrementDecodeBuffer_def Let_def nxt)
  have n: "?n < 4" "?n \<noteq> cur" "(?n + 3) mod 4 = cur" using lt4_cases [OF r(2)] by auto
  have idx: "dbindex (db2 ! i) = of_nat i" if "i < 4" for i
    using r(1,3) that n(1) by (simp add: e nth_list_update)
  show "ring_at db2 cur2"
    using r(1) n(1) idx assms(2) by (simp add: ring_at_def ring_ok_def e(2)) (simp add: e r(1) decoded_at_def)
  show "mpc (db2 ! cur2) = a + ucast (inst_length (inst (db ! cur)))"
    "vpc (db2 ! cur2) = p + ucast (inst_length (inst (db ! cur)))"
    using assms(2) n(1) r(1) by (simp_all add: e decoded_at_def)
  have "PreviousInst db2 (db2 ! cur2) (- 1) = cur"
    using PreviousInst_ring(2) [of cur2 "db2 ! cur2" db2] n idx e(2) by simp
  then show "db2 ! PreviousInst db2 (db2 ! cur2) (- 1) = db ! cur" using n(2) by (simp add: e)
  show "i < 4 \<Longrightarrow> inst (db2 ! i) = inst (db ! i)" using r(1) n(1) by (simp add: e nth_list_update)
qed

lemma ring_update:
  assumes "ring_ok db cur" and "dbindex ms = dbindex (db ! cur)"
  shows "ring_ok (db[cur := ms]) cur"
  using assms by (auto simp: ring_ok_def nth_list_update)

section \<open>The decoding loop ends\<close>

text \<open>
  One round of the loop: from a ring positioned on an instruction to the ring positioned on the next.
\<close>

definition decode_round ::
    "'v NCCallbacks \<Rightarrow> DecodeTables \<Rightarrow> NaClPcAddress \<Rightarrow> NCDecoderState list \<Rightarrow> nat \<Rightarrow> memory \<Rightarrow> 'v
      \<Rightarrow> NCDecoderState \<Rightarrow> 'v \<Rightarrow> NCDecoderState list \<Rightarrow> nat \<Rightarrow> memory \<Rightarrow> 'v \<Rightarrow> bool" where
  "decode_round cb dt vlimit db cur m v ms v1 db2 cur2 m2 v2 \<longleftrightarrow>
     vpc (db ! cur) < vlimit \<and>
     (\<exists>newpc. ConsumeNextInstruction cb dt m (db ! cur) v = Inr (newpc, ms, v1) \<and> newpc \<le> vlimit) \<and>
     g_DecoderAction cb (db[cur := ms]) cur (m, v1) = Inr (m2, v2) \<and>
     IncrementDecodeBuffer (db[cur := ms]) cur = (db2, cur2)"

lemma consume_advances:
  assumes "ring_at db cur" and c: "ConsumeNextInstruction cb dt m (db ! cur) v = Inr (newpc, ms, v1)"
    and inc: "IncrementDecodeBuffer (db[cur := ms]) cur = (db2, cur2)"
    and lt: "vpc (db ! cur) < vlimit" and le: "newpc \<le> vlimit" and top: "unat vlimit + 19 < 2 ^ 32"
  shows "ring_at db2 cur2" and "decoded_at (mpc (db ! cur)) (vpc (db ! cur)) ms" and "ring_ok (db[cur := ms]) cur"
    and "unat (vpc (db2 ! cur2)) = unat (vpc (db ! cur)) + unat (inst_length (inst ms))"
    and "mpc (db2 ! cur2) = mpc (db ! cur) + ucast (inst_length (inst ms))"
    and "vpc (db2 ! cur2) = vpc (db ! cur) + ucast (inst_length (inst ms))"
    and "unat (vpc (db2 ! cur2)) \<le> unat vlimit"
    and "db2 ! PreviousInst db2 (db2 ! cur2) (- 1) = ms"
proof -
  have cur: "cur < length db" "ring_ok db cur" using assms(1) by (simp_all add: ring_at_def ring_ok_def)
  have "nextbyte (db ! cur) = mpc (db ! cur)" using assms(1) by (simp add: ring_at_def)
  note d = ConsumeNextInstruction_decoded [OF this c]
  show ro: "ring_ok (db[cur := ms]) cur" by (rule ring_update [OF cur(2) d(2)])
  have at: "decoded_at (mpc (db ! cur)) (vpc (db ! cur)) (db[cur := ms] ! cur)" using d(1) cur(1) by simp
  note i = IncrementDecodeBuffer_ring [OF ro at inc]
  show "ring_at db2 cur2" "decoded_at (mpc (db ! cur)) (vpc (db ! cur)) ms" by (fact i(1), fact d(1))
  show "db2 ! PreviousInst db2 (db2 ! cur2) (- 1) = ms" using i(4) cur(1) by simp
  show m: "mpc (db2 ! cur2) = mpc (db ! cur) + ucast (inst_length (inst ms))" using i(2) cur(1) by simp
  show v: "vpc (db2 ! cur2) = vpc (db ! cur) + ucast (inst_length (inst ms))" using i(3) cur(1) by simp
  have "unat (ucast (inst_length (inst ms)) :: u32) = unat (inst_length (inst ms))"
    by (simp add: unsigned_ucast_eq take_bit_nat_eq_self unsigned_less [THEN less_le_trans])
  moreover have "unat (vpc (db ! cur)) + unat (inst_length (inst ms)) < 2 ^ 32"
    using lt d(1) top by (simp add: word_less_nat_alt decoded_at_def)
  ultimately show "unat (vpc (db2 ! cur2)) = unat (vpc (db ! cur)) + unat (inst_length (inst ms))"
    using unat_add_no_wrap [of "vpc (db ! cur)" "ucast (inst_length (inst ms))"] v by simp
  show "unat (vpc (db2 ! cur2)) \<le> unat vlimit" using le d(3) v by (simp add: word_le_nat_alt)
qed

lemma decode_round_progress:
  assumes "ring_at db cur" and "decode_round cb dt vlimit db cur m v ms v1 db2 cur2 m2 v2"
    and "unat vlimit + 19 < 2 ^ 32"
  shows "ring_at db2 cur2" and "decoded_at (mpc (db ! cur)) (vpc (db ! cur)) ms" and "ring_ok (db[cur := ms]) cur"
    and "unat (vpc (db2 ! cur2)) = unat (vpc (db ! cur)) + unat (inst_length (inst ms))"
    and "mpc (db2 ! cur2) = mpc (db ! cur) + ucast (inst_length (inst ms))"
    and "vpc (db2 ! cur2) = vpc (db ! cur) + ucast (inst_length (inst ms))"
    and "unat (vpc (db2 ! cur2)) \<le> unat vlimit"
    and "db2 ! PreviousInst db2 (db2 ! cur2) (- 1) = ms"
proof -
  obtain newpc where c: "ConsumeNextInstruction cb dt m (db ! cur) v = Inr (newpc, ms, v1)" "newpc \<le> vlimit"
    and inc: "IncrementDecodeBuffer (db[cur := ms]) cur = (db2, cur2)" and lt: "vpc (db ! cur) < vlimit"
    using assms(2) by (auto simp: decode_round_def)
  show "ring_at db2 cur2" "decoded_at (mpc (db ! cur)) (vpc (db ! cur)) ms" "ring_ok (db[cur := ms]) cur"
    "unat (vpc (db2 ! cur2)) = unat (vpc (db ! cur)) + unat (inst_length (inst ms))"
    "mpc (db2 ! cur2) = mpc (db ! cur) + ucast (inst_length (inst ms))"
    "vpc (db2 ! cur2) = vpc (db ! cur) + ucast (inst_length (inst ms))"
    "unat (vpc (db2 ! cur2)) \<le> unat vlimit" "db2 ! PreviousInst db2 (db2 ! cur2) (- 1) = ms"
    by (fact consume_advances [OF assms(1) c(1) inc lt c(2) assms(3)])+
qed

lemma decode_loop_unfold:
  "decode_loop cb dt vlimit db cur m v =
     (if \<not> vpc (db ! cur) < vlimit then Some (Inr (m, v))
      else case ConsumeNextInstruction cb dt m (db ! cur) v of Inl e \<Rightarrow> Some (Inl e)
      | Inr (newpc, ms, v1) \<Rightarrow>
          if newpc > vlimit then Some (Inr (m, ErrorSegmentation cb v1))
          else case g_DecoderAction cb (db[cur := ms]) cur (m, v1) of Inl e \<Rightarrow> Some (Inl e)
          | Inr (m2, v2) \<Rightarrow>
              decode_loop cb dt vlimit (fst (IncrementDecodeBuffer (db[cur := ms]) cur))
                (snd (IncrementDecodeBuffer (db[cur := ms]) cur)) m2 v2)"
  by (subst decode_loop.simps) (auto simp: split_beta split: sum.splits prod.splits)

lemma decode_loop_step:
  assumes "decode_round cb dt vlimit db cur m v ms v1 db2 cur2 m2 v2"
  shows "decode_loop cb dt vlimit db cur m v = decode_loop cb dt vlimit db2 cur2 m2 v2"
  by (subst decode_loop_unfold) (use assms in \<open>auto simp: decode_round_def\<close>)

text \<open>How a run of the loop continues from a state.\<close>

lemma decode_loop_cases:
  obtains (exit) "\<not> vpc (db ! cur) < vlimit" "decode_loop cb dt vlimit db cur m v = Some (Inr (m, v))"
  | (abort) e where "decode_loop cb dt vlimit db cur m v = Some (Inl e)"
      "(ConsumeNextInstruction cb dt m (db ! cur) v = Inl e) \<or>
       (\<exists>newpc ms v1. ConsumeNextInstruction cb dt m (db ! cur) v = Inr (newpc, ms, v1) \<and>
          g_DecoderAction cb (db[cur := ms]) cur (m, v1) = Inl e)"
  | (overrun) newpc ms v1 where "vpc (db ! cur) < vlimit"
      "ConsumeNextInstruction cb dt m (db ! cur) v = Inr (newpc, ms, v1)" "newpc > vlimit"
      "decode_loop cb dt vlimit db cur m v = Some (Inr (m, ErrorSegmentation cb v1))"
  | (round) ms v1 db2 cur2 m2 v2 where "decode_round cb dt vlimit db cur m v ms v1 db2 cur2 m2 v2"
proof (cases "vpc (db ! cur) < vlimit")
  case False
  then show ?thesis using exit by (simp add: decode_loop_unfold [of cb dt vlimit db cur m v])
next
  case lt: True
  show ?thesis
  proof (cases "ConsumeNextInstruction cb dt m (db ! cur) v")
    case (Inl e)
    then show ?thesis using abort [of e] lt by (simp add: decode_loop_unfold [of cb dt vlimit db cur m v])
  next
    case (Inr r)
    obtain newpc ms v1 where r: "r = (newpc, ms, v1)" by (metis prod_cases3)
    show ?thesis
    proof (cases "newpc > vlimit")
      case True
      then show ?thesis using overrun [of newpc ms v1] lt Inr r
        by (simp add: decode_loop_unfold [of cb dt vlimit db cur m v])
    next
      case ok: False
      show ?thesis
      proof (cases "g_DecoderAction cb (db[cur := ms]) cur (m, v1)")
        case (Inl e)
        then show ?thesis using abort [of e] lt r ok \<open>ConsumeNextInstruction cb dt m (db ! cur) v = Inr r\<close>
          by (simp add: decode_loop_unfold [of cb dt vlimit db cur m v])
      next
        case a: (Inr q)
        obtain m2 v2 where q: "q = (m2, v2)" by fastforce
        obtain db2 cur2 where i: "IncrementDecodeBuffer (db[cur := ms]) cur = (db2, cur2)" by fastforce
        show ?thesis
          by (rule round [of ms v1 db2 cur2 m2 v2]) (use lt Inr r ok a q i in \<open>auto simp: decode_round_def\<close>)
      qed
    qed
  qed
qed

lemma decode_loop_ends:
  assumes "ring_at db cur" and "unat vlimit + 19 < 2 ^ 32"
  shows "decode_loop cb dt vlimit db cur m v \<noteq> None"
  using assms(1)
proof (induction "unat vlimit - unat (vpc (db ! cur))" arbitrary: db cur m v rule: less_induct)
  case less
  show ?case
  proof (cases rule: decode_loop_cases [of db cur vlimit cb dt m v])
    case (round ms v1 db2 cur2 m2 v2)
    note p = decode_round_progress [OF less.prems round assms(2)]
    have "unat vlimit - unat (vpc (db2 ! cur2)) < unat vlimit - unat (vpc (db ! cur))"
      using p(2,4,7) unfolding decoded_at_def by linarith
    then show ?thesis using less.hyps [OF _ p(1)] decode_loop_step [OF round] by simp
  qed simp_all
qed

text \<open>
  Invariants of the loop: what every round keeps holds when the loop exits, and when it stops at an
  instruction that overruns the segment.
\<close>

lemma decode_loop_invariant:
  assumes "ring_at db cur" and "unat vlimit + 19 < 2 ^ 32"
    and "decode_loop cb dt vlimit db cur m v = Some (Inr (m', v'))" and "P db cur m v"
    and "\<And>db cur m v ms v1 db2 cur2 m2 v2. ring_at db cur \<Longrightarrow> P db cur m v \<Longrightarrow>
           decode_round cb dt vlimit db cur m v ms v1 db2 cur2 m2 v2 \<Longrightarrow> P db2 cur2 m2 v2"
  shows "\<exists>db cur v. ring_at db cur \<and> P db cur m' v \<and>
           ((\<not> vpc (db ! cur) < vlimit \<and> v' = v) \<or> (\<exists>w. v' = ErrorSegmentation cb w))"
  using assms(1,3,4)
proof (induction "unat vlimit - unat (vpc (db ! cur))" arbitrary: db cur m v rule: less_induct)
  case less
  show ?case
  proof (cases rule: decode_loop_cases [of db cur vlimit cb dt m v])
    case (round ms v1 db2 cur2 m2 v2)
    note p = decode_round_progress [OF less.prems(1) round assms(2)]
    have "unat vlimit - unat (vpc (db2 ! cur2)) < unat vlimit - unat (vpc (db ! cur))"
      using p(2,4,7) unfolding decoded_at_def by linarith
    then show ?thesis
      using less.hyps [OF _ p(1)] less.prems(2) decode_loop_step [OF round] assms(5) [OF less.prems(1,3) round]
      by simp
  qed (use less.prems in auto)
qed

section \<open>The two-segment loop\<close>

definition pair_round ::
    "'v NCCallbacks \<Rightarrow> DecodeTables \<Rightarrow> 'v pair_action \<Rightarrow> NaClPcAddress \<Rightarrow> NCDecoderState list \<Rightarrow> nat
      \<Rightarrow> NCDecoderState list \<Rightarrow> nat \<Rightarrow> memory \<Rightarrow> 'v \<Rightarrow> NCDecoderState \<Rightarrow> 'v \<Rightarrow> NCDecoderState \<Rightarrow> 'v
      \<Rightarrow> NCDecoderState list \<Rightarrow> nat \<Rightarrow> NCDecoderState list \<Rightarrow> nat \<Rightarrow> memory \<Rightarrow> 'v \<Rightarrow> bool" where
  "pair_round cb dt action vlimit dbo curo dbn curn m v mo v1 mn v2 dbo2 curo2 dbn2 curn2 m3 v3 \<longleftrightarrow>
     vpc (dbo ! curo) < vlimit \<and> vpc (dbn ! curn) < vlimit \<and>
     (\<exists>newpc. ConsumeNextInstruction cb dt m (dbo ! curo) v = Inr (newpc, mo, v1) \<and>
        ConsumeNextInstruction cb dt m (dbn ! curn) v1 = Inr (newpc, mn, v2) \<and> newpc \<le> vlimit) \<and>
     action (dbo[curo := mo]) curo (dbn[curn := mn]) curn (m, v2) = Inr (m3, v3) \<and>
     IncrementDecodeBuffer (dbo[curo := mo]) curo = (dbo2, curo2) \<and>
     IncrementDecodeBuffer (dbn[curn := mn]) curn = (dbn2, curn2)"

lemma pair_round_step:
  assumes "pair_round cb dt action vlimit dbo curo dbn curn m v mo v1 mn v2 dbo2 curo2 dbn2 curn2 m3 v3"
  shows "decode_pair_loop cb dt action vlimit dbo curo dbn curn m v =
         decode_pair_loop cb dt action vlimit dbo2 curo2 dbn2 curn2 m3 v3"
  by (subst decode_pair_loop.simps) (use assms in \<open>auto simp: pair_round_def\<close>)

lemma pair_round_progress:
  assumes "ring_at dbo curo" and "ring_at dbn curn" and "unat vlimit + 19 < 2 ^ 32"
    and "pair_round cb dt action vlimit dbo curo dbn curn m v mo v1 mn v2 dbo2 curo2 dbn2 curn2 m3 v3"
  shows "ring_at dbo2 curo2" and "ring_at dbn2 curn2"
    and "decoded_at (mpc (dbo ! curo)) (vpc (dbo ! curo)) mo" and "decoded_at (mpc (dbn ! curn)) (vpc (dbn ! curn)) mn"
    and "unat (vpc (dbo2 ! curo2)) = unat (vpc (dbo ! curo)) + unat (inst_length (inst mo))"
    and "unat (vpc (dbn2 ! curn2)) = unat (vpc (dbn ! curn)) + unat (inst_length (inst mn))"
    and "mpc (dbo2 ! curo2) = mpc (dbo ! curo) + ucast (inst_length (inst mo))"
    and "mpc (dbn2 ! curn2) = mpc (dbn ! curn) + ucast (inst_length (inst mn))"
    and "unat (vpc (dbo2 ! curo2)) \<le> unat vlimit"
    and "vpc (dbo2 ! curo2) = vpc (dbn2 ! curn2)"
    and "dbo2 ! PreviousInst dbo2 (dbo2 ! curo2) (- 1) = mo" and "dbn2 ! PreviousInst dbn2 (dbn2 ! curn2) (- 1) = mn"
    and "vpc (dbo2 ! curo2) = vpc (dbo ! curo) + ucast (inst_length (inst mo))"
proof -
  obtain newpc where co: "ConsumeNextInstruction cb dt m (dbo ! curo) v = Inr (newpc, mo, v1)"
    and cn: "ConsumeNextInstruction cb dt m (dbn ! curn) v1 = Inr (newpc, mn, v2)" and le: "newpc \<le> vlimit"
    and lt: "vpc (dbo ! curo) < vlimit" "vpc (dbn ! curn) < vlimit"
    and inc: "IncrementDecodeBuffer (dbo[curo := mo]) curo = (dbo2, curo2)"
      "IncrementDecodeBuffer (dbn[curn := mn]) curn = (dbn2, curn2)"
    using assms(4) by (auto simp: pair_round_def)
  note o = consume_advances [OF assms(1) co inc(1) lt(1) le assms(3)]
  note n = consume_advances [OF assms(2) cn inc(2) lt(2) le assms(3)]
  have "newpc = vpc (dbo2 ! curo2)" "newpc = vpc (dbn2 ! curn2)"
    using ConsumeNextInstruction_decoded(3) [OF _ co] ConsumeNextInstruction_decoded(3) [OF _ cn] assms(1,2) o(6) n(6)
    by (simp_all add: ring_at_def)
  then show "vpc (dbo2 ! curo2) = vpc (dbn2 ! curn2)" by simp
  show "ring_at dbo2 curo2" "decoded_at (mpc (dbo ! curo)) (vpc (dbo ! curo)) mo"
    "unat (vpc (dbo2 ! curo2)) = unat (vpc (dbo ! curo)) + unat (inst_length (inst mo))"
    "mpc (dbo2 ! curo2) = mpc (dbo ! curo) + ucast (inst_length (inst mo))"
    "unat (vpc (dbo2 ! curo2)) \<le> unat vlimit" "dbo2 ! PreviousInst dbo2 (dbo2 ! curo2) (- 1) = mo"
    "vpc (dbo2 ! curo2) = vpc (dbo ! curo) + ucast (inst_length (inst mo))"
    by (fact o)+
  show "ring_at dbn2 curn2" "decoded_at (mpc (dbn ! curn)) (vpc (dbn ! curn)) mn"
    "unat (vpc (dbn2 ! curn2)) = unat (vpc (dbn ! curn)) + unat (inst_length (inst mn))"
    "mpc (dbn2 ! curn2) = mpc (dbn ! curn) + ucast (inst_length (inst mn))"
    "dbn2 ! PreviousInst dbn2 (dbn2 ! curn2) (- 1) = mn"
    by (fact n)+
qed

lemma decode_pair_loop_cases:
  obtains (exit) "\<not> (vpc (dbo ! curo) < vlimit \<and> vpc (dbn ! curn) < vlimit)"
      "decode_pair_loop cb dt action vlimit dbo curo dbn curn m v = Some (Inr (m, v))"
  | (abort) e where "decode_pair_loop cb dt action vlimit dbo curo dbn curn m v = Some (Inl e)"
  | (stop) w where "decode_pair_loop cb dt action vlimit dbo curo dbn curn m v = Some (Inr (m, ErrorSegmentation cb w))"
  | (round) mo v1 mn v2 dbo2 curo2 dbn2 curn2 m3 v3 where
      "pair_round cb dt action vlimit dbo curo dbn curn m v mo v1 mn v2 dbo2 curo2 dbn2 curn2 m3 v3"
proof (cases "vpc (dbo ! curo) < vlimit \<and> vpc (dbn ! curn) < vlimit")
  case False
  then show ?thesis using exit by (simp add: decode_pair_loop.simps [of cb dt action vlimit dbo curo dbn curn m v])
next
  case lt: True
  note unf = decode_pair_loop.simps [of cb dt action vlimit dbo curo dbn curn m v]
  show ?thesis
  proof (cases "ConsumeNextInstruction cb dt m (dbo ! curo) v")
    case (Inl e)
    then show ?thesis using abort [of e] lt unf by simp
  next
    case co: (Inr r)
    obtain po mo v1 where r: "r = (po, mo, v1)" by (metis prod_cases3)
    show ?thesis
    proof (cases "ConsumeNextInstruction cb dt m (dbn ! curn) v1")
      case (Inl e)
      then show ?thesis using abort [of e] lt co r unf by simp
    next
      case cn: (Inr q)
      obtain pn mn v2 where q: "q = (pn, mn, v2)" by (metis prod_cases3)
      show ?thesis
      proof (cases "po \<noteq> pn \<or> pn > vlimit")
        case True
        then show ?thesis using stop [of v2] lt co cn r q unf by auto
      next
        case ok: False
        show ?thesis
        proof (cases "action (dbo[curo := mo]) curo (dbn[curn := mn]) curn (m, v2)")
          case (Inl e)
          then show ?thesis using abort [of e] lt co cn r q ok unf by simp
        next
          case a: (Inr s)
          obtain m3 v3 where s: "s = (m3, v3)" by fastforce
          obtain dbo2 curo2 dbn2 curn2 where i: "IncrementDecodeBuffer (dbo[curo := mo]) curo = (dbo2, curo2)"
            "IncrementDecodeBuffer (dbn[curn := mn]) curn = (dbn2, curn2)" by fastforce
          show ?thesis
            by (rule round [of mo v1 mn v2 dbo2 curo2 dbn2 curn2 m3 v3])
              (use lt co cn r q ok a s i in \<open>auto simp: pair_round_def\<close>)
        qed
      qed
    qed
  qed
qed

lemma decode_pair_loop_ends:
  assumes "ring_at dbo curo" and "ring_at dbn curn" and "unat vlimit + 19 < 2 ^ 32"
  shows "decode_pair_loop cb dt action vlimit dbo curo dbn curn m v \<noteq> None"
  using assms(1,2)
proof (induction "unat vlimit - unat (vpc (dbo ! curo))" arbitrary: dbo curo dbn curn m v rule: less_induct)
  case less
  show ?case
  proof (cases rule: decode_pair_loop_cases [of dbo curo vlimit dbn curn cb dt action m v])
    case (round mo v1 mn v2 dbo2 curo2 dbn2 curn2 m3 v3)
    note p = pair_round_progress [OF less.prems assms(3) round]
    have "unat vlimit - unat (vpc (dbo2 ! curo2)) < unat vlimit - unat (vpc (dbo ! curo))"
      using p(3,5,9) unfolding decoded_at_def by linarith
    then show ?thesis using less.hyps [OF _ p(1,2)] pair_round_step [OF round] by simp
  qed simp_all
qed

lemma decode_pair_loop_invariant:
  assumes "ring_at dbo curo" and "ring_at dbn curn" and "unat vlimit + 19 < 2 ^ 32"
    and "decode_pair_loop cb dt action vlimit dbo curo dbn curn m v = Some (Inr (m', v'))" and "P dbo curo dbn curn m v"
    and "\<And>dbo curo dbn curn m v mo v1 mn v2 dbo2 curo2 dbn2 curn2 m3 v3. ring_at dbo curo \<Longrightarrow> ring_at dbn curn \<Longrightarrow>
           P dbo curo dbn curn m v \<Longrightarrow>
           pair_round cb dt action vlimit dbo curo dbn curn m v mo v1 mn v2 dbo2 curo2 dbn2 curn2 m3 v3 \<Longrightarrow>
           P dbo2 curo2 dbn2 curn2 m3 v3"
  shows "\<exists>dbo curo dbn curn v. P dbo curo dbn curn m' v \<and>
           ((\<not> (vpc (dbo ! curo) < vlimit \<and> vpc (dbn ! curn) < vlimit) \<and> v' = v) \<or> (\<exists>w. v' = ErrorSegmentation cb w))"
  using assms(1,2,4,5)
proof (induction "unat vlimit - unat (vpc (dbo ! curo))" arbitrary: dbo curo dbn curn m v rule: less_induct)
  case less
  show ?case
  proof (cases rule: decode_pair_loop_cases [of dbo curo vlimit dbn curn cb dt action m v])
    case exit
    then have "m' = m" "v' = v" using less.prems(3) by simp_all
    then show ?thesis using less.prems(4) exit(1) by blast
  next
    case (stop w)
    then have "m' = m" "v' = ErrorSegmentation cb w" using less.prems(3) by simp_all
    then show ?thesis using less.prems(4) by blast
  next
    case (round mo v1 mn v2 dbo2 curo2 dbn2 curn2 m3 v3)
    note p = pair_round_progress [OF less.prems(1,2) assms(3) round]
    have "unat vlimit - unat (vpc (dbo2 ! curo2)) < unat vlimit - unat (vpc (dbo ! curo))"
      using p(3,5,9) unfolding decoded_at_def by linarith
    then show ?thesis
      using less.hyps [OF _ p(1,2)] less.prems(3) pair_round_step [OF round] assms(6) [OF less.prems(1,2,4) round]
      by simp
  qed (use less.prems in simp)
qed

section \<open>Well-typed tables never trip the assertion\<close>

text \<open>The entries of the generated opcode tables all name an immediate type.\<close>

definition tables_typed :: "DecodeTables \<Rightarrow> bool" where
  "tables_typed dt \<longleftrightarrow> (\<forall>b. op_immtype (kDecode1ByteOp dt b) \<noteq> IMM_UNKNOWN \<and>
     op_immtype (kDecode0FXXOp dt b) \<noteq> IMM_UNKNOWN \<and> op_immtype (kDecode660FXXOp dt b) \<noteq> IMM_UNKNOWN \<and>
     op_immtype (kDecodeF20FXXOp dt b) \<noteq> IMM_UNKNOWN \<and> op_immtype (kDecodeF30FXXOp dt b) \<noteq> IMM_UNKNOWN \<and>
     op_immtype (kDecode0F38Op dt b) \<noteq> IMM_UNKNOWN \<and> op_immtype (kDecode660F38Op dt b) \<noteq> IMM_UNKNOWN \<and>
     op_immtype (kDecodeF20F38Op dt b) \<noteq> IMM_UNKNOWN \<and> op_immtype (kDecode0F3AOp dt b) \<noteq> IMM_UNKNOWN \<and>
     op_immtype (kDecode660F3AOp dt b) \<noteq> IMM_UNKNOWN)"

lemma GetExtendedOpInfo_some:
  assumes "tables_typed dt" and "opinfo ms = Some op" and "op_immtype op \<noteq> IMM_UNKNOWN"
  shows "\<exists>op2 v'. GetExtendedOpInfo cb dt ms b v = (Some op2, v') \<and> op_immtype op2 \<noteq> IMM_UNKNOWN"
  using assms by (simp add: GetExtendedOpInfo_def tables_typed_def Let_def)

lemma three_byte_opinfo_typed:
  assumes "tables_typed dt" and "op_immtype op \<noteq> IMM_UNKNOWN"
  shows "op_immtype (fst (three_byte_opinfo cb dt pm b c op v)) \<noteq> IMM_UNKNOWN"
  using assms by (simp add: three_byte_opinfo_def tables_typed_def)

lemma ConsumeOpcodeBytes_total:
  assumes "tables_typed dt"
  shows "\<exists>ms' v'. ConsumeOpcodeBytes cb dt m ms v = Inr (ms', v') \<and> immtype (inst ms') \<noteq> IMM_UNKNOWN"
proof (cases "m (nextbyte ms) = kTwoByteOpcodeByte1")
  case False
  then show ?thesis using assms by (simp add: ConsumeOpcodeBytes_def Let_def set_opcode_def tables_typed_def)
next
  case True
  let ?op1 = "kDecode1ByteOp dt (m (nextbyte ms))"
  have t1: "op_immtype ?op1 \<noteq> IMM_UNKNOWN" using assms by (simp add: tables_typed_def)
  obtain op v1 where g: "GetExtendedOpInfo cb dt (ms\<lparr>opinfo := Some ?op1, nextbyte := nextbyte ms + 1\<rparr>)
      (m (nextbyte ms + 1)) v = (Some op, v1)" "op_immtype op \<noteq> IMM_UNKNOWN"
    using GetExtendedOpInfo_some [OF assms _ t1, of "ms\<lparr>opinfo := Some ?op1, nextbyte := nextbyte ms + 1\<rparr>" cb
        "m (nextbyte ms + 1)" v] by auto
  show ?thesis
  proof (cases "insttype op = NACLi_3BYTE")
    case False
    then show ?thesis using True g by (simp add: ConsumeOpcodeBytes_def Let_def set_opcode_def)
  next
    case t: True
    obtain op3 v2 where g3: "three_byte_opinfo cb dt (prefixmask (inst ms)) (m (nextbyte ms + 1))
        (m (nextbyte ms + 1 + 1)) op v1 = (op3, v2)" by fastforce
    have "op_immtype op3 \<noteq> IMM_UNKNOWN"
      using three_byte_opinfo_typed [OF assms g(2), of cb "prefixmask (inst ms)" "m (nextbyte ms + 1)"
          "m (nextbyte ms + 1 + 1)" v1] unfolding g3 by simp
    then show ?thesis using True g t g3 by (simp add: ConsumeOpcodeBytes_def Let_def set_opcode_def)
  qed
qed

lemma ConsumeModRM_total:
  assumes "opinfo ms = Some op" and "immtype (inst ms) \<noteq> IMM_UNKNOWN"
  shows "\<exists>r. ConsumeModRM cb dt m ms v = Inr r"
proof (cases "hasmrmbyte op = 0")
  case True
  then show ?thesis using assms(1) by (simp add: ConsumeModRM_def)
next
  case False
  define ms1 where "ms1 = ms\<lparr>inst := (inst ms)\<lparr>mrm := m (nextbyte ms)\<rparr>, nextbyte := nextbyte ms + 1\<rparr>"
  define s2 where "s2 = (if insttype op = NACLi_X87 then GetX87OpInfo cb dt m ms1 v else (ms1, v))"
  have e: "ConsumeModRM cb dt m ms v = (case opinfo (fst s2) of None \<Rightarrow> Inl NullDeref
      | Some op2 \<Rightarrow> bind_res (modrm_opcode_extension dt (m (nextbyte ms)) op2 (fst s2))
          (\<lambda>ms3. Inr (modrm_addressing cb (m (nextbyte ms)) ms3 (snd s2))))"
    unfolding ConsumeModRM_def assms(1) Let_def option.case ms1_def [symmetric] s2_def [symmetric]
    using False by (simp add: split_beta)
  have "opinfo ms1 = Some op" "immtype (inst ms1) \<noteq> IMM_UNKNOWN" using assms by (simp_all add: ms1_def)
  then have "\<exists>op2. opinfo (fst s2) = Some op2 \<and> immtype (inst (fst s2)) \<noteq> IMM_UNKNOWN"
    by (simp add: s2_def GetX87OpInfo_def Let_def)
  then obtain op2 where op2: "opinfo (fst s2) = Some op2" and it: "immtype (inst (fst s2)) \<noteq> IMM_UNKNOWN" by blast
  then show ?thesis using e by (simp add: modrm_opcode_extension_def Let_def)
qed

lemma ConsumeNextInstruction_total:
  assumes "tables_typed dt"
  shows "\<exists>r. ConsumeNextInstruction cb dt m ms v = Inr r"
proof -
  let ?ms1 = "ConsumePrefixBytes dt m (InitDecoder ms)"
  obtain ms2 v2 where 2: "ConsumeOpcodeBytes cb dt m ?ms1 v = Inr (ms2, v2)" "immtype (inst ms2) \<noteq> IMM_UNKNOWN"
    using ConsumeOpcodeBytes_total [OF assms, of cb m ?ms1 v] by blast
  have "opinfo ms2 \<noteq> None" using 2(1) by (auto elim!: ConsumeOpcodeBytes_cases)
  then obtain ms3 v3 where 3: "ConsumeModRM cb dt m ms2 v2 = Inr (ms3, v3)"
    using ConsumeModRM_total [OF _ 2(2), of _ cb dt m v2] by fastforce
  obtain ms4 v4 where 4: "ConsumeSIB cb m ms3 v3 = (ms4, v4)" by fastforce
  obtain ms5 v5 where 5: "ConsumeID cb ms4 v4 = (ms5, v5)" by fastforce
  have "opinfo ms3 \<noteq> None" using ConsumeModRM_keeps_opinfo [OF 3] by auto
  moreover have "opinfo ms4 = opinfo ms3" using 4 by (auto simp: ConsumeSIB_def Let_def split: if_splits)
  moreover have "opinfo ms5 = opinfo ms4" using 5 by (auto simp: ConsumeID_def Let_def)
  ultimately obtain op where "opinfo ms5 = Some op" by auto
  then have "\<exists>ms6. MaybeGet3ByteOpInfo dt m ms5 = Inr ms6" by (simp add: MaybeGet3ByteOpInfo_def Let_def)
  then obtain ms6 where "MaybeGet3ByteOpInfo dt m ms5 = Inr ms6" by blast
  then show ?thesis using 2(1) 3 4 5 by (simp add: ConsumeNextInstruction_def)
qed

section \<open>Properties of the decoder\<close>

text \<open>C29: One call of \<open>ConsumeNextInstruction\<close> consumes between 1 and 19 bytes, records the
  instruction's start, length and end consistently, advances the program counter by exactly the
  length, and its result depends on no memory beyond the 20 bytes from the instruction's start.\<close>

theorem ConsumeNextInstruction_bounds:
  assumes "nextbyte ms = mpc ms" and "ConsumeNextInstruction cb dt m ms v = Inr (newpc, ms', v')"
    and "\<And>k. k < 20 \<Longrightarrow> m' (mpc ms + of_nat k) = m (mpc ms + of_nat k)"
  shows "1 \<le> unat (inst_length (inst ms')) \<and> unat (inst_length (inst ms')) \<le> 19 \<and>
         maddr (inst ms') = mpc ms \<and> vaddr (inst ms') = vpc ms \<and>
         nextbyte ms' = mpc ms + ucast (inst_length (inst ms')) \<and>
         newpc = vpc ms + ucast (inst_length (inst ms')) \<and>
         ConsumeNextInstruction cb dt m' ms v = Inr (newpc, ms', v')"
proof -
  have "mem_agree m' m (mpc ms) 20" using assms(3) by (simp add: mem_agree_def)
  then show ?thesis
    using ConsumeNextInstruction_decoded [OF assms(1,2)] ConsumeNextInstruction_cong [OF assms(1), of m' m cb dt v]
      assms(2) by (simp add: decoded_at_def)
qed

text \<open>
  A table with the entries of \<open>ncdecode_table.c\<close> for the instructions of a masked indirect jump, a
  short jump, a no-op and a halt; every other opcode is illegal.
\<close>

definition op_entry :: "NaClInstType \<Rightarrow> u8 \<Rightarrow> NCDecodeImmediateType \<Rightarrow> u8 \<Rightarrow> OpInfo" where
  "op_entry t h i g = \<lparr>insttype = t, hasmrmbyte = h, op_immtype = i, opinmrm = g\<rparr>"

definition sample_1byte :: "u8 \<Rightarrow> OpInfo" where
  "sample_1byte b =
     (if b = 0x90 \<or> b = 0xf4 then op_entry NACLi_386 0 IMM_NONE 0
      else if b = 0x83 then op_entry NACLi_OPINMRM 1 IMM_FIXED1 1
      else if b = 0xeb then op_entry NACLi_JMP8 0 IMM_FIXED1 0
      else if b = 0xff then op_entry NACLi_OPINMRM 1 IMM_NONE 5
      else op_entry NACLi_ILLEGAL 0 IMM_NONE 0)"

definition sample_modrm :: "u8 \<Rightarrow> u8 \<Rightarrow> OpInfo" where
  "sample_modrm g r =
     (if g = 5 \<and> (r = 2 \<or> r = 4) then op_entry NACLi_INDIRECT 1 IMM_NONE 0
      else if g = 1 then op_entry NACLi_386 1 IMM_FIXED1 0
      else op_entry NACLi_ILLEGAL 1 IMM_NONE 0)"

definition illegal_ops :: "u8 \<Rightarrow> OpInfo" where
  "illegal_ops b = op_entry NACLi_ILLEGAL 0 IMM_NONE 0"

definition sample_tables :: DecodeTables where
  "sample_tables = \<lparr>
     kPrefixTable = (\<lambda>b. if b = 0x66 then kPrefixDATA16 else if b = 0xf0 then kPrefixLOCK else 0),
     kDecode1ByteOp = sample_1byte, kDecode0FXXOp = illegal_ops, kDecode660FXXOp = illegal_ops,
     kDecodeF20FXXOp = illegal_ops, kDecodeF30FXXOp = illegal_ops, kDecode0F38Op = illegal_ops,
     kDecode660F38Op = illegal_ops, kDecodeF20F38Op = illegal_ops, kDecode0F3AOp = illegal_ops,
     kDecode660F3AOp = illegal_ops, kDecode0F0FOp = illegal_ops, kDecodeModRMOp = sample_modrm,
     kDecode87D8 = illegal_ops, kDecode87D9 = illegal_ops, kDecode87DA = illegal_ops, kDecode87DB = illegal_ops,
     kDecode87DC = illegal_ops, kDecode87DD = illegal_ops, kDecode87DE = illegal_ops, kDecode87DF = illegal_ops, ndebug = False\<rparr>"

definition blank_inst :: InstInfo where
  "blank_inst = \<lparr>vaddr = 0, maddr = 0, prefixbytes = 0, hasopbyte2 = 0, hasopbyte3 = 0, hassibbyte = 0, mrm = 0,
     immtype = IMM_UNKNOWN, dispbytes = 0, inst_length = 0, prefixmask = 0, rexprefix = 0\<rparr>"

definition blank_state :: NCDecoderState where
  "blank_state = \<lparr>mpc = 0, nextbyte = 0, dbindex = 0, vpc = 0, opinfo = None, inst = blank_inst\<rparr>"

text \<open>\<open>and $0xe0, %eax; jmp *%eax\<close> at address 0x1000.\<close>

definition nacljmp_mem :: memory where
  "nacljmp_mem = mem_write (\<lambda>_. 0xf4) 0x1000 [0x83, 0xe0, 0xe0, 0xff, 0xe0]"

definition quiet_client :: "bool NCCallbacks" where
  "quiet_client = \<lparr>g_DecoderAction = (\<lambda>db cur s. Inr s), g_NewSegment = id, g_SegFault = (\<lambda>_. True),
     g_InternalError = (\<lambda>_. True)\<rparr>"

definition nacljmp_start :: NCDecoderState where
  "nacljmp_start = blank_state\<lparr>mpc := 0x1000, nextbyte := 0x1000, vpc := 0x20000\<rparr>"

definition nacljmp_and :: NCDecoderState where
  "nacljmp_and = \<lparr>mpc = 0x1000, nextbyte = 0x1003, dbindex = 0, vpc = 0x20000,
     opinfo = Some (op_entry NACLi_386 1 IMM_FIXED1 0),
     inst = \<lparr>vaddr = 0x20000, maddr = 0x1000, prefixbytes = 0, hasopbyte2 = 0, hasopbyte3 = 0, hassibbyte = 0,
             mrm = 0xe0, immtype = IMM_FIXED1, dispbytes = 0, inst_length = 3, prefixmask = 0, rexprefix = 0\<rparr>\<rparr>"

lemma decode_nacljmp_and:
  "ConsumeNextInstruction quiet_client sample_tables nacljmp_mem nacljmp_start False = Inr (0x20003, nacljmp_and, False)"
  by code_simp

theorem ConsumeNextInstruction_bounds_witness:
  "unat (inst_length (inst nacljmp_and)) \<le> 19 \<and> vaddr (inst nacljmp_and) = 0x20000 \<and>
   ConsumeNextInstruction quiet_client sample_tables (nacljmp_mem(0x1000 - 1 := 0)) nacljmp_start False =
     Inr (0x20003, nacljmp_and, False)"
proof -
  have "nextbyte nacljmp_start = mpc nacljmp_start" by (simp add: nacljmp_start_def)
  moreover have "(nacljmp_mem(0x1000 - 1 := 0)) (mpc nacljmp_start + of_nat k) = nacljmp_mem (mpc nacljmp_start + of_nat k)"
    if "k < 20" for k
  proof -
    have "unat (0x1000 + of_nat k :: u32) \<noteq> unat (0xfff :: u32)"
      using that unat_add_no_wrap [of "0x1000 :: u32" "of_nat k"] by (simp add: unat_of_nat)
    then have "(0x1000 + of_nat k :: u32) \<noteq> 0xfff" by metis
    then show ?thesis by (simp add: nacljmp_start_def)
  qed
  ultimately show ?thesis
    using ConsumeNextInstruction_bounds [OF _ decode_nacljmp_and, of "nacljmp_mem(0x1000 - 1 := 0)"]
    by (simp add: nacljmp_start_def blank_state_def)
qed

text \<open>C30: \<open>NCDecodeSegment\<close> always returns when the segment ends at least 19 bytes below the top of the
  32-bit address space: every round moves the program counter forward by at least one byte and cannot
  wrap past the segment's limit.\<close>

theorem NCDecodeSegment_terminates:
  assumes "length stack = 4" and "unat vbase + unat sz + 19 < 2 ^ 32"
  shows "\<exists>r. NCDecodeSegment cb dt stack mbase vbase sz m v = Some r"
proof -
  obtain db cur where i: "InitDecodeBuffer mbase vbase stack = (db, cur)" by fastforce
  have "unat (vbase + sz) = unat vbase + unat sz" by (rule unat_add_no_wrap) (use assms(2) in simp)
  then have "unat (vbase + sz) + 19 < 2 ^ 32" using assms(2) by simp
  from decode_loop_ends [OF InitDecodeBuffer_ring(1) [OF assms(1) i] this, of cb dt m "g_NewSegment cb v"]
  show ?thesis by (simp add: NCDecodeSegment_def i)
qed

theorem NCDecodeSegment_terminates_witness:
  "\<exists>r. NCDecodeSegment quiet_client sample_tables (replicate 4 blank_state) 0x1000 0x20000 5 nacljmp_mem False = Some r"
  by (rule NCDecodeSegment_terminates) simp_all

end
