(* ===== verification/Ncvalidate.thy ===== *)
theory Ncvalidate
  imports Ncdecode
begin

text \<open>
  The x86-32 validator, \<open>validator_x86/ncvalidate.c\<close>: the statistics, the jump target tables, the
  per-instruction checks run as the action of the decoder, and the final pass over the tables.
  The processor's features (\<open>GetCPUFeatures\<close>, CPUID) are a parameter. Diagnostic texts are not
  modelled, the count of diagnostics left is.
\<close>

section \<open>Types of \<open>ncvalidate_internaltypes.h\<close> and \<open>nacl_cpuid.h\<close>\<close>

record CPUFeatures =
  f_386 :: bool
  f_x87 :: bool
  f_MMX :: bool
  f_SSE :: bool
  f_SSE2 :: bool
  f_SSE3 :: bool
  f_SSSE3 :: bool
  f_SSE41 :: bool
  f_SSE42 :: bool
  f_MOVBE :: bool
  f_POPCNT :: bool
  f_CX8 :: bool
  f_CX16 :: bool
  f_CMOV :: bool
  f_MON :: bool
  f_FXSR :: bool
  f_CLFLUSH :: bool
  f_TSC :: bool
  f_MSR :: bool
  f_VME :: bool
  f_PSN :: bool
  f_VMX :: bool
  f_3DNOW :: bool
  f_EMMX :: bool
  f_E3DNOW :: bool
  f_LZCNT :: bool
  f_SSE4A :: bool
  f_LM :: bool
  f_SVM :: bool

record SummaryStats =
  instructions :: u32
  checktarget :: u32
  targetindirect :: u32
  segments :: u32
  badtarget :: u32
  unsafeindirect :: u32
  returns :: u32
  illegalinst :: u32
  badalignment :: u32
  segfaults :: u32
  badprefix :: u32
  badinstlength :: u32
  internalerrors :: u32
  badcpu :: u32
  sawfailure :: int

record NCValidatorState =
  cpufeatures :: CPUFeatures
  iadrbase :: u32
  iadrlimit :: u32
  alignment :: u8
  alignmask :: u32
  stats :: SummaryStats
  opcodehisto :: "u8 \<Rightarrow> u32"
  vttable :: "u8 list"
  kttable :: "u8 list"
  do_stub_out :: bool
  num_diagnostics :: int

type_synonym vstate = NCValidatorState

definition kNaClFullStop :: u8 where "kNaClFullStop = 0xf4"

text \<open>\<open>memset(a, v, n)\<close>\<close>

definition mem_set :: "memory \<Rightarrow> uintptr_t \<Rightarrow> u8 \<Rightarrow> nat \<Rightarrow> memory" where
  "mem_set m a v n = mem_write m a (replicate n v)"

section \<open>Diagnostics and statistics\<close>

definition ValidatePrintError :: "vstate \<Rightarrow> vstate" where
  "ValidatePrintError vs =
     (if num_diagnostics vs \<noteq> 0 then vs\<lparr>num_diagnostics := num_diagnostics vs - 1\<rparr> else vs)"

definition BadInstructionError :: "NCDecoderState \<Rightarrow> memory \<times> vstate \<Rightarrow> memory \<times> vstate" where
  "BadInstructionError mstate s =
     (case s of (m, vs) \<Rightarrow>
      (if do_stub_out vs
       then mem_set m (maddr (inst mstate)) kNaClFullStop (unat (inst_length (inst mstate))) else m,
       ValidatePrintError vs))"

definition OpcodeHisto :: "u8 \<Rightarrow> vstate \<Rightarrow> vstate" where
  "OpcodeHisto byte1 vs = vs\<lparr>opcodehisto := (opcodehisto vs)(byte1 := opcodehisto vs byte1 + 1)\<rparr>"

definition InitOpcodeHisto :: "vstate \<Rightarrow> vstate" where
  "InitOpcodeHisto vs = vs\<lparr>opcodehisto := (\<lambda>_. 0)\<rparr>"

definition Stats_Inst :: "vstate \<Rightarrow> vstate" where
  "Stats_Inst vs = vs\<lparr>stats := (stats vs)\<lparr>instructions := instructions (stats vs) + 1\<rparr>\<rparr>"

definition Stats_CheckTarget :: "vstate \<Rightarrow> vstate" where
  "Stats_CheckTarget vs = vs\<lparr>stats := (stats vs)\<lparr>checktarget := checktarget (stats vs) + 1\<rparr>\<rparr>"

definition Stats_TargetIndirect :: "vstate \<Rightarrow> vstate" where
  "Stats_TargetIndirect vs = vs\<lparr>stats := (stats vs)\<lparr>targetindirect := targetindirect (stats vs) + 1\<rparr>\<rparr>"

definition Stats_SawFailure :: "vstate \<Rightarrow> vstate" where
  "Stats_SawFailure vs = vs\<lparr>stats := (stats vs)\<lparr>sawfailure := 1\<rparr>\<rparr>"

definition Stats_InternalError :: "vstate \<Rightarrow> vstate" where
  "Stats_InternalError vs =
     Stats_SawFailure (vs\<lparr>stats := (stats vs)\<lparr>internalerrors := internalerrors (stats vs) + 1\<rparr>\<rparr>)"

definition Stats_BadCPU :: "vstate \<Rightarrow> vstate" where
  "Stats_BadCPU vs = Stats_SawFailure (vs\<lparr>stats := (stats vs)\<lparr>badcpu := badcpu (stats vs) + 1\<rparr>\<rparr>)"

definition Stats_BadAlignment :: "vstate \<Rightarrow> vstate" where
  "Stats_BadAlignment vs =
     Stats_SawFailure (vs\<lparr>stats := (stats vs)\<lparr>badalignment := badalignment (stats vs) + 1\<rparr>\<rparr>)"

definition Stats_SegFault :: "vstate \<Rightarrow> vstate" where
  "Stats_SegFault vs = Stats_SawFailure (vs\<lparr>stats := (stats vs)\<lparr>segfaults := segfaults (stats vs) + 1\<rparr>\<rparr>)"

definition Stats_NewSegment :: "vstate \<Rightarrow> vstate" where
  "Stats_NewSegment vs =
     (let vs1 = vs\<lparr>stats := (stats vs)\<lparr>segments := segments (stats vs) + 1\<rparr>\<rparr> in
      if segments (stats vs1) > 1 then Stats_SawFailure vs1 else vs1)"

definition Stats_BadTarget :: "vstate \<Rightarrow> vstate" where
  "Stats_BadTarget vs = Stats_SawFailure (vs\<lparr>stats := (stats vs)\<lparr>badtarget := badtarget (stats vs) + 1\<rparr>\<rparr>)"

definition Stats_UnsafeIndirect :: "vstate \<Rightarrow> vstate" where
  "Stats_UnsafeIndirect vs =
     Stats_SawFailure (vs\<lparr>stats := (stats vs)\<lparr>unsafeindirect := unsafeindirect (stats vs) + 1\<rparr>\<rparr>)"

definition Stats_Return :: "vstate \<Rightarrow> vstate" where
  "Stats_Return vs =
     Stats_SawFailure (Stats_UnsafeIndirect (vs\<lparr>stats := (stats vs)\<lparr>returns := returns (stats vs) + 1\<rparr>\<rparr>))"

definition Stats_IllegalInst :: "vstate \<Rightarrow> vstate" where
  "Stats_IllegalInst vs =
     Stats_SawFailure (vs\<lparr>stats := (stats vs)\<lparr>illegalinst := illegalinst (stats vs) + 1\<rparr>\<rparr>)"

definition Stats_BadPrefix :: "vstate \<Rightarrow> vstate" where
  "Stats_BadPrefix vs =
     Stats_SawFailure (vs\<lparr>stats := (stats vs)\<lparr>badprefix := badprefix (stats vs) + 1,
                                              illegalinst := illegalinst (stats vs) + 1\<rparr>\<rparr>)"

definition Stats_BadInstLength :: "vstate \<Rightarrow> vstate" where
  "Stats_BadInstLength vs =
     Stats_SawFailure (vs\<lparr>stats := (stats vs)\<lparr>badinstlength := badinstlength (stats vs) + 1\<rparr>\<rparr>)"

text \<open>\<open>inited\<close> is the function's static flag: only the first call of the process clears the
  counters, all but \<open>segfaults\<close>.\<close>

definition Stats_Init :: "bool \<Rightarrow> vstate \<Rightarrow> vstate" where
  "Stats_Init inited vs =
     (if inited then vs
      else InitOpcodeHisto (vs\<lparr>stats := (stats vs)\<lparr>instructions := 0, segments := 0, checktarget := 0,
        targetindirect := 0, badtarget := 0, unsafeindirect := 0, returns := 0, illegalinst := 0,
        badalignment := 0, internalerrors := 0, badcpu := 0, badinstlength := 0, badprefix := 0,
        sawfailure := 0\<rparr>\<rparr>))"

section \<open>The jump target tables\<close>

definition iadrmasks :: "u8 list" where
  "iadrmasks = [0x01, 0x02, 0x04, 0x08, 0x10, 0x20, 0x40, 0x80]"

definition IATOffset :: "u32 \<Rightarrow> nat" where "IATOffset ia = unat (drop_bit 3 ia)"
definition IATMask :: "u32 \<Rightarrow> u8" where "IATMask ia = iadrmasks ! unat (ia AND 0x7)"

definition SetAdrTable :: "u32 \<Rightarrow> u8 list \<Rightarrow> u8 list" where
  "SetAdrTable ioff tab = tab[IATOffset ioff := (tab ! IATOffset ioff) OR IATMask ioff]"

definition ClearAdrTable :: "u32 \<Rightarrow> u8 list \<Rightarrow> u8 list" where
  "ClearAdrTable ioff tab = tab[IATOffset ioff := (tab ! IATOffset ioff) AND NOT (IATMask ioff)]"

definition GetAdrTable :: "u32 \<Rightarrow> u8 list \<Rightarrow> bool" where
  "GetAdrTable ioff tab \<longleftrightarrow> (tab ! IATOffset ioff) AND IATMask ioff \<noteq> 0"

text \<open>\<open>BadPrefixMask\<close> as \<open>InitBadPrefixMask\<close> fills it.\<close>

definition BadPrefixMask :: "NaClInstType \<Rightarrow> u32" where
  "BadPrefixMask t =
     (if t = NACLi_386 then NOT (kPrefixDATA16 OR kPrefixSEGGS)
      else if t = NACLi_386L then NOT (kPrefixDATA16 OR kPrefixLOCK)
      else if t = NACLi_386R then NOT (kPrefixDATA16 OR kPrefixREP)
      else if t = NACLi_386RE then NOT (kPrefixDATA16 OR kPrefixREP OR kPrefixREPNE)
      else if t = NACLi_JMP8 then NOT (kPrefixSEGCS OR kPrefixSEGDS)
      else if t = NACLi_JMPZ then NOT (kPrefixSEGCS OR kPrefixSEGDS)
      else if t = NACLi_CMPXCHG8B then NOT kPrefixLOCK
      else 0xffffffff)"

definition no_features :: CPUFeatures where
  "no_features = \<lparr>f_386 = False, f_x87 = False, f_MMX = False, f_SSE = False, f_SSE2 = False, f_SSE3 = False,
     f_SSSE3 = False, f_SSE41 = False, f_SSE42 = False, f_MOVBE = False, f_POPCNT = False, f_CX8 = False,
     f_CX16 = False, f_CMOV = False, f_MON = False, f_FXSR = False, f_CLFLUSH = False, f_TSC = False,
     f_MSR = False, f_VME = False, f_PSN = False, f_VMX = False, f_3DNOW = False, f_EMMX = False,
     f_E3DNOW = False, f_LZCNT = False, f_SSE4A = False, f_LM = False, f_SVM = False\<rparr>"

definition zero_stats :: SummaryStats where
  "zero_stats = \<lparr>instructions = 0, checktarget = 0, targetindirect = 0, segments = 0, badtarget = 0,
     unsafeindirect = 0, returns = 0, illegalinst = 0, badalignment = 0, segfaults = 0, badprefix = 0,
     badinstlength = 0, internalerrors = 0, badcpu = 0, sawfailure = 0\<rparr>"

text \<open>
  What the process supplies to the validator: the static diagnostics limit and \<open>inited\<close> flag, whether
  its three allocations succeed, and the processor's features.
\<close>

record valid_env =
  kMaxDiagnostics :: int
  stats_inited :: bool
  calloc_ok :: bool
  cpu :: CPUFeatures

definition NCValidateInit :: "valid_env \<Rightarrow> u32 \<Rightarrow> u32 \<Rightarrow> u8 \<Rightarrow> vstate option" where
  "NCValidateInit env vbase vlimit align =
     (if vlimit \<le> vbase then None
      else if align \<noteq> 16 \<and> align \<noteq> 32 then None
      else if vbase AND (ucast align - 1) \<noteq> 0 then None
      else if \<not> calloc_ok env then None
      else Some (Stats_Init (stats_inited env)
        \<lparr>cpufeatures = no_features, iadrbase = vbase, iadrlimit = vlimit, alignment = align,
         alignmask = ucast align - 1, stats = zero_stats, opcodehisto = (\<lambda>_. 0),
         vttable = replicate (IATOffset (vlimit - vbase) + 1) 0,
         kttable = replicate (IATOffset (vlimit - vbase) + 1) 0,
         do_stub_out = False, num_diagnostics = kMaxDiagnostics env\<rparr>))"

definition NCValidateSetStubOutMode :: "vstate \<Rightarrow> bool \<Rightarrow> vstate" where
  "NCValidateSetStubOutMode vs b = vs\<lparr>do_stub_out := b\<rparr>"

definition RememberIP :: "NaClPcAddress \<Rightarrow> vstate \<Rightarrow> vstate" where
  "RememberIP ip vs =
     (let ioffset = ip - iadrbase vs in
      if ip < iadrbase vs \<or> ip \<ge> iadrlimit vs then Stats_BadTarget (ValidatePrintError vs)
      else if GetAdrTable ioffset (vttable vs) then Stats_InternalError vs
      else (Stats_Inst vs)\<lparr>vttable := SetAdrTable ioffset (vttable vs)\<rparr>)"

definition RememberTP :: "NaClPcAddress \<Rightarrow> vstate \<Rightarrow> vstate" where
  "RememberTP target vs =
     (let ioffset = target - iadrbase vs in
      if iadrbase vs \<le> target \<and> target < iadrlimit vs
        then vs\<lparr>kttable := SetAdrTable ioffset (kttable vs)\<rparr>
      else if target AND alignmask vs = 0 then vs
      else Stats_BadTarget (ValidatePrintError vs))"

definition ForgetIP :: "NaClPcAddress \<Rightarrow> vstate \<Rightarrow> vstate" where
  "ForgetIP ip vs =
     (let ioffset = ip - iadrbase vs in
      if ip < iadrbase vs \<or> ip \<ge> iadrlimit vs then Stats_BadTarget (ValidatePrintError vs)
      else vs\<lparr>vttable := ClearAdrTable ioffset (vttable vs)\<rparr>)"

text \<open>The two loops of \<open>NCValidateFinish\<close>; the second may wrap around and then never ends.\<close>

definition check_target :: "u32 \<Rightarrow> vstate \<Rightarrow> vstate" where
  "check_target off vs =
     (if GetAdrTable off (kttable vs) then
        let vs1 = Stats_CheckTarget vs in
        if \<not> GetAdrTable off (vttable vs1) then Stats_BadTarget (ValidatePrintError vs1) else vs1
      else vs)"

definition check_targets :: "vstate \<Rightarrow> vstate" where
  "check_targets vs = fold (\<lambda>i. check_target (of_nat i)) [0..<unat (iadrlimit vs - iadrbase vs)] vs"

partial_function (option) boundary_loop :: "u32 \<Rightarrow> vstate \<Rightarrow> vstate option" where
  "boundary_loop off vs =
     (if off < iadrlimit vs - iadrbase vs then
        boundary_loop (off + ucast (alignment vs))
          (if \<not> GetAdrTable off (vttable vs) then Stats_BadAlignment (ValidatePrintError vs) else vs)
      else Some vs)"

declare boundary_loop.simps [code]

definition NCValidateFinish :: "vstate option \<Rightarrow> (int \<times> vstate option) option" where
  "NCValidateFinish vstate =
     (case vstate of None \<Rightarrow> Some (1, None)
      | Some vs \<Rightarrow>
        let vs1 = check_targets vs;
            vs2 = (if iadrbase vs1 AND alignmask vs1 \<noteq> 0 then Stats_BadAlignment (ValidatePrintError vs1) else vs1) in
        case boundary_loop 0 vs2 of None \<Rightarrow> None
        | Some vs3 \<Rightarrow> Some (sawfailure (stats vs3), Some vs3))"

section \<open>The checks on one instruction\<close>

definition ValidateSFenceClFlush :: "memory \<Rightarrow> NCDecoderState \<Rightarrow> vstate \<Rightarrow> bool" where
  "ValidateSFenceClFlush m mstate vs =
     (let mb = m (maddr (inst mstate) + 2) in
      if modrm_mod mb = 3 then \<not> f_FXSR (cpufeatures vs) else \<not> f_CLFLUSH (cpufeatures vs))"

definition ValidateCallAlignment :: "NCDecoderState \<Rightarrow> vstate \<Rightarrow> vstate" where
  "ValidateCallAlignment mstate vs =
     (let fallthru = vaddr (inst mstate) + ucast (inst_length (inst mstate)) in
      if fallthru AND alignmask vs \<noteq> 0 then Stats_BadAlignment (ValidatePrintError vs) else vs)"

definition ValidateJmp8 :: "memory \<Rightarrow> NCDecoderState \<Rightarrow> vstate \<Rightarrow> vstate" where
  "ValidateJmp8 m mstate vs =
     (let i = inst mstate;
          opcode = m (maddr i + ucast (prefixbytes i));
          offset = m (maddr i + ucast (prefixbytes i) + 1);
          target = vaddr i + ucast (inst_length i) + scast offset;
          vs1 = Stats_CheckTarget vs in
      if opcode AND 0xf0 = 0x70 \<or> opcode = 0xeb \<or> opcode = 0xe0 \<or> opcode = 0xe1 \<or> opcode = 0xe2 \<or> opcode = 0xe3
      then RememberTP target vs1
      else Stats_InternalError vs1)"

text \<open>The 32-bit little-endian load \<open>*(int32_t *) p\<close>.\<close>

definition load32 :: "memory \<Rightarrow> uintptr_t \<Rightarrow> u32" where
  "load32 m a = ucast (m a) OR push_bit 8 (ucast (m (a + 1))) OR push_bit 16 (ucast (m (a + 2)))
     OR push_bit 24 (ucast (m (a + 3)))"

definition ValidateJmpz :: "memory \<Rightarrow> NCDecoderState \<Rightarrow> vstate \<Rightarrow> vstate" where
  "ValidateJmpz m mstate vs =
     (let i = inst mstate;
          opcode = maddr i + ucast (prefixbytes i);
          vs1 = Stats_CheckTarget vs in
      if m opcode = 0xe8 \<or> m opcode = 0xe9 then
        let vs2 = RememberTP (vaddr i + ucast (inst_length i) + load32 m (opcode + 1)) vs1 in
        if m opcode = 0xe8 then ValidateCallAlignment mstate vs2 else vs2
      else if m opcode = 0x0f then
        if m (opcode + 1) AND 0xf0 = 0x80
        then RememberTP (vaddr i + ucast (inst_length i) + load32 m (opcode + 2)) vs1
        else vs1
      else Stats_InternalError vs1)"

definition kReg_ESP :: u8 where "kReg_ESP = 4"

text \<open>The chain of \<open>break\<close>s of \<open>ValidateIndirect5\<close>: true when every check passes.\<close>

definition indirect5_ok :: "memory \<Rightarrow> InstInfo \<Rightarrow> InstInfo \<Rightarrow> u32 \<Rightarrow> bool" where
  "indirect5_ok m jmpinst andinst amask =
     (let jmpopcode = maddr jmpinst; andopcode = maddr andinst; mb = m (jmpopcode + 1); targetreg = modrm_rm mb in
      prefixbytes jmpinst = 0 \<and> prefixbytes andinst = 0 \<and> m jmpopcode = 0xff \<and>
      (modrm_reg mb = 2 \<or> modrm_reg mb = 4) \<and> modrm_mod mb = 3 \<and> targetreg \<noteq> kReg_ESP \<and>
      m andopcode = 0x83 \<and> m (andopcode + 1) = 0xe0 OR targetreg \<and>
      ucast (m (andopcode + 2)) = 0x0ff AND NOT amask)"

definition ValidateIndirect5 :: "NCDecoderState list \<Rightarrow> NCDecoderState \<Rightarrow> memory \<times> vstate \<Rightarrow> memory \<times> vstate" where
  "ValidateIndirect5 db mstate s =
     (case s of (m, vs) \<Rightarrow>
      let andinst = inst (db ! PreviousInst db mstate (- 1)) in
      if inst_length andinst = 0 then apsnd Stats_UnsafeIndirect (BadInstructionError mstate (m, vs))
      else
        let vs1 = Stats_TargetIndirect (Stats_CheckTarget vs) in
        if indirect5_ok m (inst mstate) andinst (alignmask vs1) then
          let vs2 = ForgetIP (vaddr (inst mstate)) vs1 in
          (m, if modrm_reg (m (maddr (inst mstate) + 1)) = 2 then ValidateCallAlignment mstate vs2 else vs2)
        else apsnd Stats_UnsafeIndirect (BadInstructionError mstate (m, vs1)))"

definition kMaxValidPrefixBytes :: nat where "kMaxValidPrefixBytes = 1"
definition kMaxValidInstLength :: u32 where "kMaxValidInstLength = 11"

text \<open>The conditions under which the prefix check of \<open>ValidateInst\<close> breaks out without an error.\<close>

definition prefix_usage_ok :: "NCDecoderState \<Rightarrow> OpInfo \<Rightarrow> bool" where
  "prefix_usage_ok mstate op =
     (let i = inst mstate in
      if prefixbytes i = 0 then True
      else if unat (prefixbytes i) \<le> kMaxValidPrefixBytes then
        (if hasopbyte2 i \<noteq> 0 then
           (if prefixmask i AND kPrefixLOCK \<noteq> 0
            then insttype op = NACLi_386L \<or> insttype op = NACLi_CMPXCHG8B else True)
         else prefixmask i AND BadPrefixMask (insttype op) = 0)
      else if prefixbytes i = 2 \<and> prefixmask i = kPrefixLOCK OR kPrefixDATA16
        then insttype op = NACLi_386L
      else False)"

text \<open>The instruction types whose only condition is a processor feature: true squashes them.\<close>

fun feature_missing :: "CPUFeatures \<Rightarrow> NaClInstType \<Rightarrow> bool option" where
  "feature_missing c NACLi_X87 = Some (\<not> f_x87 c)"
| "feature_missing c NACLi_CMPXCHG8B = Some (\<not> f_CX8 c)"
| "feature_missing c NACLi_CMOV = Some (\<not> f_CMOV c)"
| "feature_missing c NACLi_FCMOV = Some (\<not> (f_CMOV c \<and> f_x87 c))"
| "feature_missing c NACLi_RDTSC = Some (\<not> f_TSC c)"
| "feature_missing c NACLi_MMX = Some (\<not> f_MMX c)"
| "feature_missing c NACLi_MMXSSE2 = Some (\<not> (f_MMX c \<or> f_SSE2 c))"
| "feature_missing c NACLi_SSE = Some (\<not> f_SSE c)"
| "feature_missing c NACLi_SSE2 = Some (\<not> f_SSE2 c)"
| "feature_missing c NACLi_SSE3 = Some (\<not> f_SSE3 c)"
| "feature_missing c NACLi_SSE4A = Some (\<not> f_SSE4A c)"
| "feature_missing c NACLi_SSE41 = Some (\<not> f_SSE41 c)"
| "feature_missing c NACLi_SSE42 = Some (\<not> f_SSE42 c)"
| "feature_missing c NACLi_MOVBE = Some (\<not> f_MOVBE c)"
| "feature_missing c NACLi_POPCNT = Some (\<not> f_POPCNT c)"
| "feature_missing c NACLi_LZCNT = Some (\<not> f_LZCNT c)"
| "feature_missing c NACLi_SSSE3 = Some (\<not> f_SSSE3 c)"
| "feature_missing c NACLi_3DNOW = Some (\<not> f_3DNOW c)"
| "feature_missing c NACLi_E3DNOW = Some (\<not> f_E3DNOW c)"
| "feature_missing c _ = None"

definition always_illegal :: "NaClInstType \<Rightarrow> bool" where
  "always_illegal t \<longleftrightarrow> t \<in> {NACLi_EMMX, NACLi_INVALID, NACLi_ILLEGAL, NACLi_SYSTEM, NACLi_RDMSR, NACLi_RDTSCP,
     NACLi_SYSCALL, NACLi_SYSENTER, NACLi_LONGMODE, NACLi_SVM, NACLi_OPINMRM, NACLi_3BYTE, NACLi_CMPXCHG16B}"

text \<open>The \<open>switch\<close> on the instruction type: the new state and \<open>squashme\<close>.\<close>

definition inst_switch ::
    "NCDecoderState list \<Rightarrow> NCDecoderState \<Rightarrow> OpInfo \<Rightarrow> memory \<times> vstate \<Rightarrow> (memory \<times> vstate) \<times> bool" where
  "inst_switch db mstate op s =
     (let t = insttype op; c = cpufeatures (snd s) in
      if t \<in> {NACLi_386, NACLi_386L, NACLi_386R, NACLi_386RE} then (s, False)
      else if t = NACLi_JMP8 then (apsnd (ValidateJmp8 (fst s) mstate) s, False)
      else if t = NACLi_JMPZ then (apsnd (ValidateJmpz (fst s) mstate) s, False)
      else if t = NACLi_INDIRECT then (ValidateIndirect5 db mstate s, False)
      else if t = NACLi_SFENCE_CLFLUSH then (s, ValidateSFenceClFlush (fst s) mstate (snd s))
      else if t = NACLi_SSE2x then
        (if prefixmask (inst mstate) AND kPrefixDATA16 = 0
         then apsnd Stats_BadPrefix (BadInstructionError mstate s) else s, \<not> f_SSE2 c)
      else case feature_missing c t of Some q \<Rightarrow> (s, q)
      | None \<Rightarrow>
        if t = NACLi_RETURN then
          (apsnd Stats_IllegalInst (BadInstructionError mstate
             (apsnd Stats_Return (BadInstructionError mstate s))), False)
        else if always_illegal t then (apsnd Stats_IllegalInst (BadInstructionError mstate s), False)
        else if t = NACLi_UNDEFINED then
          (apsnd (Stats_InternalError \<circ> Stats_IllegalInst) (BadInstructionError mstate s), False)
        else (apsnd Stats_InternalError (BadInstructionError mstate s), False))"

definition check_prefix_and_length :: "NCDecoderState \<Rightarrow> OpInfo \<Rightarrow> memory \<times> vstate \<Rightarrow> memory \<times> vstate" where
  "check_prefix_and_length mstate op s =
     (let i = inst mstate;
          s1 = (if prefix_usage_ok mstate op then s else apsnd Stats_BadPrefix (BadInstructionError mstate s)) in
      if ucast (inst_length i) - ucast (prefixbytes i) > kMaxValidInstLength
      then apsnd Stats_BadInstLength (BadInstructionError mstate s1) else s1)"

definition ValidateInst :: "NCDecoderState list \<Rightarrow> nat \<Rightarrow> memory \<times> vstate \<Rightarrow> (memory \<times> vstate) res" where
  "ValidateInst db cur s =
     (case s of (m, vs) \<Rightarrow>
      let mstate = db ! cur; i = inst mstate in
      case opinfo mstate of None \<Rightarrow> Inl NullDeref
      | Some op \<Rightarrow>
        let vs1 = RememberIP (vaddr i) (OpcodeHisto (m (maddr i + ucast (prefixbytes i))) vs) in
        case inst_switch db mstate op (check_prefix_and_length mstate op (m, vs1)) of ((m2, vs2), squashme) \<Rightarrow>
        Inr (if squashme then mem_set m2 (maddr i) kNaClFullStop (unat (inst_length i)) else m2, vs2))"

section \<open>Validating a segment\<close>

definition validator_callbacks :: "vstate NCCallbacks" where
  "validator_callbacks = \<lparr>g_DecoderAction = ValidateInst, g_NewSegment = Stats_NewSegment,
     g_SegFault = Stats_SegFault, g_InternalError = Stats_InternalError\<rparr>"

definition NCValidateSegment ::
    "valid_env \<Rightarrow> DecodeTables \<Rightarrow> NCDecoderState list \<Rightarrow> uintptr_t \<Rightarrow> NaClPcAddress \<Rightarrow> size_t \<Rightarrow> memory \<Rightarrow> vstate
      \<Rightarrow> (memory \<times> vstate) res option" where
  "NCValidateSegment env dt stack mbase vbase sz m vs =
     (if sz = 0 then Some (Inr (m, Stats_SegFault (ValidatePrintError vs)))
      else
        let vs1 = vs\<lparr>cpufeatures := cpu env\<rparr> in
        if \<not> f_386 (cpufeatures vs1) then Some (Inr (m, Stats_BadCPU (ValidatePrintError vs1)))
        else NCDecodeSegment validator_callbacks dt stack mbase vbase sz m vs1)"

definition indirect5_same :: "memory \<Rightarrow> InstInfo \<Rightarrow> InstInfo \<Rightarrow> InstInfo \<Rightarrow> InstInfo \<Rightarrow> bool" where
  "indirect5_same m and_old and_new jmp_old jmp_new \<longleftrightarrow>
     inst_length and_old = 3 \<and> inst_length and_new = 3 \<and>
     mem_read m (maddr and_old) 3 = mem_read m (maddr and_new) 3 \<and>
     inst_length jmp_old = 2 \<and> inst_length jmp_new = 2 \<and>
     mem_read m (maddr jmp_old) 2 = mem_read m (maddr jmp_new) 2"

definition ValidateIndirect5Replacement ::
    "NCDecoderState list \<Rightarrow> NCDecoderState \<Rightarrow> NCDecoderState list \<Rightarrow> NCDecoderState \<Rightarrow> memory \<times> vstate \<Rightarrow> memory \<times> vstate" where
  "ValidateIndirect5Replacement dbo mstate_old dbn mstate_new s =
     (if indirect5_same (fst s) (inst (dbo ! PreviousInst dbo mstate_old (- 1)))
           (inst (dbn ! PreviousInst dbn mstate_new (- 1))) (inst mstate_old) (inst mstate_new)
      then s else apsnd Stats_UnsafeIndirect (BadInstructionError mstate_new s))"

definition ValidateInstReplacement ::
    "NCDecoderState list \<Rightarrow> nat \<Rightarrow> NCDecoderState list \<Rightarrow> nat \<Rightarrow> memory \<times> vstate \<Rightarrow> (memory \<times> vstate) res" where
  "ValidateInstReplacement dbo curo dbn curn s =
     (let mstate_old = dbo ! curo; mstate_new = dbn ! curn in
      bind_res (ValidateInst dbn curn s) (\<lambda>s1.
      let s2 = (if inst_length (inst mstate_old) \<noteq> inst_length (inst mstate_new) \<or> vpc mstate_old \<noteq> vpc mstate_new
                then apsnd Stats_BadInstLength (BadInstructionError mstate_new s1) else s1) in
      case (opinfo mstate_old, opinfo mstate_new) of
        (Some op_old, Some op_new) \<Rightarrow>
          Inr (if insttype op_old = NACLi_INDIRECT \<or> insttype op_new = NACLi_INDIRECT
               then ValidateIndirect5Replacement dbo mstate_old dbn mstate_new s2 else s2)
      | _ \<Rightarrow> Inl NullDeref))"

definition NCValidateSegmentPair ::
    "valid_env \<Rightarrow> DecodeTables \<Rightarrow> NCDecoderState list \<Rightarrow> NCDecoderState list \<Rightarrow> uintptr_t \<Rightarrow> uintptr_t
      \<Rightarrow> NaClPcAddress \<Rightarrow> size_t \<Rightarrow> memory \<Rightarrow> vstate \<Rightarrow> (memory \<times> vstate) res option" where
  "NCValidateSegmentPair env dt stack_old stack_new mbase_old mbase_new vbase sz m vs =
     (if sz = 0 then Some (Inr (m, Stats_SegFault (ValidatePrintError vs)))
      else
        let vs1 = vs\<lparr>cpufeatures := cpu env\<rparr> in
        if \<not> f_386 (cpufeatures vs1) then Some (Inr (m, Stats_BadCPU (ValidatePrintError vs1)))
        else NCDecodeSegmentPair validator_callbacks dt stack_old stack_new mbase_old mbase_new vbase sz
               ValidateInstReplacement m vs1)"

section \<open>The tables as sets of offsets\<close>

text \<open>
  What the validator needs of its jump target tables: marking an offset adds it to the set the table
  stands for, clearing removes it, and neither touches another offset.
\<close>

locale target_table =
  fixes get :: "'k \<Rightarrow> 't \<Rightarrow> bool" and put :: "'k \<Rightarrow> 't \<Rightarrow> 't" and clear :: "'k \<Rightarrow> 't \<Rightarrow> 't"
    and inside :: "'k \<Rightarrow> 't \<Rightarrow> bool"
  assumes get_put: "inside i t \<Longrightarrow> get j (put i t) \<longleftrightarrow> j = i \<or> get j t"
    and get_clear: "inside i t \<Longrightarrow> get j (clear i t) \<longleftrightarrow> j \<noteq> i \<and> get j t"
    and inside_put: "inside j (put i t) = inside j t"
begin

lemma put_then_clear:
  assumes "inside i t" and "\<not> get i t"
  shows "get j (clear i (put i t)) \<longleftrightarrow> get j t"
  using assms by (auto simp: get_clear get_put inside_put)

end

lemma IATMask_bit: "IATMask ia = 2 ^ (unat ia mod 8)"
proof -
  have "unat (ia AND 7) = unat ia mod 8"
    using unat_and_mask_mod [of ia 3] by (simp add: mask_eq_exp_minus_1)
  moreover have "unat ia mod 8 < 8" by simp
  then have "unat ia mod 8 = 0 \<or> unat ia mod 8 = 1 \<or> unat ia mod 8 = 2 \<or> unat ia mod 8 = 3 \<or>
      unat ia mod 8 = 4 \<or> unat ia mod 8 = 5 \<or> unat ia mod 8 = 6 \<or> unat ia mod 8 = 7" by arith
  ultimately show ?thesis by (elim disjE) (simp_all add: IATMask_def iadrmasks_def)
qed

lemma IATOffset_div: "IATOffset ia = unat ia div 8"
  by (simp add: IATOffset_def unat_drop_bit_div)

lemma GetAdrTable_bit: "GetAdrTable ia tab \<longleftrightarrow> bit (tab ! (unat ia div 8)) (unat ia mod 8)"
  by (simp add: GetAdrTable_def IATMask_bit IATOffset_div and_exp_eq_0_iff_not_bit)

lemma same_bit_iff: "unat i div 8 = unat j div 8 \<and> unat i mod 8 = unat j mod 8 \<longleftrightarrow> i = (j :: u32)"
  by (metis div_mult_mod_eq word_unat_eq_iff)

interpretation at: target_table GetAdrTable SetAdrTable ClearAdrTable "\<lambda>i t. IATOffset i < length t"
proof
  fix i j :: u32 and t :: "u8 list"
  have b: "bit (2 ^ n :: u8) k \<longleftrightarrow> k = n" if "n < 8" for n k using that by (auto simp: bit_simps)
  show "IATOffset j < length (SetAdrTable i t) \<longleftrightarrow> IATOffset j < length t" by (simp add: SetAdrTable_def)
  assume i: "IATOffset i < length t"
  show "GetAdrTable j (SetAdrTable i t) \<longleftrightarrow> j = i \<or> GetAdrTable j t"
    using i same_bit_iff [of j i] b [of "unat i mod 8" "unat j mod 8"]
    by (cases "unat j div 8 = unat i div 8")
      (auto simp: GetAdrTable_bit SetAdrTable_def IATMask_bit IATOffset_div bit_or_iff)
  show "GetAdrTable j (ClearAdrTable i t) \<longleftrightarrow> j \<noteq> i \<and> GetAdrTable j t"
    using i same_bit_iff [of j i] b [of "unat i mod 8" "unat j mod 8"]
    by (cases "unat j div 8 = unat i div 8")
      (auto simp: GetAdrTable_bit ClearAdrTable_def IATMask_bit IATOffset_div bit_and_iff bit_not_iff)
qed

lemma length_SetAdrTable [simp]: "length (SetAdrTable i t) = length t"
  by (simp add: SetAdrTable_def)

lemma length_ClearAdrTable [simp]: "length (ClearAdrTable i t) = length t"
  by (simp add: ClearAdrTable_def)

section \<open>Which states have failed\<close>

definition failed :: "vstate \<Rightarrow> bool" where
  "failed vs \<longleftrightarrow> sawfailure (stats vs) \<noteq> 0"

text \<open>The part of the state fixed by initialisation.\<close>

definition config :: "vstate \<Rightarrow> CPUFeatures \<times> u32 \<times> u32 \<times> u8 \<times> u32" where
  "config vs = (cpufeatures vs, iadrbase vs, iadrlimit vs, alignment vs, alignmask vs)"

lemmas stats_defs = Stats_Inst_def Stats_CheckTarget_def Stats_TargetIndirect_def Stats_SawFailure_def
  Stats_InternalError_def Stats_BadCPU_def Stats_BadAlignment_def Stats_SegFault_def Stats_BadTarget_def
  Stats_UnsafeIndirect_def Stats_Return_def Stats_IllegalInst_def Stats_BadPrefix_def Stats_BadInstLength_def

lemma failed_stats [simp]:
  "failed (Stats_Inst vs) = failed vs" "failed (Stats_CheckTarget vs) = failed vs"
  "failed (Stats_TargetIndirect vs) = failed vs" "failed (Stats_InternalError vs)" "failed (Stats_BadCPU vs)"
  "failed (Stats_BadAlignment vs)" "failed (Stats_SegFault vs)" "failed (Stats_BadTarget vs)"
  "failed (Stats_UnsafeIndirect vs)" "failed (Stats_Return vs)" "failed (Stats_IllegalInst vs)"
  "failed (Stats_BadPrefix vs)" "failed (Stats_BadInstLength vs)" "failed (OpcodeHisto b vs) = failed vs"
  "failed (ValidatePrintError vs) = failed vs" "failed (vs\<lparr>vttable := t\<rparr>) = failed vs"
  "failed (vs\<lparr>kttable := t\<rparr>) = failed vs" "failed (vs\<lparr>cpufeatures := c\<rparr>) = failed vs"
  by (simp_all add: failed_def stats_defs OpcodeHisto_def ValidatePrintError_def)

lemma config_stats [simp]:
  "config (Stats_Inst vs) = config vs" "config (Stats_CheckTarget vs) = config vs"
  "config (Stats_TargetIndirect vs) = config vs" "config (OpcodeHisto b vs) = config vs"
  "config (Stats_BadTarget vs) = config vs" "config (Stats_BadAlignment vs) = config vs"
  "config (ValidatePrintError vs) = config vs" "config (vs\<lparr>vttable := t\<rparr>) = config vs"
  "config (vs\<lparr>kttable := t\<rparr>) = config vs"
  by (simp_all add: config_def stats_defs OpcodeHisto_def ValidatePrintError_def)

lemma tables_stats [simp]:
  "vttable (Stats_Inst vs) = vttable vs" "vttable (Stats_CheckTarget vs) = vttable vs"
  "vttable (Stats_TargetIndirect vs) = vttable vs" "vttable (OpcodeHisto b vs) = vttable vs"
  "vttable (ValidatePrintError vs) = vttable vs" "vttable (Stats_BadTarget vs) = vttable vs"
  "vttable (Stats_BadAlignment vs) = vttable vs"
  "kttable (Stats_Inst vs) = kttable vs" "kttable (Stats_CheckTarget vs) = kttable vs"
  "kttable (Stats_TargetIndirect vs) = kttable vs" "kttable (OpcodeHisto b vs) = kttable vs"
  "kttable (ValidatePrintError vs) = kttable vs" "kttable (Stats_BadTarget vs) = kttable vs"
  "kttable (Stats_BadAlignment vs) = kttable vs"
  by (simp_all add: stats_defs OpcodeHisto_def ValidatePrintError_def)

lemma config_fields:
  assumes "config vs = config vs'"
  shows "cpufeatures vs = cpufeatures vs'" "iadrbase vs = iadrbase vs'" "iadrlimit vs = iadrlimit vs'"
    "alignment vs = alignment vs'" "alignmask vs = alignmask vs'"
  using assms by (simp_all add: config_def)

lemma fields_stats [simp]:
  "iadrbase (Stats_CheckTarget vs) = iadrbase vs" "iadrlimit (Stats_CheckTarget vs) = iadrlimit vs"
  "alignmask (Stats_CheckTarget vs) = alignmask vs"
  "iadrbase (Stats_TargetIndirect vs) = iadrbase vs" "iadrlimit (Stats_TargetIndirect vs) = iadrlimit vs"
  "alignmask (Stats_TargetIndirect vs) = alignmask vs"
  "iadrbase (OpcodeHisto b vs) = iadrbase vs" "iadrlimit (OpcodeHisto b vs) = iadrlimit vs"
  by (simp_all add: stats_defs OpcodeHisto_def)

lemma failed_BadInstructionError [simp]: "failed (snd (BadInstructionError ms s)) = failed (snd s)"
  by (simp add: BadInstructionError_def split: prod.split)

text \<open>The checks that record a failure, and what they do when they do not.\<close>

lemma RememberIP_ok:
  assumes "\<not> failed (RememberIP ip vs)"
  shows "\<not> failed vs" "iadrbase vs \<le> ip" "ip < iadrlimit vs" "\<not> GetAdrTable (ip - iadrbase vs) (vttable vs)"
    "vttable (RememberIP ip vs) = SetAdrTable (ip - iadrbase vs) (vttable vs)"
    "kttable (RememberIP ip vs) = kttable vs" "config (RememberIP ip vs) = config vs"
  using assms by (auto simp: RememberIP_def Let_def split: if_splits)

definition target_ok :: "vstate \<Rightarrow> u32 \<Rightarrow> bool" where
  "target_ok vs t \<longleftrightarrow> iadrbase vs \<le> t \<and> t < iadrlimit vs \<or> t AND alignmask vs = 0"

lemma RememberTP_ok:
  assumes "\<not> failed (RememberTP t vs)"
  shows "\<not> failed vs" "target_ok vs t" "vttable (RememberTP t vs) = vttable vs"
    "config (RememberTP t vs) = config vs"
    "kttable (RememberTP t vs) =
       (if iadrbase vs \<le> t \<and> t < iadrlimit vs then SetAdrTable (t - iadrbase vs) (kttable vs) else kttable vs)"
  using assms by (auto simp: RememberTP_def target_ok_def Let_def split: if_splits)

lemma ForgetIP_ok:
  assumes "\<not> failed (ForgetIP ip vs)"
  shows "\<not> failed vs" "vttable (ForgetIP ip vs) = ClearAdrTable (ip - iadrbase vs) (vttable vs)"
    "kttable (ForgetIP ip vs) = kttable vs" "config (ForgetIP ip vs) = config vs"
  using assms by (auto simp: ForgetIP_def Let_def split: if_splits)

lemma ValidateCallAlignment_ok:
  assumes "\<not> failed (ValidateCallAlignment ms vs)"
  shows "ValidateCallAlignment ms vs = vs"
    "(vaddr (inst ms) + ucast (inst_length (inst ms))) AND alignmask vs = 0"
  using assms by (auto simp: ValidateCallAlignment_def Let_def split: if_splits)

section \<open>The rules of validated code\<close>

text \<open>The target of a direct jump or call, as the bytes of the instruction encode it.\<close>

definition direct_target :: "memory \<Rightarrow> NCDecoderState \<Rightarrow> u32 option" where
  "direct_target m ms =
     (let i = inst ms; opc = maddr i + ucast (prefixbytes i); after = vaddr i + ucast (inst_length i) in
      case opinfo ms of None \<Rightarrow> None
      | Some op \<Rightarrow>
        if insttype op = NACLi_JMP8 then Some (after + scast (m (opc + 1)))
        else if insttype op = NACLi_JMPZ then
          (if m opc = 0xe8 \<or> m opc = 0xe9 then Some (after + load32 m (opc + 1))
           else if m opc = 0x0f \<and> m (opc + 1) AND 0xf0 = 0x80 then Some (after + load32 m (opc + 2))
           else None)
        else None)"

definition inst_type :: "NCDecoderState \<Rightarrow> NaClInstType" where
  "inst_type ms = (case opinfo ms of None \<Rightarrow> NACLi_UNDEFINED | Some op \<Rightarrow> insttype op)"

definition allowed_type :: "NaClInstType \<Rightarrow> bool" where
  "allowed_type t \<longleftrightarrow> \<not> always_illegal t \<and> t \<notin> {NACLi_RETURN, NACLi_UNDEFINED, NACLi_VMX, NACLi_FXSAVE}"

text \<open>An instruction the processor does not implement; the validator overwrites it with halts.\<close>

definition unsupported :: "CPUFeatures \<Rightarrow> memory \<Rightarrow> NCDecoderState \<Rightarrow> bool" where
  "unsupported c m ms =
     (if inst_type ms = NACLi_SFENCE_CLFLUSH then
        (if modrm_mod (m (maddr (inst ms) + 2)) = 3 then \<not> f_FXSR c else \<not> f_CLFLUSH c)
      else if inst_type ms = NACLi_SSE2x then \<not> f_SSE2 c
      else feature_missing c (inst_type ms) = Some True)"

definition inst_allowed :: "NCDecoderState \<Rightarrow> bool" where
  "inst_allowed ms \<longleftrightarrow> allowed_type (inst_type ms) \<and>
     (case opinfo ms of None \<Rightarrow> False | Some op \<Rightarrow> prefix_usage_ok ms op) \<and>
     ucast (inst_length (inst ms)) - ucast (prefixbytes (inst ms)) \<le> kMaxValidInstLength"

lemma feature_missing_None:
  "feature_missing c t = None \<longleftrightarrow> t \<in> {NACLi_386, NACLi_386L, NACLi_386R, NACLi_386RE, NACLi_JMP8, NACLi_JMPZ,
     NACLi_INDIRECT, NACLi_SFENCE_CLFLUSH, NACLi_SSE2x} \<or> \<not> allowed_type t"
  by (cases t) (simp_all add: allowed_type_def always_illegal_def)

lemma feature_missing_Some:
  assumes "feature_missing c t = Some q"
  shows "allowed_type t" and "t \<notin> {NACLi_JMP8, NACLi_JMPZ, NACLi_INDIRECT, NACLi_SFENCE_CLFLUSH, NACLi_SSE2x}"
  using assms feature_missing_None [of c t] by auto

section \<open>One successful check\<close>

lemma ValidateJmp8_ok:
  assumes "opinfo ms = Some op" and "insttype op = NACLi_JMP8" and "\<not> failed (ValidateJmp8 m ms vs)"
  shows "\<exists>t. direct_target m ms = Some t \<and> ValidateJmp8 m ms vs = RememberTP t (Stats_CheckTarget vs)"
  using assms by (auto simp: ValidateJmp8_def direct_target_def Let_def split: if_splits)

lemma ValidateJmpz_ok:
  assumes "opinfo ms = Some op" and "insttype op = NACLi_JMPZ" and "\<not> failed (ValidateJmpz m ms vs)"
  shows "ValidateJmpz m ms vs =
     (case direct_target m ms of None \<Rightarrow> Stats_CheckTarget vs | Some t \<Rightarrow> RememberTP t (Stats_CheckTarget vs))"
proof -
  have c: "ValidateCallAlignment ms vs' = vs'" if "\<not> failed (ValidateCallAlignment ms vs')" for vs'
    using ValidateCallAlignment_ok(1) [OF that] .
  show ?thesis
    using assms c by (auto simp: ValidateJmpz_def direct_target_def Let_def split: if_splits)
qed

text \<open>The state after a check that recorded no failure, as a function of the instruction.\<close>

definition marks :: "memory \<Rightarrow> NCDecoderState \<Rightarrow> vstate \<Rightarrow> vstate \<Rightarrow> bool" where
  "marks m ms vs vs' \<longleftrightarrow>
     \<not> failed vs \<and> config vs' = config vs \<and>
     vttable vs' = (if inst_type ms = NACLi_INDIRECT
                    then ClearAdrTable (vaddr (inst ms) - iadrbase vs) (vttable vs) else vttable vs) \<and>
     (\<forall>t. direct_target m ms = Some t \<longrightarrow> target_ok vs t) \<and>
     kttable vs' = (case direct_target m ms of None \<Rightarrow> kttable vs
       | Some t \<Rightarrow> if iadrbase vs \<le> t \<and> t < iadrlimit vs then SetAdrTable (t - iadrbase vs) (kttable vs)
                  else kttable vs)"

lemma marks_same:
  assumes "inst_type ms \<notin> {NACLi_JMP8, NACLi_JMPZ, NACLi_INDIRECT}" and "\<not> failed vs"
  shows "marks m ms vs vs"
  using assms by (auto simp: marks_def direct_target_def inst_type_def Let_def split: option.splits)

lemma marks_RememberTP:
  assumes "direct_target m ms = Some t" and "inst_type ms \<noteq> NACLi_INDIRECT"
    and "\<not> failed (RememberTP t (Stats_CheckTarget vs))"
  shows "marks m ms vs (RememberTP t (Stats_CheckTarget vs))"
  using RememberTP_ok [OF assms(3)] assms(1,2) by (auto simp: marks_def target_ok_def)

lemma ValidateIndirect5_ok:
  assumes "ValidateIndirect5 db ms (m, vs) = (m2, vs2)" and "\<not> failed vs2" and "inst_type ms = NACLi_INDIRECT"
  shows "m2 = m \<and> inst_length (inst (db ! PreviousInst db ms (- 1))) \<noteq> 0 \<and>
         indirect5_ok m (inst ms) (inst (db ! PreviousInst db ms (- 1))) (alignmask vs) \<and> marks m ms vs vs2"
proof -
  let ?and = "inst (db ! PreviousInst db ms (- 1))"
  let ?vs1 = "Stats_TargetIndirect (Stats_CheckTarget vs)"
  have err: False if "BadInstructionError ms (m', w) = (x, y)" "vs2 = Stats_UnsafeIndirect y" for m' w x y
    using assms(2) that by simp
  have len: "inst_length ?and \<noteq> 0" and ok: "indirect5_ok m (inst ms) ?and (alignmask vs)" and m2: "m2 = m"
    and vs2: "vs2 = (if modrm_reg (m (maddr (inst ms) + 1)) = 2
        then ValidateCallAlignment ms (ForgetIP (vaddr (inst ms)) ?vs1) else ForgetIP (vaddr (inst ms)) ?vs1)"
    using assms(1,2) by (auto simp: ValidateIndirect5_def Let_def split: if_splits dest: err)
      (auto simp: apsnd_def map_prod_def split: prod.splits)
  have f: "vs2 = ForgetIP (vaddr (inst ms)) ?vs1"
    using vs2 assms(2) ValidateCallAlignment_ok(1) by (auto split: if_splits)
  have "direct_target m ms = None"
    using assms(3) by (auto simp: direct_target_def inst_type_def Let_def split: option.splits)
  then show ?thesis
    using ForgetIP_ok [of "vaddr (inst ms)" ?vs1] assms(2,3) len ok m2 by (simp add: marks_def f)
qed

lemma inst_switch_ok:
  assumes "opinfo ms = Some op" and "inst_switch db ms op (m, vs) = ((m2, vs2), q)" and "\<not> failed vs2"
  shows "m2 = m" and "allowed_type (inst_type ms)" and "q = unsupported (cpufeatures vs) m ms"
    and "marks m ms vs vs2"
    and "inst_type ms = NACLi_INDIRECT \<Longrightarrow> inst_length (inst (db ! PreviousInst db ms (- 1))) \<noteq> 0 \<and>
           indirect5_ok m (inst ms) (inst (db ! PreviousInst db ms (- 1))) (alignmask vs)"
proof -
  have t: "inst_type ms = insttype op" using assms(1) by (simp add: inst_type_def)
  consider (basic) "insttype op \<in> {NACLi_386, NACLi_386L, NACLi_386R, NACLi_386RE}"
    | (jmp8) "insttype op = NACLi_JMP8" | (jmpz) "insttype op = NACLi_JMPZ"
    | (ind) "insttype op = NACLi_INDIRECT" | (fence) "insttype op = NACLi_SFENCE_CLFLUSH"
    | (sse2x) "insttype op = NACLi_SSE2x" | (feature) q' where "feature_missing (cpufeatures vs) (insttype op) = Some q'"
    | (illegal) "\<not> allowed_type (insttype op)" "feature_missing (cpufeatures vs) (insttype op) = None"
    using feature_missing_None [of "cpufeatures vs" "insttype op"] by fastforce
  then have "m2 = m \<and> allowed_type (inst_type ms) \<and> q = unsupported (cpufeatures vs) m ms \<and> marks m ms vs vs2 \<and>
      (inst_type ms = NACLi_INDIRECT \<longrightarrow> inst_length (inst (db ! PreviousInst db ms (- 1))) \<noteq> 0 \<and>
           indirect5_ok m (inst ms) (inst (db ! PreviousInst db ms (- 1))) (alignmask vs))"
  proof cases
    case basic
    then have "m2 = m" "vs2 = vs" "\<not> q" using assms(2) by (auto simp: inst_switch_def)
    then show ?thesis using basic t assms(3) marks_same [of ms vs m]
      by (auto simp: allowed_type_def always_illegal_def unsupported_def)
  next
    case jmp8
    then have "m2 = m" "vs2 = ValidateJmp8 m ms vs" "\<not> q" using assms(2) by (auto simp: inst_switch_def)
    then show ?thesis
      using jmp8 t assms(3) ValidateJmp8_ok [OF assms(1) jmp8, of m vs] marks_RememberTP [of m ms _ vs]
      by (auto simp: allowed_type_def always_illegal_def unsupported_def)
  next
    case jmpz
    then have r: "m2 = m" "vs2 = ValidateJmpz m ms vs" "\<not> q" using assms(2) by (auto simp: inst_switch_def)
    note v = ValidateJmpz_ok [OF assms(1) jmpz, of m vs, folded r(2), OF assms(3)]
    have "marks m ms vs vs2"
    proof (cases "direct_target m ms")
      case None
      then show ?thesis using v assms(3) jmpz t by (simp add: marks_def)
    next
      case (Some a)
      then show ?thesis using v assms(3) jmpz t marks_RememberTP [OF Some, of vs] by simp
    qed
    then show ?thesis
      using r jmpz t by (auto simp: allowed_type_def always_illegal_def unsupported_def)
  next
    case ind
    then have r: "ValidateIndirect5 db ms (m, vs) = (m2, vs2)" "\<not> q" using assms(2) by (auto simp: inst_switch_def)
    then show ?thesis
      using ind t ValidateIndirect5_ok [OF r(1) assms(3)]
      by (auto simp: allowed_type_def always_illegal_def unsupported_def)
  next
    case fence
    then have "m2 = m" "vs2 = vs" "q = ValidateSFenceClFlush m ms vs" using assms(2) by (auto simp: inst_switch_def)
    then show ?thesis using fence t assms(3) marks_same [of ms vs m]
      by (auto simp: allowed_type_def always_illegal_def unsupported_def ValidateSFenceClFlush_def Let_def)
  next
    case sse2x
    have "failed (snd (fst (inst_switch db ms op (m, vs))))" if "prefixmask (inst ms) AND kPrefixDATA16 = 0"
      using sse2x that by (simp add: inst_switch_def)
    then have "prefixmask (inst ms) AND kPrefixDATA16 \<noteq> 0" using assms(2,3) by auto
    then have "m2 = m" "vs2 = vs" "q = (\<not> f_SSE2 (cpufeatures vs))"
      using sse2x assms(2) by (auto simp: inst_switch_def)
    then show ?thesis using sse2x t assms(3) marks_same [of ms vs m]
      by (auto simp: allowed_type_def always_illegal_def unsupported_def)
  next
    case feature
    note fs = feature_missing_Some [OF feature]
    have "insttype op \<notin> {NACLi_386, NACLi_386L, NACLi_386R, NACLi_386RE}" using feature by auto
    then have "m2 = m" "vs2 = vs" "q = q'" using feature fs(2) assms(2) by (auto simp: inst_switch_def)
    then show ?thesis using feature fs t assms(3) marks_same [of ms vs m] by (auto simp: unsupported_def)
  next
    case illegal
    have "insttype op \<notin> {NACLi_386, NACLi_386L, NACLi_386R, NACLi_386RE, NACLi_JMP8, NACLi_JMPZ,
        NACLi_INDIRECT, NACLi_SFENCE_CLFLUSH, NACLi_SSE2x}"
      using illegal(1) by (auto simp: allowed_type_def always_illegal_def)
    then have "failed (snd (fst (inst_switch db ms op (m, vs))))"
      using illegal(2) by (auto simp: inst_switch_def Let_def)
    then show ?thesis using assms(2,3) by simp
  qed
  then show "m2 = m" "allowed_type (inst_type ms)" "q = unsupported (cpufeatures vs) m ms" "marks m ms vs vs2"
    "inst_type ms = NACLi_INDIRECT \<Longrightarrow> inst_length (inst (db ! PreviousInst db ms (- 1))) \<noteq> 0 \<and>
           indirect5_ok m (inst ms) (inst (db ! PreviousInst db ms (- 1))) (alignmask vs)"
    by blast+
qed

lemma check_prefix_and_length_ok:
  assumes "\<not> failed (snd (check_prefix_and_length ms op s))"
  shows "check_prefix_and_length ms op s = s" and "prefix_usage_ok ms op"
    and "ucast (inst_length (inst ms)) - ucast (prefixbytes (inst ms)) \<le> kMaxValidInstLength"
  using assms by (auto simp: check_prefix_and_length_def Let_def split: if_splits)

lemma ValidateInst_ok:
  assumes "ValidateInst db cur (m, vs) = Inr (m2, vs2)" and "\<not> failed vs2"
  defines "ms \<equiv> db ! cur" and "b \<equiv> iadrbase vs"
  shows "\<not> failed vs" and "config vs2 = config vs" and "inst_allowed ms"
    and "iadrbase vs \<le> vaddr (inst ms)" and "vaddr (inst ms) < iadrlimit vs"
    and "\<not> GetAdrTable (vaddr (inst ms) - iadrbase vs) (vttable vs)"
    and "vttable vs2 = (if inst_type ms = NACLi_INDIRECT
           then ClearAdrTable (vaddr (inst ms) - b) (SetAdrTable (vaddr (inst ms) - b) (vttable vs))
           else SetAdrTable (vaddr (inst ms) - b) (vttable vs))"
    and "\<And>t. direct_target m ms = Some t \<Longrightarrow> target_ok vs t"
    and "kttable vs2 = (case direct_target m ms of None \<Rightarrow> kttable vs
           | Some t \<Rightarrow> if b \<le> t \<and> t < iadrlimit vs then SetAdrTable (t - b) (kttable vs) else kttable vs)"
    and "inst_type ms = NACLi_INDIRECT \<Longrightarrow> inst_length (inst (db ! PreviousInst db ms (- 1))) \<noteq> 0 \<and>
           indirect5_ok m (inst ms) (inst (db ! PreviousInst db ms (- 1))) (alignmask vs)"
    and "m2 = (if unsupported (cpufeatures vs) m ms
               then mem_set m (maddr (inst ms)) kNaClFullStop (unat (inst_length (inst ms))) else m)"
proof -
  define vs1 where "vs1 = RememberIP (vaddr (inst ms)) (OpcodeHisto (m (maddr (inst ms) + ucast (prefixbytes (inst ms)))) vs)"
  obtain op where op: "opinfo ms = Some op"
    using assms(1) by (auto simp: ValidateInst_def ms_def Let_def split: option.splits)
  obtain m3 vs3 q where sw: "inst_switch db ms op (check_prefix_and_length ms op (m, vs1)) = ((m3, vs3), q)"
    by (metis prod.exhaust)
  have r: "vs2 = vs3" "m2 = (if q then mem_set m3 (maddr (inst ms)) kNaClFullStop (unat (inst_length (inst ms))) else m3)"
    using assms(1) op sw by (simp_all add: ValidateInst_def ms_def [symmetric] Let_def vs1_def [symmetric])
  obtain m0 vs0 where c0: "check_prefix_and_length ms op (m, vs1) = (m0, vs0)" by fastforce
  note sw0 = inst_switch_ok [OF op sw [unfolded c0], folded r(1), OF assms(2)]
  have "\<not> failed (snd (check_prefix_and_length ms op (m, vs1)))"
    using sw0(4) c0 by (simp add: marks_def)
  note c = check_prefix_and_length_ok [OF this]
  have e: "m0 = m" "vs0 = vs1" using c(1) c0 by simp_all
  have nf: "\<not> failed vs1" using sw0(4) e by (simp add: marks_def)
  note ip = RememberIP_ok [OF nf [unfolded vs1_def]]
  have cfg: "config vs1 = config vs" using ip(7) by (simp add: vs1_def)
  note f = config_fields [OF cfg]
  have vt: "vttable vs1 = SetAdrTable (vaddr (inst ms) - b) (vttable vs)" "kttable vs1 = kttable vs"
    using ip(5,6) by (simp_all add: vs1_def b_def)
  have mk: "marks m ms vs1 vs2" using sw0(4) e by simp
  show "\<not> failed vs" "iadrbase vs \<le> vaddr (inst ms)" "vaddr (inst ms) < iadrlimit vs"
    "\<not> GetAdrTable (vaddr (inst ms) - iadrbase vs) (vttable vs)" using ip by simp_all
  show "config vs2 = config vs" using mk cfg by (simp add: marks_def)
  show "inst_allowed ms" using c op sw0(2) by (simp add: inst_allowed_def)
  show "vttable vs2 = (if inst_type ms = NACLi_INDIRECT
           then ClearAdrTable (vaddr (inst ms) - b) (SetAdrTable (vaddr (inst ms) - b) (vttable vs))
           else SetAdrTable (vaddr (inst ms) - b) (vttable vs))"
    using mk f(2) by (simp add: marks_def vt b_def)
  show "target_ok vs t" if "direct_target m ms = Some t" for t
    using mk f that by (simp add: marks_def target_ok_def)
  show "kttable vs2 = (case direct_target m ms of None \<Rightarrow> kttable vs
           | Some t \<Rightarrow> if b \<le> t \<and> t < iadrlimit vs then SetAdrTable (t - b) (kttable vs) else kttable vs)"
    using mk f by (auto simp: marks_def vt b_def split: option.split)
  show "inst_type ms = NACLi_INDIRECT \<Longrightarrow> inst_length (inst (db ! PreviousInst db ms (- 1))) \<noteq> 0 \<and>
           indirect5_ok m (inst ms) (inst (db ! PreviousInst db ms (- 1))) (alignmask vs)"
    using sw0(5) e f(5) by simp
  show "m2 = (if unsupported (cpufeatures vs) m ms
               then mem_set m (maddr (inst ms)) kNaClFullStop (unat (inst_length (inst ms))) else m)"
    using r(2) sw0(1,3) e f(1) by simp
qed

section \<open>Validated code\<close>

text \<open>
  \<open>code_chain a p is a' p'\<close>: the instructions \<open>is\<close> lie back to back from memory address \<open>a\<close> and
  program address \<open>p\<close> up to \<open>a'\<close> and \<open>p'\<close>.
\<close>

fun code_chain :: "uintptr_t \<Rightarrow> NaClPcAddress \<Rightarrow> NCDecoderState list \<Rightarrow> uintptr_t \<Rightarrow> NaClPcAddress \<Rightarrow> bool" where
  "code_chain a p [] a' p' \<longleftrightarrow> a = a' \<and> p = p'"
| "code_chain a p (i # is) a' p' \<longleftrightarrow>
     decoded_at a p i \<and>
     code_chain (a + ucast (inst_length (inst i))) (p + ucast (inst_length (inst i))) is a' p'"

text \<open>The instruction at a state decodes from memory \<open>m\<close> without an internal error.\<close>

definition decodes_to :: "DecodeTables \<Rightarrow> memory \<Rightarrow> NCDecoderState \<Rightarrow> bool" where
  "decodes_to dt m i \<longleftrightarrow>
     ConsumeNextInstruction quiet_client dt m (i\<lparr>nextbyte := mpc i\<rparr>) False =
       Inr (vpc i + ucast (inst_length (inst i)), i, False)"

text \<open>The addresses control may reach by a jump: instruction starts, but not the jump half of a
  masked indirect jump.\<close>

definition entry_points :: "NCDecoderState list \<Rightarrow> u32 set" where
  "entry_points is = {vaddr (inst i) | i. i \<in> set is \<and> inst_type i \<noteq> NACLi_INDIRECT}"

definition jumps_masked :: "memory \<Rightarrow> u32 \<Rightarrow> NCDecoderState list \<Rightarrow> bool" where
  "jumps_masked m amask is \<longleftrightarrow>
     (\<forall>n < length is. inst_type (is ! n) = NACLi_INDIRECT \<longrightarrow>
        0 < n \<and> indirect5_ok m (inst (is ! n)) (inst (is ! (n - 1))) amask)"

text \<open>Memory after validation: unsupported instructions are halts, everything else is untouched.\<close>

definition squashed_mem :: "CPUFeatures \<Rightarrow> memory \<Rightarrow> NCDecoderState list \<Rightarrow> memory" where
  "squashed_mem c m is x =
     (if list_ex (\<lambda>i. unsupported c m i \<and> unat (x - maddr (inst i)) < unat (inst_length (inst i))) is
      then kNaClFullStop else m x)"

lemma code_chain_snoc:
  "code_chain a p (is @ [i]) a' p' \<longleftrightarrow>
     (\<exists>a0 p0. code_chain a p is a0 p0 \<and> decoded_at a0 p0 i \<and>
        a' = a0 + ucast (inst_length (inst i)) \<and> p' = p0 + ucast (inst_length (inst i)))"
  by (induction "is" arbitrary: a p) auto

definition code_len :: "NCDecoderState list \<Rightarrow> nat" where
  "code_len is = (\<Sum>i\<leftarrow>is. unat (inst_length (inst i)))"

lemma code_len_snoc [simp]: "code_len (is @ [i]) = code_len is + unat (inst_length (inst i))"
  by (simp add: code_len_def)

lemma code_chain_end:
  "code_chain a p is a' p' \<Longrightarrow> a' = a + of_nat (code_len is) \<and> p' = p + of_nat (code_len is)"
proof (induction "is" arbitrary: a p)
  case (Cons i "is")
  have l: "code_len (i # is) = unat (inst_length (inst i)) + code_len is" by (simp add: code_len_def)
  have "code_chain (a + ucast (inst_length (inst i))) (p + ucast (inst_length (inst i))) is a' p'"
    using Cons.prems by simp
  from Cons.IH [OF this] show ?case by (simp add: l add.assoc)
qed (simp add: code_len_def)

text \<open>Where an instruction of the chain lies.\<close>

definition lies_in :: "uintptr_t \<Rightarrow> NaClPcAddress \<Rightarrow> nat \<Rightarrow> NCDecoderState \<Rightarrow> nat \<Rightarrow> bool" where
  "lies_in a p n i k \<longleftrightarrow> maddr (inst i) = a + of_nat k \<and> vaddr (inst i) = p + of_nat k \<and>
     k + unat (inst_length (inst i)) \<le> n"

lemma code_chain_offsets:
  assumes "code_chain a p is a' p'" and "i \<in> set is"
  shows "\<exists>k. lies_in a p (code_len is) i k"
  using assms
proof (induction "is" arbitrary: a p)
  case (Cons j "is")
  let ?l = "unat (inst_length (inst j))"
  have l: "(ucast (inst_length (inst j)) :: u32) = of_nat ?l" by (rule of_nat_unat [symmetric])
  have d: "decoded_at a p j" and c: "code_chain (a + of_nat ?l) (p + of_nat ?l) is a' p'"
    using Cons.prems(1) unfolding code_chain.simps l by blast+
  show ?case
  proof (cases "i = j")
    case True
    then have "lies_in a p (code_len (j # is)) i 0" using d by (simp add: lies_in_def decoded_at_def code_len_def)
    then show ?thesis ..
  next
    case False
    then obtain k where "lies_in (a + of_nat ?l) (p + of_nat ?l) (code_len is) i k"
      using Cons.IH [OF c] Cons.prems(2) by auto
    then have "lies_in a p (code_len (j # is)) i (?l + k)"
      by (simp add: lies_in_def code_len_def add.assoc)
    then show ?thesis ..
  qed
qed simp

lemma unat_offset_less:
  fixes a :: uintptr_t
  assumes "d < 2 ^ 32" and "k + t \<le> 2 ^ 32"
  shows "unat (a + of_nat d - (a + of_nat k)) < t \<longleftrightarrow> k \<le> d \<and> d < k + t"
    and "k \<le> d \<Longrightarrow> unat (a + of_nat d - (a + of_nat k)) = d - k"
proof -
  have e: "a + of_nat d - (a + of_nat k) = (of_nat d - of_nat k :: uintptr_t)" by simp
  show up: "unat (a + of_nat d - (a + of_nat k)) = d - k" if "k \<le> d"
  proof -
    have "(of_nat d - of_nat k :: uintptr_t) = of_nat (d - k)" using that by (simp add: of_nat_diff)
    then show ?thesis unfolding e using assms(1) by (simp only: unat_of_nat) simp
  qed
  have "\<not> unat (a + of_nat d - (a + of_nat k)) < t" if lt: "d < k" and t: "0 < t"
  proof -
    have k: "k < 2 ^ 32" using assms(2) t by simp
    have u: "unat (of_nat d :: uintptr_t) = d" "unat (of_nat k :: uintptr_t) = k"
      using assms(1) k by (simp_all only: unat_of_nat) simp_all
    have "unat (of_nat d - of_nat k :: uintptr_t) = d + 2 ^ 32 - k"
      using lt u by (simp add: unat_sub_if')
    then show ?thesis unfolding e using assms(2) by simp
  qed
  then show "unat (a + of_nat d - (a + of_nat k)) < t \<longleftrightarrow> k \<le> d \<and> d < k + t"
    using up by (cases "k \<le> d"; cases "t = 0") auto
qed

text \<open>The instructions of a chain do not overlap.\<close>

lemma code_chain_disjoint:
  assumes "code_chain a p is a' p'" and "code_len is < 2 ^ 32" and "i \<in> set is" and "j \<in> set is"
    and "unat (x - maddr (inst i)) < unat (inst_length (inst i))"
    and "unat (x - maddr (inst j)) < unat (inst_length (inst j))"
  shows "i = j"
  using assms
proof (induction "is" arbitrary: a p)
  case (Cons h "is")
  let ?l = "unat (inst_length (inst h))"
  have u: "(ucast (inst_length (inst h)) :: u32) = of_nat ?l" by (rule of_nat_unat [symmetric])
  have h: "maddr (inst h) = a" and c: "code_chain (a + of_nat ?l) (p + of_nat ?l) is a' p'"
    using Cons.prems(1) unfolding code_chain.simps u decoded_at_def by blast+
  have len: "?l + code_len is < 2 ^ 32" using Cons.prems(2) by (simp add: code_len_def)
  have beyond: "\<not> unat (x - maddr (inst k)) < unat (inst_length (inst k))" if k: "k \<in> set is" and x: "unat (x - a) < ?l" for k
  proof -
    obtain n where n: "maddr (inst k) = a + of_nat (?l + n)" "n + unat (inst_length (inst k)) \<le> code_len is"
      using code_chain_offsets [OF c k] by (auto simp: lies_in_def add.assoc)
    have "x = a + of_nat (unat (x - a))" by simp
    then show ?thesis
      using unat_offset_less(1) [of "unat (x - a)" "?l + n" "unat (inst_length (inst k))" a] n x len by simp
  qed
  show ?case
    using Cons.IH [OF c] Cons.prems(3-6) beyond [of i] beyond [of j] h len by auto
qed simp

text \<open>What squashing leaves of an instruction: halts when it is not supported, its own bytes otherwise.\<close>

lemma squashed_mem_inst:
  assumes "code_chain a p is a' p'" and "code_len is < 2 ^ 32" and "i \<in> set is" and k: "k < unat (inst_length (inst i))"
  shows "squashed_mem c m is (maddr (inst i) + of_nat k) =
           (if unsupported c m i then kNaClFullStop else m (maddr (inst i) + of_nat k))"
proof -
  let ?x = "maddr (inst i) + of_nat k"
  have "unat (inst_length (inst i)) < 2 ^ 32" by (rule less_trans [OF unsigned_less]) simp
  then have "unat (of_nat k :: u32) = k" using k by (simp only: unat_of_nat) simp
  then have x: "unat (?x - maddr (inst i)) < unat (inst_length (inst i))" using k by simp
  have "j = i" if "j \<in> set is" "unat (?x - maddr (inst j)) < unat (inst_length (inst j))" for j
    by (rule code_chain_disjoint [OF assms(1,2) that(1) assms(3) that(2) x])
  then show ?thesis using x assms(3) unfolding squashed_mem_def list_ex_iff by metis
qed

text \<open>The bytes from the current position on have not been touched yet.\<close>

lemma squashed_mem_agree:
  assumes "code_chain mbase vbase is a' p'" and "code_len is + 20 < 2 ^ 32"
  shows "mem_agree (squashed_mem c m is) m a' 20"
proof -
  let ?n = "code_len is"
  have untouched: "\<not> unat (a' + of_nat j - maddr (inst i)) < unat (inst_length (inst i))"
    if i: "i \<in> set is" and j: "j < 20" for i j
  proof -
    obtain k where k: "lies_in mbase vbase ?n i k" using code_chain_offsets [OF assms(1) i] ..
    have le: "k \<le> ?n" using k by (simp add: lies_in_def)
    have "a' + of_nat j - maddr (inst i) = of_nat ?n + of_nat j - of_nat k"
      using code_chain_end [OF assms(1)] k by (simp add: lies_in_def)
    also have "\<dots> = of_nat (?n + j - k)" using le by (simp add: of_nat_diff)
    finally have e: "a' + of_nat j - maddr (inst i) = of_nat (?n + j - k)" .
    have "?n + j - k < 2 ^ 32" using assms(2) j by simp
    then have "unat (a' + of_nat j - maddr (inst i)) = ?n + j - k" unfolding e by (simp add: unat_of_nat)
    moreover have "k + unat (inst_length (inst i)) \<le> ?n" using k by (simp add: lies_in_def)
    ultimately show ?thesis by linarith
  qed
  show ?thesis
    unfolding mem_agree_def squashed_mem_def list_ex_iff using untouched by auto
qed

section \<open>Invariant of the validation loop\<close>

text \<open>
  What is known when the loop stands before the instruction after \<open>is\<close> and no failure has been
  recorded: \<open>m\<close> is the memory the validation started from, \<open>mk\<close> the current one.
\<close>

definition vinv ::
    "DecodeTables \<Rightarrow> CPUFeatures \<Rightarrow> u32 \<Rightarrow> memory \<Rightarrow> uintptr_t \<Rightarrow> NaClPcAddress \<Rightarrow> NaClPcAddress
      \<Rightarrow> NCDecoderState list \<Rightarrow> NCDecoderState list \<Rightarrow> nat \<Rightarrow> memory \<Rightarrow> vstate \<Rightarrow> bool" where
  "vinv dt c amask m mbase vbase vlimit is db cur mk vs \<longleftrightarrow>
     code_chain mbase vbase is (mpc (db ! cur)) (vpc (db ! cur)) \<and>
     unat (vpc (db ! cur)) = unat vbase + code_len is \<and> unat (vpc (db ! cur)) \<le> unat vlimit \<and>
     (\<forall>i \<in> set is. decodes_to dt m i \<and> inst_allowed i) \<and>
     (cpufeatures vs = c \<and> iadrbase vs = vbase \<and> iadrlimit vs = vlimit \<and> alignmask vs = amask) \<and>
     (IATOffset (vlimit - vbase) < length (vttable vs) \<and> IATOffset (vlimit - vbase) < length (kttable vs)) \<and>
     (\<forall>t. vbase \<le> t \<and> t < vlimit \<longrightarrow> (GetAdrTable (t - vbase) (vttable vs) \<longleftrightarrow> t \<in> entry_points is)) \<and>
     (\<forall>i \<in> set is. \<forall>t. direct_target m i = Some t \<longrightarrow>
        (if vbase \<le> t \<and> t < vlimit then GetAdrTable (t - vbase) (kttable vs) else t AND amask = 0)) \<and>
     jumps_masked m amask is \<and>
     mk = squashed_mem c m is \<and>
     (if is = [] then inst_length (inst (db ! PreviousInst db (db ! cur) (- 1))) = 0
      else inst (db ! PreviousInst db (db ! cur) (- 1)) = inst (last is))"

lemma IATOffset_inside:
  assumes "vbase \<le> t" "t < vlimit" "IATOffset (vlimit - vbase) < n"
  shows "IATOffset (t - vbase) < n"
proof -
  have "unat (t - vbase) \<le> unat (vlimit - vbase)"
    using assms(1,2) by (simp add: unat_sub word_less_nat_alt word_le_nat_alt)
  then show ?thesis using assms(3) div_le_mono [of "unat (t - vbase)" "unat (vlimit - vbase)" 8]
    by (simp add: IATOffset_div)
qed

interpretation vq: decoder_client validator_callbacks quiet_client failed
  by unfold_locales (simp add: validator_callbacks_def quiet_client_def)

lemma InitDecoder_eq:
  assumes "mpc ms = mpc ms'" "vpc ms = vpc ms'" "dbindex ms = dbindex ms'" "nextbyte ms = nextbyte ms'"
  shows "InitDecoder ms = InitDecoder ms'"
  using assms by (simp add: InitDecoder_def)

lemma validator_decodes:
  assumes "nextbyte ms0 = mpc ms0" and "ConsumeNextInstruction validator_callbacks dt mk ms0 vs = Inr (newpc, ms, vs1)"
    and "\<not> failed vs1" and "\<not> failed vs" and "mem_agree mk m (mpc ms0) 20"
  shows "decodes_to dt m ms"
proof -
  have q: "ConsumeNextInstruction quiet_client dt mk ms0 False = Inr (newpc, ms, False)"
    using vq.ConsumeNextInstruction_hom [OF assms(2)] assms(3,4) by simp
  note d = ConsumeNextInstruction_decoded [OF assms(1) q]
  have "ConsumeNextInstruction quiet_client dt m ms0 False = Inr (newpc, ms, False)"
    using q ConsumeNextInstruction_cong [OF assms(1,5), of quiet_client dt False] by simp
  moreover have "InitDecoder (ms\<lparr>nextbyte := mpc ms\<rparr>) = InitDecoder ms0"
    using d assms(1) by (intro InitDecoder_eq) (simp_all add: decoded_at_def)
  ultimately show ?thesis
    using d by (simp add: decodes_to_def ConsumeNextInstruction_def decoded_at_def)
qed

text \<open>Decoding leaves the validator's state alone or records a failure.\<close>

interpretation ve: client_invariant validator_callbacks "\<lambda>v. v = vs \<or> failed v" for vs
  by unfold_locales (simp add: validator_callbacks_def)

lemma consume_keeps_state:
  assumes "ConsumeNextInstruction validator_callbacks dt mk ms0 vs = Inr (newpc, ms, vs1)" and "\<not> failed vs1"
  shows "vs1 = vs"
  using ve.ConsumeNextInstruction_keeps [OF assms(1), of vs] assms(2) by simp

lemma decoded_agree:
  assumes "mem_agree mk m a 20" and "decoded_at a p ms" and "k < 10"
  shows "mk (maddr (inst ms) + of_nat k) = m (maddr (inst ms) + of_nat k)"
    and "mk (maddr (inst ms) + ucast (prefixbytes (inst ms)) + of_nat k) =
         m (maddr (inst ms) + ucast (prefixbytes (inst ms)) + of_nat k)"
proof -
  have a: "maddr (inst ms) = a" and pb: "unat (prefixbytes (inst ms)) \<le> 4" using assms(2) by (simp_all add: decoded_at_def)
  show "mk (maddr (inst ms) + of_nat k) = m (maddr (inst ms) + of_nat k)"
    using mem_agree_at [OF assms(1), of k] assms(3) a by simp
  show "mk (maddr (inst ms) + ucast (prefixbytes (inst ms)) + of_nat k) =
         m (maddr (inst ms) + ucast (prefixbytes (inst ms)) + of_nat k)"
    using mem_agree_at [OF assms(1), of "unat (prefixbytes (inst ms)) + k"
        "a + ucast (prefixbytes (inst ms)) + of_nat k"] a pb assms(3) by (simp add: add.assoc)
qed

lemma load32_agree:
  assumes "\<And>k. k < 10 \<Longrightarrow> mk (a + of_nat k) = m (a + of_nat k)" and "n \<le> 6"
  shows "load32 mk (a + of_nat n) = load32 m (a + of_nat n)"
proof -
  have "mk (a + of_nat n + of_nat j) = m (a + of_nat n + of_nat j)" if "j < 4" for j
    using assms(1) [of "n + j"] assms(2) that by (simp add: add.assoc)
  from this [of 0] this [of 1] this [of 2] this [of 3]
  show ?thesis by (simp add: load32_def)
qed

lemma direct_target_agree:
  assumes "mem_agree mk m a 20" and "decoded_at a p ms"
  shows "direct_target mk ms = direct_target m ms"
proof -
  let ?o = "maddr (inst ms) + ucast (prefixbytes (inst ms))"
  have b: "mk (?o + of_nat k) = m (?o + of_nat k)" if "k < 10" for k by (rule decoded_agree(2) [OF assms that])
  have l: "load32 mk (?o + 1) = load32 m (?o + 1)" "load32 mk (?o + 2) = load32 m (?o + 2)"
    using load32_agree [of mk ?o m 1] load32_agree [of mk ?o m 2] b by simp_all
  have o: "mk ?o = m ?o" "mk (?o + 1) = m (?o + 1)" using b [of 0] b [of 1] by simp_all
  show ?thesis unfolding direct_target_def Let_def l o ..
qed

lemma unsupported_agree:
  assumes "mem_agree mk m a 20" and "decoded_at a p ms"
  shows "unsupported c mk ms = unsupported c m ms"
  using decoded_agree(1) [OF assms, of 2] by (simp add: unsupported_def)

lemma and_opcode_not_halt: "(0xe0 OR (w AND 7) :: u8) \<noteq> kNaClFullStop"
proof
  assume "(0xe0 OR (w AND 7) :: u8) = kNaClFullStop"
  then have "bit (0xe0 OR (w AND 7) :: u8) 4 = bit kNaClFullStop 4" by simp
  then show False by (simp add: kNaClFullStop_def bit_or_iff bit_and_iff)
qed

lemma squashed_mem_not_halt: "squashed_mem c m is x = v \<Longrightarrow> v \<noteq> kNaClFullStop \<Longrightarrow> m x = v"
  by (auto simp: squashed_mem_def split: if_splits)

lemma indirect5_transfer:
  assumes "indirect5_ok (squashed_mem c m is) (inst ms) ai amask" and "mem_agree (squashed_mem c m is) m a 20"
    and "decoded_at a p ms" and "amask = 15 \<or> amask = 31"
  shows "indirect5_ok m (inst ms) ai amask"
proof -
  let ?mk = "squashed_mem c m is"
  have j: "?mk (maddr (inst ms)) = m (maddr (inst ms))" "?mk (maddr (inst ms) + 1) = m (maddr (inst ms) + 1)"
    using decoded_agree(1) [OF assms(2,3), of 0] decoded_agree(1) [OF assms(2,3), of 1] by simp_all
  have mk: "?mk (maddr ai) = 0x83" "?mk (maddr ai + 1) = 0xe0 OR modrm_rm (m (maddr (inst ms) + 1))"
    "ucast (?mk (maddr ai + 2)) = 0x0ff AND NOT amask"
    using assms(1) j by (simp_all add: indirect5_ok_def Let_def)
  have "?mk (maddr ai + 2) \<noteq> kNaClFullStop"
  proof
    assume "?mk (maddr ai + 2) = kNaClFullStop"
    then show False using mk(3) assms(4) by (auto simp: kNaClFullStop_def)
  qed
  then have "m (maddr ai) = 0x83" "m (maddr ai + 1) = 0xe0 OR modrm_rm (m (maddr (inst ms) + 1))"
    "m (maddr ai + 2) = ?mk (maddr ai + 2)"
    using squashed_mem_not_halt [OF mk(1)] squashed_mem_not_halt [OF mk(2)] squashed_mem_not_halt [OF refl]
      and_opcode_not_halt by (simp_all add: modrm_rm_def kNaClFullStop_def)
  then show ?thesis using assms(1) j mk(3) by (simp add: indirect5_ok_def Let_def)
qed

lemma squashed_mem_snoc:
  "squashed_mem c m (is @ [i]) =
     (if unsupported c m i then mem_set (squashed_mem c m is) (maddr (inst i)) kNaClFullStop (unat (inst_length (inst i)))
      else squashed_mem c m is)"
  by (rule ext) (auto simp: squashed_mem_def mem_set_def mem_write_def)

lemma entry_points_snoc:
  "entry_points (is @ [i]) =
     (if inst_type i = NACLi_INDIRECT then entry_points is else insert (vaddr (inst i)) (entry_points is))"
  by (auto simp: entry_points_def)

lemma jumps_masked_snoc:
  "jumps_masked m amask (is @ [i]) \<longleftrightarrow> jumps_masked m amask is \<and>
     (inst_type i = NACLi_INDIRECT \<longrightarrow> is \<noteq> [] \<and> indirect5_ok m (inst i) (inst (last is)) amask)"
proof -
  define P where "P xs n \<longleftrightarrow> inst_type (xs ! n) = NACLi_INDIRECT \<longrightarrow>
      0 < n \<and> indirect5_ok m (inst (xs ! n)) (inst (xs ! (n - 1))) amask" for xs n
  have jm: "jumps_masked m amask xs \<longleftrightarrow> (\<forall>n < length xs. P xs n)" for xs
    by (simp only: jumps_masked_def P_def)
  have old: "P (is @ [i]) n = P is n" if "n < length is" for n
  proof -
    have "n - 1 < length is" using that by linarith
    then show ?thesis using that by (simp add: P_def nth_append)
  qed
  have "(is @ [i]) ! (length is - 1) = last is" if "is \<noteq> []"
    using that by (simp add: nth_append last_conv_nth)
  then have "P (is @ [i]) (length is) \<longleftrightarrow>
      (inst_type i = NACLi_INDIRECT \<longrightarrow> is \<noteq> [] \<and> indirect5_ok m (inst i) (inst (last is)) amask)"
    by (cases "is = []") (simp_all add: P_def)
  moreover have "(\<forall>n < length (is @ [i]). P (is @ [i]) n) \<longleftrightarrow> (\<forall>n < length is. P is n) \<and> P (is @ [i]) (length is)"
    using old by (auto simp: less_Suc_eq)
  ultimately show ?thesis unfolding jm by blast
qed

lemma vinv_fields:
  assumes "vinv dt c amask m mbase vbase vlimit is db cur mk vs"
  shows "code_chain mbase vbase is (mpc (db ! cur)) (vpc (db ! cur))"
    "unat (vpc (db ! cur)) = unat vbase + code_len is" "unat (vpc (db ! cur)) \<le> unat vlimit"
    "\<And>i. i \<in> set is \<Longrightarrow> decodes_to dt m i" "\<And>i. i \<in> set is \<Longrightarrow> inst_allowed i"
    "cpufeatures vs = c" "iadrbase vs = vbase" "iadrlimit vs = vlimit" "alignmask vs = amask"
    "IATOffset (vlimit - vbase) < length (vttable vs)" "IATOffset (vlimit - vbase) < length (kttable vs)"
    "\<And>t. vbase \<le> t \<Longrightarrow> t < vlimit \<Longrightarrow> GetAdrTable (t - vbase) (vttable vs) \<longleftrightarrow> t \<in> entry_points is"
    "\<And>i t. i \<in> set is \<Longrightarrow> direct_target m i = Some t \<Longrightarrow>
       (if vbase \<le> t \<and> t < vlimit then GetAdrTable (t - vbase) (kttable vs) else t AND amask = 0)"
    "jumps_masked m amask is" "mk = squashed_mem c m is"
    "if is = [] then inst_length (inst (db ! PreviousInst db (db ! cur) (- 1))) = 0
     else inst (db ! PreviousInst db (db ! cur) (- 1)) = inst (last is)"
  using assms by (auto simp: vinv_def)

lemma vinv_vttable_step:
  assumes "\<And>t. vbase \<le> t \<Longrightarrow> t < vlimit \<Longrightarrow> GetAdrTable (t - vbase) tab \<longleftrightarrow> t \<in> entry_points is"
    and "IATOffset (vlimit - vbase) < length tab" and "vbase \<le> vaddr (inst i)" and "vaddr (inst i) < vlimit"
    and "\<not> GetAdrTable (vaddr (inst i) - vbase) tab" and "vbase \<le> t" and "t < vlimit"
  shows "GetAdrTable (t - vbase)
      (if inst_type i = NACLi_INDIRECT
       then ClearAdrTable (vaddr (inst i) - vbase) (SetAdrTable (vaddr (inst i) - vbase) tab)
       else SetAdrTable (vaddr (inst i) - vbase) tab) \<longleftrightarrow> t \<in> entry_points (is @ [i])"
proof -
  have inb: "IATOffset (vaddr (inst i) - vbase) < length tab"
    by (rule IATOffset_inside [OF assms(3,4,2)])
  have "t - vbase = vaddr (inst i) - vbase \<longleftrightarrow> t = vaddr (inst i)" by auto
  then show ?thesis
    using assms(1) [OF assms(6,7)] at.get_put [OF inb] at.put_then_clear [OF inb assms(5)]
    by (simp add: entry_points_snoc)
qed

lemma PreviousInst_update:
  assumes "ring_at db cur" and "dbindex ms = dbindex (db ! cur)"
  shows "db[cur := ms] ! PreviousInst (db[cur := ms]) ms (- 1) = db ! PreviousInst db (db ! cur) (- 1)"
proof -
  have cur: "cur < 4" "dbindex (db ! cur) = of_nat cur" using assms(1) by (simp_all add: ring_at_def ring_ok_def)
  then have "PreviousInst (db[cur := ms]) ms (- 1) = (cur + 3) mod 4" "PreviousInst db (db ! cur) (- 1) = (cur + 3) mod 4"
    using PreviousInst_ring(2) [OF cur(1)] assms(2) by simp_all
  moreover have "(cur + 3) mod 4 \<noteq> cur" using lt4_cases [OF cur(1)] by auto
  ultimately show ?thesis by simp
qed

lemma vinv_step:
  assumes ring: "ring_at db cur"
    and round: "decode_round validator_callbacks dt vlimit db cur mk vs ms vs1 db2 cur2 mk2 vs2"
    and lim: "unat vlimit + 20 < 2 ^ 32" and mask: "amask = 15 \<or> amask = 31"
    and ok: "\<not> failed vs2" and inv: "\<not> failed vs \<Longrightarrow> vinv dt c amask m mbase vbase vlimit is db cur mk vs"
  shows "vinv dt c amask m mbase vbase vlimit (is @ [ms]) db2 cur2 mk2 vs2"
proof -
  have lim': "unat vlimit + 19 < 2 ^ 32" using lim by simp
  note p = decode_round_progress [OF ring round lim']
  have cur: "cur < 4" "length db = 4" using ring by (simp_all add: ring_at_def ring_ok_def)
  obtain newpc where cn: "ConsumeNextInstruction validator_callbacks dt mk (db ! cur) vs = Inr (newpc, ms, vs1)"
    and act: "ValidateInst (db[cur := ms]) cur (mk, vs1) = Inr (mk2, vs2)"
    using round by (auto simp: decode_round_def validator_callbacks_def)
  have at: "db[cur := ms] ! cur = ms" using cur by simp
  note v = ValidateInst_ok [OF act ok, unfolded at]
  have e: "vs1 = vs" by (rule consume_keeps_state [OF cn v(1)])
  note v = v [unfolded e]
  note I = vinv_fields [OF inv [OF v(1)]]
  note cfg = config_fields [OF v(2)]
  have nb: "nextbyte (db ! cur) = mpc (db ! cur)" using ring by (simp add: ring_at_def)
  have idx: "dbindex ms = dbindex (db ! cur)" using ConsumeNextInstruction_decoded(2) [OF nb cn] .
  have agree: "mem_agree mk m (mpc (db ! cur)) 20"
    unfolding I(15) using squashed_mem_agree [OF I(1)] I(2,3) lim by simp
  have dec: "decoded_at (mpc (db ! cur)) (vpc (db ! cur)) ms" by (rule p(2))
  have prev: "db[cur := ms] ! PreviousInst (db[cur := ms]) ms (- 1) = db ! PreviousInst db (db ! cur) (- 1)"
    by (rule PreviousInst_update [OF ring idx])
  have "direct_target mk ms = direct_target m ms" by (rule direct_target_agree [OF agree dec])
  note dt = this
  have unsup: "unsupported c mk ms = unsupported c m ms" by (rule unsupported_agree [OF agree dec])
  have "code_chain mbase vbase (is @ [ms]) (mpc (db2 ! cur2)) (vpc (db2 ! cur2))"
    unfolding code_chain_snoc using I(1) dec p(5,6) by blast
  moreover have "unat (vpc (db2 ! cur2)) = unat vbase + code_len (is @ [ms])" "unat (vpc (db2 ! cur2)) \<le> unat vlimit"
    using p(4,7) I(2) by simp_all
  moreover have "\<forall>i \<in> set (is @ [ms]). decodes_to dt m i \<and> inst_allowed i"
    using I(4,5) v(3) validator_decodes [OF nb cn _ v(1) agree] v(1) e by auto
  moreover have "cpufeatures vs2 = c \<and> iadrbase vs2 = vbase \<and> iadrlimit vs2 = vlimit \<and> alignmask vs2 = amask"
    using cfg I(6-9) by simp
  moreover have "IATOffset (vlimit - vbase) < length (vttable vs2) \<and> IATOffset (vlimit - vbase) < length (kttable vs2)"
    using v(7,9) I(10,11) by (simp split: option.split)
  moreover have "\<forall>t. vbase \<le> t \<and> t < vlimit \<longrightarrow> (GetAdrTable (t - vbase) (vttable vs2) \<longleftrightarrow> t \<in> entry_points (is @ [ms]))"
    using vinv_vttable_step [OF I(12) I(10), of ms] v(4-6) I(7,8) unfolding v(7) by auto
  moreover have "\<forall>i \<in> set (is @ [ms]). \<forall>t. direct_target m i = Some t \<longrightarrow>
      (if vbase \<le> t \<and> t < vlimit then GetAdrTable (t - vbase) (kttable vs2) else t AND amask = 0)"
  proof (intro ballI allI impI)
    fix i t assume i: "i \<in> set (is @ [ms])" and t: "direct_target m i = Some t"
    have keep: "GetAdrTable o' (kttable vs2)" if "GetAdrTable o' (kttable vs)" for o'
      using that v(9) I(7,8) at.get_put [OF IATOffset_inside [OF _ _ I(11)]] by (simp add: dt split: option.split)
    show "if vbase \<le> t \<and> t < vlimit then GetAdrTable (t - vbase) (kttable vs2) else t AND amask = 0"
    proof (cases "i \<in> set is")
      case True
      then show ?thesis using I(13) [OF _ t] keep by (auto split: if_splits)
    next
      case False
      then have t': "direct_target mk ms = Some t" using i t dt by simp
      then show ?thesis
        using v(8) [OF t'] v(9) I(7-9) at.get_put [OF IATOffset_inside [OF _ _ I(11)]]
        by (auto simp: target_ok_def)
    qed
  qed
  moreover have "jumps_masked m amask (is @ [ms])"
  proof -
    have "is \<noteq> [] \<and> indirect5_ok m (inst ms) (inst (last is)) amask" if ind: "inst_type ms = NACLi_INDIRECT"
    proof -
      have a: "inst_length (inst (db ! PreviousInst db (db ! cur) (- 1))) \<noteq> 0"
        "indirect5_ok mk (inst ms) (inst (db ! PreviousInst db (db ! cur) (- 1))) amask"
        using v(10) [OF ind] prev I(9) by simp_all
      then have "is \<noteq> []" "inst (db ! PreviousInst db (db ! cur) (- 1)) = inst (last is)"
        using I(16) by (auto split: if_splits)
      then show ?thesis
        using a(2) indirect5_transfer [OF _ agree [unfolded I(15)] dec mask] I(15) by simp
    qed
    then show ?thesis using I(14) by (simp add: jumps_masked_snoc)
  qed
  moreover have "mk2 = squashed_mem c m (is @ [ms])"
    using v(11) I(6,15) unsup by (simp add: squashed_mem_snoc)
  ultimately show ?thesis unfolding vinv_def using p(8) by simp
qed

section \<open>The final pass\<close>

lemma check_target_frame [simp]:
  "config (check_target off vs) = config vs" "vttable (check_target off vs) = vttable vs"
  "kttable (check_target off vs) = kttable vs"
  by (simp_all add: check_target_def Let_def)

lemma check_target_ok:
  "\<not> failed (check_target off vs) \<Longrightarrow>
     \<not> failed vs \<and> (GetAdrTable off (kttable vs) \<longrightarrow> GetAdrTable off (vttable vs))"
  by (auto simp: check_target_def Let_def split: if_splits)

lemma check_target_fold:
  "config (fold (\<lambda>i. check_target (of_nat i)) xs vs) = config vs \<and>
   vttable (fold (\<lambda>i. check_target (of_nat i)) xs vs) = vttable vs \<and>
   kttable (fold (\<lambda>i. check_target (of_nat i)) xs vs) = kttable vs \<and>
   (\<not> failed (fold (\<lambda>i. check_target (of_nat i)) xs vs) \<longrightarrow>
      \<not> failed vs \<and> (\<forall>i \<in> set xs. GetAdrTable (of_nat i) (kttable vs) \<longrightarrow> GetAdrTable (of_nat i) (vttable vs)))"
proof (induction xs arbitrary: vs)
  case (Cons i xs)
  show ?case using Cons [of "check_target (of_nat i) vs"] check_target_ok [of "of_nat i" vs] by auto
qed simp

lemma check_targets_ok:
  "config (check_targets vs) = config vs" "vttable (check_targets vs) = vttable vs"
  "\<not> failed (check_targets vs) \<Longrightarrow> \<not> failed vs"
  "\<not> failed (check_targets vs) \<Longrightarrow> off < iadrlimit vs - iadrbase vs \<Longrightarrow>
     GetAdrTable off (kttable vs) \<Longrightarrow> GetAdrTable off (vttable vs)"
proof -
  let ?n = "unat (iadrlimit vs - iadrbase vs)"
  note f = check_target_fold [of "[0..<?n]" vs, folded check_targets_def]
  show "config (check_targets vs) = config vs" "vttable (check_targets vs) = vttable vs"
    "\<not> failed (check_targets vs) \<Longrightarrow> \<not> failed vs" using f by simp_all
  assume "\<not> failed (check_targets vs)" "off < iadrlimit vs - iadrbase vs" "GetAdrTable off (kttable vs)"
  then show "GetAdrTable off (vttable vs)"
    using f by (auto simp: word_less_nat_alt dest!: bspec [of _ _ "unat off"])
qed

definition bundle_starts :: "vstate \<Rightarrow> nat \<Rightarrow> bool" where
  "bundle_starts vs n \<longleftrightarrow>
     (\<forall>k. n + k * unat (alignment vs) < unat (iadrlimit vs - iadrbase vs) \<longrightarrow>
        GetAdrTable (of_nat (n + k * unat (alignment vs))) (vttable vs))"

lemma bundle_starts_step:
  assumes "GetAdrTable (of_nat n) (vttable vs)" and "bundle_starts vs (n + unat (alignment vs))"
  shows "bundle_starts vs n"
  unfolding bundle_starts_def
proof (intro allI impI)
  fix k assume k: "n + k * unat (alignment vs) < unat (iadrlimit vs - iadrbase vs)"
  show "GetAdrTable (of_nat (n + k * unat (alignment vs))) (vttable vs)"
  proof (cases k)
    case (Suc j)
    then have e: "n + k * unat (alignment vs) = n + unat (alignment vs) + j * unat (alignment vs)" by simp
    show ?thesis using assms(2) k unfolding bundle_starts_def e by blast
  qed (use assms(1) in simp)
qed

lemma boundary_loop_ok:
  assumes "0 < unat (alignment vs)" and "unat (iadrlimit vs - iadrbase vs) + unat (alignment vs) < 2 ^ 32"
  shows "\<exists>vs'. boundary_loop off vs = Some vs' \<and>
           (\<not> failed vs' \<longrightarrow> \<not> failed vs \<and> bundle_starts vs (unat off))"
  using assms
proof (induction "unat (iadrlimit vs - iadrbase vs) - unat off" arbitrary: off vs rule: less_induct)
  case less
  show ?case
  proof (cases "off < iadrlimit vs - iadrbase vs")
    case False
    then have "bundle_starts vs (unat off)" by (simp add: bundle_starts_def word_less_nat_alt)
    then show ?thesis using False by (subst boundary_loop.simps) simp
  next
    case True
    define vs1 where "vs1 = (if \<not> GetAdrTable off (vttable vs) then Stats_BadAlignment (ValidatePrintError vs) else vs)"
    have cfg: "config vs1 = config vs" by (simp add: vs1_def)
    note f = config_fields [OF cfg]
    have vt: "vttable vs1 = vttable vs" by (simp add: vs1_def)
    have al: "unat (ucast (alignment vs) :: u32) = unat (alignment vs)"
      by (simp add: unsigned_ucast_eq take_bit_nat_eq_self unsigned_less [THEN less_le_trans])
    have nxt: "unat (off + ucast (alignment vs)) = unat off + unat (alignment vs)"
      using unat_add_no_wrap [of off "ucast (alignment vs)"] al True less.prems(2) by (simp add: word_less_nat_alt)
    have "unat (iadrlimit vs1 - iadrbase vs1) - unat (off + ucast (alignment vs))
        < unat (iadrlimit vs - iadrbase vs) - unat off"
      using True less.prems(1) nxt f by (simp add: word_less_nat_alt)
    from less.hyps [OF this] less.prems f obtain vs' where
      vs': "boundary_loop (off + ucast (alignment vs)) vs1 = Some vs'"
        "\<not> failed vs' \<longrightarrow> \<not> failed vs1 \<and> bundle_starts vs1 (unat (off + ucast (alignment vs)))" by auto
    have "boundary_loop off vs = Some vs'"
      by (subst boundary_loop.simps) (use True vs'(1) in \<open>simp add: vs1_def\<close>)
    moreover have "\<not> failed vs \<and> bundle_starts vs (unat off)" if "\<not> failed vs'"
    proof -
      have nf: "\<not> failed vs1" and bs: "bundle_starts vs1 (unat off + unat (alignment vs))" using vs'(2) that nxt by simp_all
      then have g: "vs1 = vs" "GetAdrTable off (vttable vs)" by (auto simp: vs1_def split: if_splits)
      then show ?thesis using nf bs bundle_starts_step [of "unat off" vs] by simp
    qed
    ultimately show ?thesis by blast
  qed
qed

lemma boundary_loop_failed:
  assumes "boundary_loop off vs = Some vs'" and "failed vs"
  shows "failed vs'"
  using assms(2)
proof (induction rule: boundary_loop.raw_induct [OF _ assms(1)])
  case (1 loop off vs vs')
  then show ?case by (cases "off < iadrlimit vs - iadrbase vs") (auto split: if_splits)
qed

lemma NCValidateFinish_not_failed:
  assumes "NCValidateFinish (Some vs) = Some (0, r)"
  shows "\<not> failed vs"
proof
  assume f: "failed vs"
  define vs1 where "vs1 = check_targets vs"
  define vs2 where "vs2 = (if iadrbase vs1 AND alignmask vs1 \<noteq> 0 then Stats_BadAlignment (ValidatePrintError vs1) else vs1)"
  have "failed vs1" using f check_targets_ok(3) [of vs] by (auto simp: vs1_def)
  then have f2: "failed vs2" by (simp add: vs2_def)
  obtain vs3 where "boundary_loop 0 vs2 = Some vs3" "sawfailure (stats vs3) = 0"
    using assms by (auto simp: NCValidateFinish_def Let_def vs1_def [symmetric] vs2_def [symmetric] split: option.splits)
  then show False using boundary_loop_failed [OF _ f2] by (auto simp: failed_def)
qed

lemma NCValidateFinish_ok:
  assumes "NCValidateFinish (Some vs) = Some (0, r)" and "0 < unat (alignment vs)"
    and "unat (iadrlimit vs - iadrbase vs) + unat (alignment vs) < 2 ^ 32"
  shows "\<not> failed vs" and "bundle_starts vs 0"
    and "\<And>off. off < iadrlimit vs - iadrbase vs \<Longrightarrow> GetAdrTable off (kttable vs) \<Longrightarrow> GetAdrTable off (vttable vs)"
proof -
  define vs1 where "vs1 = check_targets vs"
  define vs2 where "vs2 = (if iadrbase vs1 AND alignmask vs1 \<noteq> 0 then Stats_BadAlignment (ValidatePrintError vs1) else vs1)"
  have cfg: "config vs2 = config vs" "vttable vs2 = vttable vs"
    by (simp_all add: vs2_def vs1_def check_targets_ok)
  note f = config_fields [OF cfg(1)]
  obtain vs3 where vs3: "boundary_loop 0 vs2 = Some vs3"
      "\<not> failed vs3 \<longrightarrow> \<not> failed vs2 \<and> bundle_starts vs2 (unat (0 :: u32))"
    using boundary_loop_ok [of vs2 0] assms(2,3) f by auto
  have "sawfailure (stats vs3) = 0"
    using assms(1) vs3(1) by (simp add: NCValidateFinish_def Let_def vs1_def [symmetric] vs2_def [symmetric])
  then have nf: "\<not> failed vs2" and bs: "bundle_starts vs2 0" using vs3(2) by (simp_all add: failed_def)
  show "bundle_starts vs 0" using bs f cfg(2) by (simp add: bundle_starts_def)
  have "\<not> failed vs1" using nf by (auto simp: vs2_def split: if_splits)
  note c = check_targets_ok [of vs, folded vs1_def]
  show "\<not> failed vs" "\<And>off. off < iadrlimit vs - iadrbase vs \<Longrightarrow> GetAdrTable off (kttable vs) \<Longrightarrow>
      GetAdrTable off (vttable vs)" using c(3,4) \<open>\<not> failed vs1\<close> by blast+
qed

section \<open>Soundness\<close>

text \<open>
  What validation promises of the code at \<open>mbase\<close>, to be run at \<open>vbase\<close>, with \<open>is\<close> its instructions:
  they tile the segment exactly; each decodes from the memory and is allowed; a direct jump inside the
  segment goes to an entry point and one that leaves it to a bundle boundary; every indirect jump is
  masked by the instruction before it; every bundle boundary of the segment is an entry point.
\<close>

definition sandboxed ::
    "DecodeTables \<Rightarrow> u32 \<Rightarrow> memory \<Rightarrow> uintptr_t \<Rightarrow> NaClPcAddress \<Rightarrow> NaClMemorySize \<Rightarrow> NCDecoderState list \<Rightarrow> bool" where
  "sandboxed dt amask m mbase vbase sz is \<longleftrightarrow>
     code_chain mbase vbase is (mbase + sz) (vbase + sz) \<and> code_len is = unat sz \<and>
     (\<forall>i \<in> set is. decodes_to dt m i \<and> inst_allowed i) \<and>
     (\<forall>i \<in> set is. \<forall>t. direct_target m i = Some t \<longrightarrow>
        (if vbase \<le> t \<and> t < vbase + sz then t \<in> entry_points is else t AND amask = 0)) \<and>
     jumps_masked m amask is \<and>
     (\<forall>t. vbase \<le> t \<and> t < vbase + sz \<and> t AND amask = 0 \<longrightarrow> t \<in> entry_points is)"

lemma squashed_mem_outside:
  assumes "sandboxed dt amask m a p sz is" and "\<not> x - a < sz"
  shows "squashed_mem c m is x = m x"
proof -
  have ch: "code_chain a p is (a + sz) (p + sz)" and l: "code_len is = unat sz"
    using assms(1) by (simp_all add: sandboxed_def)
  have "\<not> unat (x - maddr (inst i)) < unat (inst_length (inst i))" if i: "i \<in> set is" for i
  proof
    let ?e = "unat (x - maddr (inst i))"
    assume lt: "?e < unat (inst_length (inst i))"
    obtain k where k: "maddr (inst i) = a + of_nat k" "k + unat (inst_length (inst i)) \<le> unat sz"
      using code_chain_offsets [OF ch i] l by (auto simp: lies_in_def)
    have small: "k + ?e < unat sz" using lt k(2) by simp
    then have "unat (of_nat (k + ?e) :: uintptr_t) = k + ?e"
      using unat_lt_size_t [of sz] by (simp only: unat_of_nat) simp
    moreover have "x - a = of_nat (k + ?e)" by (simp add: k(1))
    ultimately have "unat (x - a) < unat sz" using small by metis
    then show False using assms(2) by (simp add: word_less_nat_alt)
  qed
  then show ?thesis by (auto simp: squashed_mem_def list_ex_iff)
qed

lemma NCValidateInit_state:
  assumes "NCValidateInit env vbase vlimit align = Some vs"
  shows "iadrbase vs = vbase" "iadrlimit vs = vlimit" "alignment vs = align" "alignmask vs = ucast align - 1"
    "\<not> failed vs" "vttable vs = replicate (IATOffset (vlimit - vbase) + 1) 0"
    "kttable vs = replicate (IATOffset (vlimit - vbase) + 1) 0" "segments (stats vs) = 0" "vbase < vlimit"
    "align = 16 \<or> align = 32" "vbase AND (ucast align - 1) = 0"
  using assms
  by (auto simp: NCValidateInit_def Stats_Init_def InitOpcodeHisto_def failed_def zero_stats_def split: if_splits)

lemma aligned_bundle:
  assumes "align = 16 \<or> align = (32 :: u8)" and "amask = ucast align - 1" and "vbase AND amask = 0" and "t AND amask = 0"
    and "vbase \<le> (t :: u32)"
  shows "\<exists>k. unat (t - vbase) = k * unat align"
proof -
  have "unat align dvd unat x" if "x AND amask = 0" for x :: u32
  proof -
    have "unat (x AND mask 4) = unat x mod 16" "unat (x AND mask 5) = unat x mod 32"
      by (simp_all add: unat_and_mask_mod)
    then show ?thesis using that assms(1,2) by (auto simp: mask_eq_exp_minus_1 dvd_eq_mod_eq_0)
  qed
  then have "unat align dvd unat t - unat vbase" using assms(3,4) by (intro dvd_diff_nat) auto
  then show ?thesis using assms(5) by (auto simp: unat_sub mult.commute elim!: dvdE)
qed

lemma zero_table: "IATOffset off < n \<Longrightarrow> \<not> GetAdrTable off (replicate n 0)"
  by (simp add: GetAdrTable_def)

lemma NewSegment_ok:
  assumes "segments (stats vs) = 0"
  shows "failed (Stats_NewSegment vs) = failed vs" "config (Stats_NewSegment vs) = config vs"
    "vttable (Stats_NewSegment vs) = vttable vs" "kttable (Stats_NewSegment vs) = kttable vs"
  using assms by (simp_all add: Stats_NewSegment_def Let_def failed_def config_def)

lemma vinv_initial:
  assumes init: "NCValidateInit env vbase (vbase + sz) align = Some vs0" and len: "length stack = 4"
    and lim: "unat vbase + unat sz + 32 < 2 ^ 32" and ib: "InitDecodeBuffer mbase vbase stack = (db, cur)"
    and cf: "config vs1 = (cpu env, vbase, vbase + sz, align, ucast align - 1)"
    and tabs: "vttable vs1 = vttable vs0" "kttable vs1 = kttable vs0" and seg: "segments (stats vs1) = 0"
  shows "vinv dt (cpu env) (ucast align - 1) m mbase vbase (vbase + sz) [] db cur m (Stats_NewSegment vs1)"
proof -
  note st = NCValidateInit_state [OF init] and ring = InitDecodeBuffer_ring [OF len ib] and ns = NewSegment_ok [OF seg]
  let ?lim = "vbase + sz"
  have ulim: "unat ?lim = unat vbase + unat sz" by (rule unat_add_no_wrap) (use lim in simp)
  have prev: "PreviousInst db (db ! cur) (- 1) = 3"
    using PreviousInst_ring(2) [of 0 "db ! cur" db] ring by (simp add: ring_at_def ring_ok_def)
  have cf': "config (Stats_NewSegment vs1) = (cpu env, vbase, ?lim, align, ucast align - 1)" using ns(2) cf by simp
  have t: "vttable (Stats_NewSegment vs1) = replicate (IATOffset (?lim - vbase) + 1) 0"
    "kttable (Stats_NewSegment vs1) = replicate (IATOffset (?lim - vbase) + 1) 0"
    using ns(3,4) tabs st(6,7) by simp_all
  have z: "\<not> GetAdrTable (t - vbase) (replicate (IATOffset (?lim - vbase) + 1) 0)" if "vbase \<le> t" "t < ?lim" for t
    by (rule zero_table, rule IATOffset_inside [OF that]) simp
  show ?thesis
    unfolding vinv_def t
    using ring ulim cf' z prev
    by (simp add: config_def code_len_def entry_points_def jumps_masked_def squashed_mem_def [abs_def])
qed

lemma validated_segment:
  assumes init: "NCValidateInit env vbase (vbase + sz) align = Some vs0" and len: "length stack = 4"
    and lim: "unat vbase + unat sz + 32 < 2 ^ 32"
    and run: "NCValidateSegment env dt stack mbase vbase sz m (NCValidateSetStubOutMode vs0 b) = Some (Inr (m', vs))"
    and nf: "\<not> failed vs"
  shows "\<exists>is db cur. vinv dt (cpu env) (ucast align - 1) m mbase vbase (vbase + sz) is db cur m' vs \<and>
           vpc (db ! cur) = vbase + sz \<and> config vs = (cpu env, vbase, vbase + sz, align, ucast align - 1)"
proof -
  define vs1 where "vs1 = (NCValidateSetStubOutMode vs0 b)\<lparr>cpufeatures := cpu env\<rparr>"
  note st = NCValidateInit_state [OF init]
  let ?amask = "ucast align - 1" and ?lim = "vbase + sz"
  have mask: "?amask = 15 \<or> ?amask = (31 :: u32)" using st(10) by auto
  have ulim: "unat ?lim = unat vbase + unat sz" by (rule unat_add_no_wrap) (use lim in simp)
  have vs1: "config vs1 = (cpu env, vbase, ?lim, align, ?amask)" "\<not> failed vs1" "segments (stats vs1) = 0"
    "vttable vs1 = vttable vs0" "kttable vs1 = kttable vs0"
    using st by (simp_all add: vs1_def NCValidateSetStubOutMode_def config_def failed_def)
  obtain db cur where ib: "InitDecodeBuffer mbase vbase stack = (db, cur)" by fastforce
  note ring = InitDecodeBuffer_ring [OF len ib]
  have loop: "decode_loop validator_callbacks dt ?lim db cur m (Stats_NewSegment vs1) = Some (Inr (m', vs))"
    using run nf ib
    by (auto simp: NCValidateSegment_def NCDecodeSegment_def validator_callbacks_def Let_def vs1_def split: if_splits)
  note ns = NewSegment_ok [OF vs1(3)]
  let ?P = "\<lambda>db cur mk vs. \<not> failed vs \<longrightarrow> alignment vs = align \<and>
      (\<exists>is. vinv dt (cpu env) ?amask m mbase vbase ?lim is db cur mk vs)"
  have "vinv dt (cpu env) ?amask m mbase vbase ?lim [] db cur m (Stats_NewSegment vs1)"
    by (rule vinv_initial [OF init len lim ib vs1(1,4,5,3)])
  moreover have "alignment (Stats_NewSegment vs1) = align" using ns(2) vs1(1) by (simp add: config_def)
  ultimately have P0: "?P db cur m (Stats_NewSegment vs1)" by blast
  have lims: "unat ?lim + 19 < 2 ^ 32" "unat ?lim + 20 < 2 ^ 32" using ulim lim by simp_all
  have step: "?P db2 cur2 m2 v2" if r: "ring_at db cur" and P: "?P db cur mk v"
    and rd: "decode_round validator_callbacks dt ?lim db cur mk v ms v1 db2 cur2 m2 v2" for db cur mk v ms v1 db2 cur2 m2 v2
  proof
    assume ok: "\<not> failed v2"
    have cur: "db[cur := ms] ! cur = ms" using r by (simp add: ring_at_def ring_ok_def)
    have "ValidateInst (db[cur := ms]) cur (mk, v1) = Inr (m2, v2)"
      using rd by (simp add: decode_round_def validator_callbacks_def)
    note V = ValidateInst_ok(1,2) [OF this ok]
    have "v1 = v" using rd V(1) consume_keeps_state by (auto simp: decode_round_def)
    then have nv: "\<not> failed v" and al: "alignment v2 = alignment v" using V config_fields(4) [OF V(2)] by simp_all
    then obtain "is" where "vinv dt (cpu env) ?amask m mbase vbase ?lim is db cur mk v" using P by blast
    from vinv_step [OF r rd lims(2) mask ok this] nv al P
    show "alignment v2 = align \<and> (\<exists>is. vinv dt (cpu env) ?amask m mbase vbase ?lim is db2 cur2 m2 v2)" by blast
  qed
  have "\<exists>db cur v. ring_at db cur \<and> ?P db cur m' v \<and>
      ((\<not> vpc (db ! cur) < ?lim \<and> vs = v) \<or> (\<exists>w. vs = ErrorSegmentation validator_callbacks w))"
    by (rule decode_loop_invariant [where P = ?P, OF ring(1) lims(1) loop P0]) (rule step)
  then obtain db' cur' v where D: "?P db' cur' m' v"
      "(\<not> vpc (db' ! cur') < ?lim \<and> vs = v) \<or> (\<exists>w. vs = ErrorSegmentation validator_callbacks w)" by blast
  have "\<not> vpc (db' ! cur') < ?lim" and e: "vs = v"
    using D(2) nf by (auto simp: ErrorSegmentation_def validator_callbacks_def)
  moreover obtain "is" where I: "vinv dt (cpu env) ?amask m mbase vbase ?lim is db' cur' m' vs"
    and al: "alignment vs = align" using D(1) e nf by blast
  ultimately have "vpc (db' ! cur') = ?lim"
    using vinv_fields(3) [OF I] by (simp add: word_less_nat_alt word_unat_eq_iff)
  moreover have "config vs = (cpu env, vbase, ?lim, align, ?amask)"
    using vinv_fields(6-9) [OF I] al by (simp add: config_def)
  ultimately show ?thesis using I by blast
qed

lemma vinv_finish:
  assumes init: "NCValidateInit env vbase (vbase + sz) align = Some vs0" and lim: "unat vbase + unat sz + 32 < 2 ^ 32"
    and fin: "NCValidateFinish (Some vs) = Some (0, r)"
    and I: "vinv dt c (ucast align - 1) m mbase vbase (vbase + sz) is db cur m' vs" and ex: "vpc (db ! cur) = vbase + sz"
    and cf: "config vs = (c, vbase, vbase + sz, align, ucast align - 1)"
  shows "sandboxed dt (ucast align - 1) m mbase vbase sz is"
proof -
  note st = NCValidateInit_state [OF init]
  let ?amask = "ucast align - 1 :: u32" and ?lim = "vbase + sz"
  have sz: "unat (?lim - vbase) = unat sz" by simp
  note J = vinv_fields [OF I]
  have F: "\<not> failed vs" "bundle_starts vs 0"
    "\<And>off. off < ?lim - vbase \<Longrightarrow> GetAdrTable off (kttable vs) \<Longrightarrow> GetAdrTable off (vttable vs)"
    using NCValidateFinish_ok [OF fin] cf st(10) lim sz by (auto simp: config_def)
  have off: "t - vbase < ?lim - vbase" if "vbase \<le> t" "t < ?lim" for t
    using that by (simp only: word_less_nat_alt word_le_nat_alt unat_sub)
  have entry: "t \<in> entry_points is" if "vbase \<le> t" "t < ?lim" "GetAdrTable (t - vbase) (vttable vs)" for t
    using J(12) that by blast
  have "code_chain mbase vbase is (mbase + sz) ?lim"
    using J(1) ex code_chain_end [OF J(1)] by (metis add_left_cancel)
  moreover have "\<forall>i \<in> set is. \<forall>t. direct_target m i = Some t \<longrightarrow>
        (if vbase \<le> t \<and> t < ?lim then t \<in> entry_points is else t AND ?amask = 0)"
    using J(13) F(3) off entry by (meson)
  moreover have "t \<in> entry_points is" if t: "vbase \<le> t" "t < ?lim" "t AND ?amask = 0" for t
  proof -
    obtain k where k: "unat (t - vbase) = k * unat align"
      using aligned_bundle [OF st(10) refl st(11) t(3,1)] by blast
    have "unat (t - vbase) < unat (?lim - vbase)" using off [OF t(1,2)] by (simp only: word_less_nat_alt)
    then have "GetAdrTable (of_nat (unat (t - vbase))) (vttable vs)"
      using F(2) cf unfolding bundle_starts_def k by (auto simp: config_def)
    then show ?thesis using entry [OF t(1,2)] by simp
  qed
  moreover have "code_len is = unat sz"
    using J(2) ex unat_add_no_wrap [of vbase sz] lim by simp
  ultimately show "sandboxed dt ?amask m mbase vbase sz is"
    using J(4,5,14) by (simp add: sandboxed_def)
qed

lemma validated_code:
  assumes "NCValidateInit env vbase (vbase + sz) align = Some vs0" and "length stack = 4"
    and "unat vbase + unat sz + 32 < 2 ^ 32"
    and "NCValidateSegment env dt stack mbase vbase sz m (NCValidateSetStubOutMode vs0 b) = Some (Inr (m', vs))"
    and "NCValidateFinish (Some vs) = Some (0, r)"
  shows "\<exists>is. sandboxed dt (ucast align - 1) m mbase vbase sz is \<and> m' = squashed_mem (cpu env) m is"
proof -
  have nf: "\<not> failed vs" by (rule NCValidateFinish_not_failed [OF assms(5)])
  from validated_segment [OF assms(1-4) nf] obtain "is" db cur
    where I: "vinv dt (cpu env) (ucast align - 1) m mbase vbase (vbase + sz) is db cur m' vs"
      and ex: "vpc (db ! cur) = vbase + sz" "config vs = (cpu env, vbase, vbase + sz, align, ucast align - 1)" by blast
  from vinv_finish [OF assms(1,3,5) I ex] vinv_fields(15) [OF I] show ?thesis by blast
qed

text \<open>C1: When the validator accepts a segment (\<open>NCValidateInit\<close>, \<open>NCValidateSegment\<close> and a zero result of
  \<open>NCValidateFinish\<close>, with or without stub-out mode), the segment is sandboxed: its bytes split into
  allowed instructions that tile it exactly, control can enter them only at instruction starts and never
  between a mask and its indirect jump, every direct jump stays inside or leaves to a bundle boundary, and
  every bundle boundary is an instruction start. Validation changes memory only by overwriting
  instructions the processor does not support with halts.\<close>

theorem NCValidate_sound:
  assumes "NCValidateInit env vbase (vbase + sz) align = Some vs0" and "length stack = 4"
    and "unat vbase + unat sz + 32 < 2 ^ 32"
    and "NCValidateSegment env dt stack mbase vbase sz m (NCValidateSetStubOutMode vs0 b) = Some (Inr (m', vs))"
    and "NCValidateFinish (Some vs) = Some (0, r)"
  shows "\<exists>is. sandboxed dt (ucast align - 1) m mbase vbase sz is \<and> m' = squashed_mem (cpu env) m is"
  using assms by (rule validated_code)

definition sample_env :: valid_env where
  "sample_env = \<lparr>kMaxDiagnostics = 0, stats_inited = False, calloc_ok = True, cpu = no_features\<lparr>f_386 := True\<rparr>\<rparr>"

definition accepts :: "valid_env \<Rightarrow> DecodeTables \<Rightarrow> uintptr_t \<Rightarrow> u32 \<Rightarrow> u32 \<Rightarrow> u8 \<Rightarrow> memory \<Rightarrow> bool" where
  "accepts env dt mbase vbase sz align m =
     (case NCValidateInit env vbase (vbase + sz) align of None \<Rightarrow> False
      | Some vs0 \<Rightarrow>
        (case NCValidateSegment env dt (replicate 4 blank_state) mbase vbase sz m (NCValidateSetStubOutMode vs0 False) of
           Some (Inr (m', vs)) \<Rightarrow> (case NCValidateFinish (Some vs) of Some (rc, _) \<Rightarrow> rc = 0 | None \<Rightarrow> False)
         | _ \<Rightarrow> False))"

lemma sample_accepts: "accepts sample_env sample_tables 0x1000 0x20000 5 32 nacljmp_mem"
  by code_simp

theorem NCValidate_sound_witness:
  "\<exists>is. sandboxed sample_tables 31 nacljmp_mem 0x1000 0x20000 5 is"
proof -
  obtain vs0 m' vs r where
    "NCValidateInit sample_env 0x20000 (0x20000 + 5) 32 = Some vs0"
    "NCValidateSegment sample_env sample_tables (replicate 4 blank_state) 0x1000 0x20000 5 nacljmp_mem
       (NCValidateSetStubOutMode vs0 False) = Some (Inr (m', vs))"
    "NCValidateFinish (Some vs) = Some (0, r)"
    using sample_accepts by (auto simp: accepts_def split: option.splits sum.splits prod.splits)
  from NCValidate_sound [OF this(1) _ _ this(2,3)] show ?thesis by auto
qed

section \<open>Validation always returns\<close>

lemma config_errors [simp]:
  "config (Stats_InternalError vs) = config vs" "config (Stats_SegFault vs) = config vs"
  "config (Stats_UnsafeIndirect vs) = config vs" "config (Stats_Return vs) = config vs"
  "config (Stats_IllegalInst vs) = config vs" "config (Stats_BadPrefix vs) = config vs"
  "config (Stats_BadInstLength vs) = config vs" "config (Stats_NewSegment vs) = config vs"
  by (simp_all add: config_def stats_defs Stats_NewSegment_def Let_def)

lemma config_BadInstructionError [simp]: "config (snd (BadInstructionError ms s)) = config (snd s)"
  by (simp add: BadInstructionError_def split: prod.split)

lemma config_checks [simp]:
  "config (RememberIP ip vs) = config vs" "config (RememberTP t vs) = config vs" "config (ForgetIP ip vs) = config vs"
  "config (ValidateCallAlignment ms vs) = config vs"
  by (simp_all add: RememberIP_def RememberTP_def ForgetIP_def ValidateCallAlignment_def Let_def)

lemma config_jumps [simp]:
  "config (ValidateJmp8 m ms vs) = config vs" "config (ValidateJmpz m ms vs) = config vs"
  "config (snd (ValidateIndirect5 db ms s)) = config (snd s)"
  by (simp_all add: ValidateJmp8_def ValidateJmpz_def ValidateIndirect5_def Let_def split: prod.split)

lemma config_inst_switch [simp]: "config (snd (fst (inst_switch db ms op s))) = config (snd s)"
  by (simp add: inst_switch_def Let_def split: option.split)

lemma config_check_prefix [simp]: "config (snd (check_prefix_and_length ms op s)) = config (snd s)"
  by (simp add: check_prefix_and_length_def Let_def)

lemma ValidateInst_total:
  assumes "opinfo (db ! cur) \<noteq> None"
  shows "\<exists>m' vs'. ValidateInst db cur (m, vs) = Inr (m', vs') \<and> config vs' = config vs"
proof -
  let ?ms = "db ! cur"
  obtain op where op: "opinfo ?ms = Some op" using assms by blast
  define vs1 where "vs1 = RememberIP (vaddr (inst ?ms)) (OpcodeHisto (m (maddr (inst ?ms) + ucast (prefixbytes (inst ?ms)))) vs)"
  obtain m2 vs2 q where s: "inst_switch db ?ms op (check_prefix_and_length ?ms op (m, vs1)) = ((m2, vs2), q)"
    by (metis prod.exhaust)
  have "config vs2 = config vs1"
    using config_inst_switch [of db ?ms op "check_prefix_and_length ?ms op (m, vs1)"] unfolding s by simp
  then show ?thesis using op s by (simp add: ValidateInst_def Let_def vs1_def)
qed

interpretation vc: client_invariant validator_callbacks "\<lambda>v. config v = config vs" for vs
  by unfold_locales (simp add: validator_callbacks_def)

lemma decode_loop_total:
  assumes "tables_typed dt" and "ring_at db cur" and "unat vlimit + 19 < 2 ^ 32"
  shows "\<exists>m' vs'. decode_loop validator_callbacks dt vlimit db cur m vs = Some (Inr (m', vs')) \<and> config vs' = config vs"
  using assms(2)
proof (induction "unat vlimit - unat (vpc (db ! cur))" arbitrary: db cur m vs rule: less_induct)
  case less
  obtain newpc ms vs1 where c: "ConsumeNextInstruction validator_callbacks dt m (db ! cur) vs = Inr (newpc, ms, vs1)"
    using ConsumeNextInstruction_total [OF assms(1)] by (metis prod_cases3)
  have c1: "config vs1 = config vs" using vc.ConsumeNextInstruction_keeps [OF c, of vs] by simp
  have cur: "db[cur := ms] ! cur = ms" and nb: "nextbyte (db ! cur) = mpc (db ! cur)"
    using less.prems by (simp_all add: ring_at_def ring_ok_def)
  have "opinfo ms \<noteq> None" using ConsumeNextInstruction_decoded(1) [OF nb c] by (simp add: decoded_at_def)
  then obtain m2 vs2 where a: "ValidateInst (db[cur := ms]) cur (m, vs1) = Inr (m2, vs2)" "config vs2 = config vs1"
    using ValidateInst_total [of "db[cur := ms]" cur m vs1] cur by auto
  show ?case
  proof (cases rule: decode_loop_cases [of db cur vlimit validator_callbacks dt m vs])
    case exit
    then show ?thesis by simp
  next
    case (abort e)
    then show ?thesis using c a by (auto simp: validator_callbacks_def)
  next
    case (overrun p ms' v1)
    then show ?thesis using c c1 by (auto simp: ErrorSegmentation_def validator_callbacks_def)
  next
    case (round ms' v1 db2 cur2 m3 v2)
    note p = decode_round_progress [OF less.prems round assms(3)]
    have "unat vlimit - unat (vpc (db2 ! cur2)) < unat vlimit - unat (vpc (db ! cur))"
      using p(2,4,7) unfolding decoded_at_def by linarith
    moreover have "config v2 = config vs"
      using round c c1 a by (auto simp: decode_round_def validator_callbacks_def)
    ultimately show ?thesis using less.hyps [OF _ p(1), of m3 v2] decode_loop_step [OF round] by auto
  qed
qed

lemma NCValidateSegment_total:
  assumes "tables_typed dt" and "length stack = 4" and "unat vbase + unat sz + 19 < 2 ^ 32"
  shows "\<exists>m' vs'. NCValidateSegment env dt stack mbase vbase sz m vs = Some (Inr (m', vs')) \<and>
           iadrbase vs' = iadrbase vs \<and> iadrlimit vs' = iadrlimit vs \<and> alignment vs' = alignment vs"
proof -
  obtain db cur where i: "InitDecodeBuffer mbase vbase stack = (db, cur)" by fastforce
  let ?vs = "vs\<lparr>cpufeatures := cpu env\<rparr>"
  have "unat (vbase + sz) = unat vbase + unat sz" by (rule unat_add_no_wrap) (use assms(3) in simp)
  then have "unat (vbase + sz) + 19 < 2 ^ 32" using assms(3) by simp
  from decode_loop_total [OF assms(1) InitDecodeBuffer_ring(1) [OF assms(2) i] this, of m "Stats_NewSegment ?vs"]
  obtain m' vs' where l: "decode_loop validator_callbacks dt (vbase + sz) db cur m (Stats_NewSegment ?vs) = Some (Inr (m', vs'))"
    "config vs' = config ?vs" by auto
  have "NCDecodeSegment validator_callbacks dt stack mbase vbase sz m ?vs = Some (Inr (m', vs'))"
    using l(1) by (simp add: NCDecodeSegment_def i validator_callbacks_def)
  then show ?thesis
    using config_fields [OF l(2)]
    by (auto simp: NCValidateSegment_def Let_def stats_defs ValidatePrintError_def)
qed

lemma NCValidateFinish_total:
  assumes "0 < unat (alignment vs)" and "unat (iadrlimit vs - iadrbase vs) + unat (alignment vs) < 2 ^ 32"
  shows "\<exists>rc vs'. NCValidateFinish (Some vs) = Some (rc, Some vs')"
proof -
  define vs1 where "vs1 = check_targets vs"
  define vs2 where "vs2 = (if iadrbase vs1 AND alignmask vs1 \<noteq> 0 then Stats_BadAlignment (ValidatePrintError vs1) else vs1)"
  have "config vs2 = config vs" by (simp add: vs2_def vs1_def check_targets_ok)
  from config_fields [OF this] obtain vs3 where "boundary_loop 0 vs2 = Some vs3"
    using boundary_loop_ok [of vs2 0] assms by auto
  then show ?thesis by (simp add: NCValidateFinish_def Let_def vs1_def [symmetric] vs2_def [symmetric])
qed

end
