(* ===== verification/Sel_Validate.thy ===== *)
theory Sel_Validate
  imports Ncvalidate Elf_Util
begin

text \<open>
  \<open>service_runtime/sel_validate_image.c\<close>, x86-32 build: the loader's calls into the validator. The two
  passes of stub-out mode, the code replacement check, and the validation of the loaded image.
\<close>

section \<open>The entry points\<close>

text \<open>
  One run of the validator over the bytes at \<open>data\<close>: \<open>None\<close> as the result of a failed
  \<open>NCValidateInit\<close>. A freshly initialised state is not in stub-out mode, so the call of
  \<open>NCValidateSetStubOutMode\<close> that only the first pass makes is harmless in the second.
\<close>

definition validate_pass ::
    "valid_env \<Rightarrow> DecodeTables \<Rightarrow> NCDecoderState list \<Rightarrow> u8 \<Rightarrow> bool \<Rightarrow> uintptr_t \<Rightarrow> uintptr_t \<Rightarrow> size_t \<Rightarrow> memory
      \<Rightarrow> (memory \<times> int option) res option" where
  "validate_pass env dt stack align stub guest_addr data sz m =
     (case NCValidateInit env guest_addr (guest_addr + sz) align of
        None \<Rightarrow> Some (Inr (m, None))
      | Some vs0 \<Rightarrow>
        (case NCValidateSegment env dt stack data guest_addr sz m (NCValidateSetStubOutMode vs0 stub) of
           None \<Rightarrow> None
         | Some (Inl e) \<Rightarrow> Some (Inl e)
         | Some (Inr (m', vs)) \<Rightarrow>
             (case NCValidateFinish (Some vs) of None \<Rightarrow> None | Some (rc, _) \<Rightarrow> Some (Inr (m', Some rc)))))"

text \<open>Continue with the result of a computation that may not end or may abort.\<close>

fun bind_run :: "'a res option \<Rightarrow> ('a \<Rightarrow> 'b res option) \<Rightarrow> 'b res option" where
  "bind_run None f = None"
| "bind_run (Some (Inl e)) f = Some (Inl e)"
| "bind_run (Some (Inr x)) f = f x"

definition final_pass ::
    "valid_env \<Rightarrow> DecodeTables \<Rightarrow> NCDecoderState list \<Rightarrow> NaClApp \<Rightarrow> uintptr_t \<Rightarrow> uintptr_t \<Rightarrow> size_t \<Rightarrow> memory
      \<Rightarrow> (NaClErrorCode \<times> memory) res option" where
  "final_pass env dt stack nap guest_addr data sz m =
     bind_run (validate_pass env dt stack (ucast (bundle_size nap)) False guest_addr data sz m) (\<lambda>(m', r).
       Some (Inr (case r of None \<Rightarrow> LOAD_BAD_FILE
                  | Some rc \<Rightarrow> if rc \<noteq> 0 then LOAD_VALIDATION_FAILED else LOAD_OK, m')))"

definition NaClValidateCode ::
    "valid_env \<Rightarrow> DecodeTables \<Rightarrow> (nat \<Rightarrow> NCDecoderState list) \<Rightarrow> NaClApp \<Rightarrow> uintptr_t \<Rightarrow> uintptr_t \<Rightarrow> size_t \<Rightarrow> memory
      \<Rightarrow> (NaClErrorCode \<times> memory) res option" where
  "NaClValidateCode env dt stack nap guest_addr data sz m =
     (if validator_stub_out_mode nap then
        bind_run (validate_pass env dt (stack 0) (ucast (bundle_size nap)) True guest_addr data sz m) (\<lambda>(m', r).
          case r of None \<Rightarrow> Some (Inr (LOAD_BAD_FILE, m'))
          | Some _ \<Rightarrow> final_pass (env\<lparr>stats_inited := True\<rparr>) dt (stack 1) nap guest_addr data sz m')
      else final_pass env dt (stack 1) nap guest_addr data sz m)"

definition NaClValidateCodeReplacement ::
    "valid_env \<Rightarrow> DecodeTables \<Rightarrow> (nat \<Rightarrow> NCDecoderState list) \<Rightarrow> NaClApp \<Rightarrow> uintptr_t \<Rightarrow> uintptr_t \<Rightarrow> uintptr_t \<Rightarrow> size_t
      \<Rightarrow> memory \<Rightarrow> (NaClErrorCode \<times> memory) res option" where
  "NaClValidateCodeReplacement env dt stack nap guest_addr data_old data_new sz m =
     (if validator_stub_out_mode nap then Some (Inr (LOAD_BAD_FILE, m))
      else case NCValidateInit env guest_addr (guest_addr + sz) (ucast (bundle_size nap)) of
        None \<Rightarrow> Some (Inr (LOAD_BAD_FILE, m))
      | Some vs0 \<Rightarrow>
        bind_run (NCValidateSegmentPair env dt (stack 0) (stack 1) data_old data_new guest_addr sz m vs0) (\<lambda>(m', vs).
          case NCValidateFinish (Some vs) of None \<Rightarrow> None
          | Some (rc, _) \<Rightarrow> Some (Inr (if rc \<noteq> 0 then LOAD_VALIDATION_FAILED else LOAD_OK, m'))))"

definition NaClValidateImage ::
    "valid_env \<Rightarrow> DecodeTables \<Rightarrow> (nat \<Rightarrow> NCDecoderState list) \<Rightarrow> NaClApp \<Rightarrow> (NaClErrorCode \<times> NaClApp) res option" where
  "NaClValidateImage env dt stack nap =
     (let memp = mem_start nap + NACL_TRAMPOLINE_END;
          endp = mem_start nap + static_text_end nap;
          regionsize = endp - memp in
      if endp < memp then Some (Inr (LOAD_NO_MEMORY, nap))
      else
        bind_run (NaClValidateCode env dt stack nap NACL_TRAMPOLINE_END memp regionsize (app_mem nap)) (\<lambda>(rcode, m').
          Some (Inr (if rcode \<noteq> LOAD_OK then
                       (if ignore_validator_result nap then LOAD_OK else LOAD_VALIDATION_FAILED)
                     else rcode, nap\<lparr>app_mem := m'\<rparr>))))"

section \<open>What they guarantee\<close>

lemma bind_run_Inr:
  "bind_run r f = Some (Inr y) \<longleftrightarrow> (\<exists>x. r = Some (Inr x) \<and> f x = Some (Inr y))"
  by (cases "(r, f)" rule: bind_run.cases) auto

lemma validate_pass_sound:
  assumes "validate_pass env dt stack align stub guest data sz m = Some (Inr (m', Some 0))" and "length stack = 4"
    and "unat guest + unat sz + 32 < 2 ^ 32"
  shows "\<exists>is. sandboxed dt (ucast align - 1) m data guest sz is \<and> m' = squashed_mem (cpu env) m is"
proof -
  obtain vs0 where i: "NCValidateInit env guest (guest + sz) align = Some vs0"
    using assms(1) by (auto simp: validate_pass_def split: option.splits)
  obtain vs where s: "NCValidateSegment env dt stack data guest sz m (NCValidateSetStubOutMode vs0 stub) = Some (Inr (m', vs))"
    and f: "\<exists>r. NCValidateFinish (Some vs) = Some (0, r)"
    using assms(1) i by (auto simp: validate_pass_def split: option.splits sum.splits prod.splits)
  then obtain r where "NCValidateFinish (Some vs) = Some (0, r)" by blast
  from validated_code [OF i assms(2,3) s this] show ?thesis .
qed

lemma validate_pass_total:
  assumes "tables_typed dt" and "length stack = 4" and "unat guest + unat sz + 32 < 2 ^ 32"
  shows "\<exists>m' r. validate_pass env dt stack align stub guest data sz m = Some (Inr (m', r))"
proof (cases "NCValidateInit env guest (guest + sz) align")
  case None
  then show ?thesis by (simp add: validate_pass_def)
next
  case (Some vs0)
  note st = NCValidateInit_state [OF Some]
  let ?vs = "NCValidateSetStubOutMode vs0 stub"
  have b: "unat guest + unat sz + 19 < 2 ^ 32" using assms(3) by simp
  from NCValidateSegment_total [OF assms(1,2) b, of env data m ?vs] obtain m' vs
    where s: "NCValidateSegment env dt stack data guest sz m ?vs = Some (Inr (m', vs))"
      and c: "iadrbase vs = guest" "iadrlimit vs = guest + sz" "alignment vs = align"
    using st(1-3) by (auto simp: NCValidateSetStubOutMode_def)
  have "0 < unat (alignment vs)" "unat (iadrlimit vs - iadrbase vs) + unat (alignment vs) < 2 ^ 32"
    using c st(10) assms(3) by auto
  from NCValidateFinish_total [OF this] obtain rc vs' where "NCValidateFinish (Some vs) = Some (rc, Some vs')" by blast
  then show ?thesis using Some s by (simp add: validate_pass_def)
qed

lemma final_pass_total:
  assumes "tables_typed dt" and "length stack = 4" and "unat guest + unat sz + 32 < 2 ^ 32"
  shows "\<exists>rc m'. final_pass env dt stack nap guest data sz m = Some (Inr (rc, m')) \<and>
           rc \<in> {LOAD_OK, LOAD_BAD_FILE, LOAD_VALIDATION_FAILED}"
proof -
  obtain m' r where "validate_pass env dt stack (ucast (bundle_size nap)) False guest data sz m = Some (Inr (m', r))"
    using validate_pass_total [OF assms, of env "ucast (bundle_size nap)" False data m] by blast
  then show ?thesis by (simp add: final_pass_def split: option.split)
qed

lemma NaClValidateCode_returns:
  assumes "tables_typed dt" and "\<And>k. length (stack k) = 4" and "unat guest + unat sz + 32 < 2 ^ 32"
  shows "\<exists>rc m'. NaClValidateCode env dt stack nap guest data sz m = Some (Inr (rc, m')) \<and>
           rc \<in> {LOAD_OK, LOAD_BAD_FILE, LOAD_VALIDATION_FAILED}"
proof (cases "validator_stub_out_mode nap")
  case False
  then show ?thesis using final_pass_total [OF assms(1,2,3), of env 1 nap data m] by (simp add: NaClValidateCode_def)
next
  case True
  obtain m1 r where p: "validate_pass env dt (stack 0) (ucast (bundle_size nap)) True guest data sz m = Some (Inr (m1, r))"
    using validate_pass_total [OF assms(1,2,3), of env 0 "ucast (bundle_size nap)" True data m] by blast
  show ?thesis
    using True p final_pass_total [OF assms(1,2,3), of "env\<lparr>stats_inited := True\<rparr>" 1 nap data m1]
    by (cases r) (simp_all add: NaClValidateCode_def)
qed

text \<open>C4: \<open>NaClValidateCode\<close> always returns, in one pass or in the two passes of stub-out mode, and only
  with one of its three documented results, for every input whose addresses leave 32 bytes below the
  top of the address space and every table whose entries name an immediate type: neither decoding loop
  can run forever and no assertion fails.\<close>

theorem NaClValidateCode_total:
  assumes "tables_typed dt" and "\<And>k. length (stack k) = 4" and "unat guest + unat sz + 32 < 2 ^ 32"
  shows "\<exists>rc m'. NaClValidateCode env dt stack nap guest data sz m = Some (Inr (rc, m')) \<and>
           rc \<in> {LOAD_OK, LOAD_BAD_FILE, LOAD_VALIDATION_FAILED}"
  using assms by (rule NaClValidateCode_returns)

lemma sample_tables_typed: "tables_typed sample_tables"
  by (simp add: tables_typed_def sample_tables_def sample_1byte_def illegal_ops_def op_entry_def)

theorem NaClValidateCode_total_witness:
  "\<exists>rc m'. NaClValidateCode sample_env sample_tables (\<lambda>_. replicate 4 blank_state) sample_app 0x20000 0x1000 5 nacljmp_mem
     = Some (Inr (rc, m')) \<and> rc \<in> {LOAD_OK, LOAD_BAD_FILE, LOAD_VALIDATION_FAILED}"
  by (rule NaClValidateCode_total [OF sample_tables_typed]) simp_all

lemma bundle_size_byte:
  assumes "b < 256"
  shows "(ucast (ucast (b :: u32) :: u8) :: u32) = b"
proof (rule word_unat_eq_iff [THEN iffD2])
  have "unat b < 256" using assms by (simp add: word_less_nat_alt)
  then show "unat (ucast (ucast b :: u8) :: u32) = unat b"
    by (simp add: unsigned_ucast_eq [of "ucast b :: u8"]) (simp add: unsigned_ucast_eq take_bit_nat_eq_self)
qed

lemma final_pass_sound:
  assumes "final_pass env dt stack nap guest data sz m = Some (Inr (LOAD_OK, m'))" and "length stack = 4"
    and "unat guest + unat sz + 32 < 2 ^ 32" and "bundle_size nap < 256"
  shows "\<exists>is. sandboxed dt (bundle_size nap - 1) m data guest sz is \<and> m' = squashed_mem (cpu env) m is"
proof -
  have "validate_pass env dt stack (ucast (bundle_size nap)) False guest data sz m = Some (Inr (m', Some 0))"
    using assms(1) by (auto simp: final_pass_def bind_run_Inr split: option.splits if_splits)
  moreover note bundle_size_byte [OF assms(4)]
  ultimately show ?thesis using validate_pass_sound [OF _ assms(2,3)] by fastforce
qed

text \<open>C3: Unless the validator result is ignored (\<open>sel_ldr -c\<close>), when \<open>NaClValidateImage\<close> reports
  success there is a memory image \<open>m\<close>, the loaded one or in stub-out mode the one its first pass made of
  it, whose static text is sandboxed code for the application's bundle size, and what is left in memory is
  that code with every instruction the processor does not support overwritten by halts: each other
  instruction has its own bytes, and no byte outside the text differs from \<open>m\<close>.\<close>

theorem NaClValidateImage_sandboxed:
  assumes "NaClValidateImage env dt stack nap = Some (Inr (LOAD_OK, nap'))" and "\<not> ignore_validator_result nap"
    and "\<And>k. length (stack k) = 4" and "unat (static_text_end nap) + 32 < 2 ^ 32" and "NACL_TRAMPOLINE_END \<le> static_text_end nap"
    and "bundle_size nap < 256"
  shows "\<exists>m is. sandboxed dt (bundle_size nap - 1) m (mem_start nap + NACL_TRAMPOLINE_END) NACL_TRAMPOLINE_END
             (static_text_end nap - NACL_TRAMPOLINE_END) is \<and>
           nap' = nap\<lparr>app_mem := squashed_mem (cpu env) m is\<rparr> \<and> (\<not> validator_stub_out_mode nap \<longrightarrow> m = app_mem nap) \<and>
           (validator_stub_out_mode nap \<longrightarrow> (\<exists>rc. validate_pass env dt (stack 0) (ucast (bundle_size nap)) True NACL_TRAMPOLINE_END
              (mem_start nap + NACL_TRAMPOLINE_END) (static_text_end nap - NACL_TRAMPOLINE_END) (app_mem nap) = Some (Inr (m, Some rc)))) \<and>
           (\<forall>i \<in> set is. \<forall>k < unat (inst_length (inst i)). app_mem nap' (maddr (inst i) + of_nat k) =
              (if unsupported (cpu env) m i then kNaClFullStop else m (maddr (inst i) + of_nat k))) \<and>
           (\<forall>x. static_text_end nap - NACL_TRAMPOLINE_END \<le> x - (mem_start nap + NACL_TRAMPOLINE_END) \<longrightarrow> app_mem nap' x = m x)"
proof -
  let ?data = "mem_start nap + NACL_TRAMPOLINE_END" and ?sz = "static_text_end nap - NACL_TRAMPOLINE_END"
  have sz: "mem_start nap + static_text_end nap - ?data = ?sz" by (simp add: algebra_simps)
  obtain m' where v: "NaClValidateCode env dt stack nap NACL_TRAMPOLINE_END ?data ?sz (app_mem nap) = Some (Inr (LOAD_OK, m'))"
    and n: "nap' = nap\<lparr>app_mem := m'\<rparr>"
    using assms(1,2) sz by (auto simp: NaClValidateImage_def Let_def bind_run_Inr split: if_splits)
  have "unat ?sz = unat (static_text_end nap) - unat NACL_TRAMPOLINE_END"
    using assms(5) by (rule unat_sub)
  then have b: "unat NACL_TRAMPOLINE_END + unat ?sz + 32 < 2 ^ 32"
    using assms(4,5) by (simp add: word_le_nat_alt)
  obtain m env' where f: "final_pass env' dt (stack 1) nap NACL_TRAMPOLINE_END ?data ?sz m = Some (Inr (LOAD_OK, m'))"
    "cpu env' = cpu env" "\<not> validator_stub_out_mode nap \<longrightarrow> m = app_mem nap"
    "validator_stub_out_mode nap \<longrightarrow> (\<exists>rc. validate_pass env dt (stack 0) (ucast (bundle_size nap)) True NACL_TRAMPOLINE_END
       ?data ?sz (app_mem nap) = Some (Inr (m, Some rc)))"
  proof (cases "validator_stub_out_mode nap")
    case True
    then show ?thesis using v that by (auto simp: NaClValidateCode_def bind_run_Inr split: option.splits)
  next
    case False
    then show ?thesis using v that [of env "app_mem nap"] by (simp add: NaClValidateCode_def)
  qed
  from final_pass_sound [OF f(1) assms(3) b assms(6)] obtain "is" where
    sb: "sandboxed dt (bundle_size nap - 1) m ?data NACL_TRAMPOLINE_END ?sz is" and m': "m' = squashed_mem (cpu env) m is"
    unfolding f(2) by blast
  have "code_len is < 2 ^ 32" and ch: "code_chain ?data NACL_TRAMPOLINE_END is (?data + ?sz) (NACL_TRAMPOLINE_END + ?sz)"
    using sb unat_lt_size_t [of ?sz] by (simp_all add: sandboxed_def)
  note left = squashed_mem_inst [OF ch this(1)] squashed_mem_outside [OF sb]
  show ?thesis
    using sb f(3,4) left by (intro exI [of _ m] exI [of _ "is"]) (simp add: n m' not_less)
qed

definition nacljmp_app :: NaClApp where
  "nacljmp_app = sample_app\<lparr>static_text_end := 0x20005,
     app_mem := mem_write (\<lambda>_. 0xf4) 0x40020000 [0x83, 0xe0, 0xe0, 0xff, 0xe0]\<rparr>"

lemma nacljmp_app_validates:
  "case NaClValidateImage sample_env sample_tables (\<lambda>_. replicate 4 blank_state) nacljmp_app of
     Some (Inr (rc, nap')) \<Rightarrow> rc = LOAD_OK | _ \<Rightarrow> False"
  by code_simp

theorem NaClValidateImage_sandboxed_witness:
  "\<exists>m is. sandboxed sample_tables 31 m 0x40020000 0x20000 5 is \<and> m = app_mem nacljmp_app"
proof -
  obtain nap' where "NaClValidateImage sample_env sample_tables (\<lambda>_. replicate 4 blank_state) nacljmp_app = Some (Inr (LOAD_OK, nap'))"
    using nacljmp_app_validates by (auto split: option.splits sum.splits prod.splits)
  from NaClValidateImage_sandboxed [OF this] show ?thesis
    by (auto simp: nacljmp_app_def sample_app_def)
qed

end
