(* ===== verification/Code_Replace.thy ===== *)
theory Code_Replace
  imports Sel_Validate
begin

text \<open>
  Replacing validated code in place: the soundness of the pairwise validation of
  \<open>ncvalidate.c\<close> as \<open>NaClValidateCodeReplacement\<close> runs it.
\<close>

section \<open>Validating a replacement\<close>

text \<open>
  What the pairwise check establishes of the old and the new instructions at the same position: an
  indirect jump of the new code is byte for byte the old one, mask included, and an indirect jump of
  the old code is kept unless the processor does not support its replacement.
\<close>

definition jumps_same :: "CPUFeatures \<Rightarrow> memory \<Rightarrow> NCDecoderState list \<Rightarrow> NCDecoderState list \<Rightarrow> bool" where
  "jumps_same c m old new \<longleftrightarrow>
     (\<forall>k < length new.
        (inst_type (new ! k) = NACLi_INDIRECT \<longrightarrow>
           0 < k \<and> indirect5_same m (inst (old ! (k - 1))) (inst (new ! (k - 1))) (inst (old ! k)) (inst (new ! k))) \<and>
        (inst_type (old ! k) = NACLi_INDIRECT \<longrightarrow>
           unsupported c m (new ! k) \<or>
           inst_length (inst (old ! k)) = 2 \<and> inst_length (inst (new ! k)) = 2 \<and>
           mem_read m (maddr (inst (old ! k))) 2 = mem_read m (maddr (inst (new ! k))) 2))"

definition replaces ::
    "DecodeTables \<Rightarrow> memory \<Rightarrow> uintptr_t \<Rightarrow> NaClPcAddress \<Rightarrow> NaClMemorySize \<Rightarrow> NCDecoderState list \<Rightarrow> NCDecoderState list \<Rightarrow> bool" where
  "replaces dt m data_old vbase sz old new \<longleftrightarrow>
     code_chain data_old vbase old (data_old + sz) (vbase + sz) \<and> (\<forall>i \<in> set old. decodes_to dt m i) \<and>
     map (\<lambda>i. inst_length (inst i)) old = map (\<lambda>i. inst_length (inst i)) new"

lemma ValidateInstReplacement_ok:
  assumes "ValidateInstReplacement dbo curo dbn curn (m, vs) = Inr (m3, vs3)" and "\<not> failed vs3"
  shows "ValidateInst dbn curn (m, vs) = Inr (m3, vs3)"
    and "inst_length (inst (dbo ! curo)) = inst_length (inst (dbn ! curn))"
    and "inst_type (dbo ! curo) = NACLi_INDIRECT \<or> inst_type (dbn ! curn) = NACLi_INDIRECT \<Longrightarrow>
         indirect5_same m3 (inst (dbo ! PreviousInst dbo (dbo ! curo) (- 1)))
           (inst (dbn ! PreviousInst dbn (dbn ! curn) (- 1))) (inst (dbo ! curo)) (inst (dbn ! curn))"
proof -
  let ?mo = "dbo ! curo" and ?mn = "dbn ! curn"
  obtain s1 where s1: "ValidateInst dbn curn (m, vs) = Inr s1"
    using assms(1) by (auto simp: ValidateInstReplacement_def Let_def bind_res_Inr_iff)
  obtain op_old op_new where op: "opinfo ?mo = Some op_old" "opinfo ?mn = Some op_new"
    using assms(1) by (auto simp: ValidateInstReplacement_def Let_def bind_res_Inr_iff split: option.splits)
  define s2 where "s2 = (if inst_length (inst ?mo) \<noteq> inst_length (inst ?mn) \<or> vpc ?mo \<noteq> vpc ?mn
      then apsnd Stats_BadInstLength (BadInstructionError ?mn s1) else s1)"
  have r: "(m3, vs3) = (if insttype op_old = NACLi_INDIRECT \<or> insttype op_new = NACLi_INDIRECT
      then ValidateIndirect5Replacement dbo ?mo dbn ?mn s2 else s2)"
    using assms(1) s1 op by (auto simp: ValidateInstReplacement_def Let_def s2_def)
  have "failed (snd (ValidateIndirect5Replacement dbo ?mo dbn ?mn s2))" if "failed (snd s2)"
    using that by (simp add: ValidateIndirect5Replacement_def)
  then have nf: "\<not> failed (snd s2)" using r assms(2) by (metis snd_conv)
  then have e: "inst_length (inst ?mo) = inst_length (inst ?mn)" "s2 = s1" by (auto simp: s2_def split: if_splits)
  show "inst_length (inst ?mo) = inst_length (inst ?mn)" by (fact e(1))
  have same: "(m3, vs3) = s2 \<and> indirect5_same (fst s2) (inst (dbo ! PreviousInst dbo ?mo (- 1)))
      (inst (dbn ! PreviousInst dbn ?mn (- 1))) (inst ?mo) (inst ?mn)"
    if "insttype op_old = NACLi_INDIRECT \<or> insttype op_new = NACLi_INDIRECT"
  proof (rule ccontr)
    assume "\<not> ?thesis"
    then have "failed (snd (ValidateIndirect5Replacement dbo ?mo dbn ?mn s2))"
      using r that by (auto simp: ValidateIndirect5Replacement_def split: if_splits)
    then show False using r that assms(2) by (metis snd_conv)
  qed
  then have "(m3, vs3) = s2" using r by (auto split: if_splits)
  then show "ValidateInst dbn curn (m, vs) = Inr (m3, vs3)" using s1 e(2) by simp
  show "inst_type ?mo = NACLi_INDIRECT \<or> inst_type ?mn = NACLi_INDIRECT \<Longrightarrow>
      indirect5_same m3 (inst (dbo ! PreviousInst dbo ?mo (- 1))) (inst (dbn ! PreviousInst dbn ?mn (- 1))) (inst ?mo) (inst ?mn)"
    using same op by (metis fst_conv inst_type_def option.simps(5))
qed

text \<open>The validator never touches the old code while it checks the new one, when they are apart.\<close>

definition apart :: "uintptr_t \<Rightarrow> uintptr_t \<Rightarrow> nat \<Rightarrow> bool" where
  "apart a b n \<longleftrightarrow> (\<forall>j < n + 20. \<forall>k < n. a + of_nat j \<noteq> b + of_nat k)"

lemma squashed_mem_apart:
  assumes "code_chain b p is b' p'" and "code_len is \<le> n" and "apart a b n" and "j < n + 20"
  shows "squashed_mem c m is (a + of_nat j) = m (a + of_nat j)"
proof -
  have "\<not> unat (a + of_nat j - maddr (inst i)) < unat (inst_length (inst i))" if i: "i \<in> set is" for i
  proof
    assume lt: "unat (a + of_nat j - maddr (inst i)) < unat (inst_length (inst i))"
    obtain k where k: "lies_in b p (code_len is) i k" using code_chain_offsets [OF assms(1) i] ..
    let ?d = "unat (a + of_nat j - maddr (inst i))"
    have "a + of_nat j = maddr (inst i) + of_nat ?d" by simp
    then have "a + of_nat j = b + of_nat (k + ?d)" using k by (simp add: lies_in_def add.assoc)
    moreover have "k + ?d < n" using k lt assms(2) by (simp add: lies_in_def)
    ultimately show False using assms(3,4) unfolding apart_def by blast
  qed
  then show ?thesis by (auto simp: squashed_mem_def list_ex_iff)
qed
definition pinv ::
    "DecodeTables \<Rightarrow> CPUFeatures \<Rightarrow> u32 \<Rightarrow> memory \<Rightarrow> uintptr_t \<Rightarrow> uintptr_t \<Rightarrow> NaClPcAddress \<Rightarrow> NaClPcAddress
      \<Rightarrow> NCDecoderState list \<Rightarrow> NCDecoderState list \<Rightarrow> NCDecoderState list \<Rightarrow> nat \<Rightarrow> NCDecoderState list \<Rightarrow> nat \<Rightarrow> memory
      \<Rightarrow> vstate \<Rightarrow> bool" where
  "pinv dt c amask m mo mn vbase vlimit old new dbo curo dbn curn mk vs \<longleftrightarrow>
     vinv dt c amask m mn vbase vlimit new dbn curn mk vs \<and>
     code_chain mo vbase old (mpc (dbo ! curo)) (vpc (dbo ! curo)) \<and> vpc (dbo ! curo) = vpc (dbn ! curn) \<and>
     (\<forall>i \<in> set old. decodes_to dt m i) \<and>
     map (\<lambda>i. inst_length (inst i)) old = map (\<lambda>i. inst_length (inst i)) new \<and> jumps_same c m old new \<and>
     (if old = [] then inst_length (inst (dbo ! PreviousInst dbo (dbo ! curo) (- 1))) = 0
      else inst (dbo ! PreviousInst dbo (dbo ! curo) (- 1)) = inst (last old))"

lemma jumps_same_snoc:
  assumes "length old = length new"
  shows "jumps_same c m (old @ [a]) (new @ [b]) \<longleftrightarrow> jumps_same c m old new \<and>
     (inst_type b = NACLi_INDIRECT \<longrightarrow> new \<noteq> [] \<and> indirect5_same m (inst (last old)) (inst (last new)) (inst a) (inst b)) \<and>
     (inst_type a = NACLi_INDIRECT \<longrightarrow> unsupported c m b \<or> inst_length (inst a) = 2 \<and> inst_length (inst b) = 2 \<and>
        mem_read m (maddr (inst a)) 2 = mem_read m (maddr (inst b)) 2)"
proof -
  define P where "P xs ys k \<longleftrightarrow>
     (inst_type (ys ! k) = NACLi_INDIRECT \<longrightarrow>
        0 < k \<and> indirect5_same m (inst (xs ! (k - 1))) (inst (ys ! (k - 1))) (inst (xs ! k)) (inst (ys ! k))) \<and>
     (inst_type (xs ! k) = NACLi_INDIRECT \<longrightarrow> unsupported c m (ys ! k) \<or>
        inst_length (inst (xs ! k)) = 2 \<and> inst_length (inst (ys ! k)) = 2 \<and>
        mem_read m (maddr (inst (xs ! k))) 2 = mem_read m (maddr (inst (ys ! k))) 2)" for xs ys k
  have js: "jumps_same c m xs ys \<longleftrightarrow> (\<forall>k < length ys. P xs ys k)" for xs ys
    by (simp only: jumps_same_def P_def)
  have old: "P (old @ [a]) (new @ [b]) k = P old new k" if "k < length new" for k
  proof -
    have "k - 1 < length new" "k - 1 < length old" "k < length old" using that assms by linarith+
    then show ?thesis using that by (simp add: P_def nth_append)
  qed
  have "(new @ [b]) ! (length new - 1) = last new" "(old @ [a]) ! (length new - 1) = last old" if "new \<noteq> []"
  proof -
    have "old \<noteq> []" using that assms by auto
    then show "(new @ [b]) ! (length new - 1) = last new" "(old @ [a]) ! (length new - 1) = last old"
      using that by (simp_all add: nth_append last_conv_nth assms [symmetric])
  qed
  then have "P (old @ [a]) (new @ [b]) (length new) \<longleftrightarrow>
      (inst_type b = NACLi_INDIRECT \<longrightarrow> new \<noteq> [] \<and> indirect5_same m (inst (last old)) (inst (last new)) (inst a) (inst b)) \<and>
     (inst_type a = NACLi_INDIRECT \<longrightarrow> unsupported c m b \<or> inst_length (inst a) = 2 \<and> inst_length (inst b) = 2 \<and>
        mem_read m (maddr (inst a)) 2 = mem_read m (maddr (inst b)) 2)"
    using nth_append_length [of old a "[]"] assms by (cases "new = []") (simp_all add: P_def)
  moreover have "(\<forall>k < length (new @ [b]). P (old @ [a]) (new @ [b]) k) \<longleftrightarrow>
      (\<forall>k < length new. P old new k) \<and> P (old @ [a]) (new @ [b]) (length new)"
    using old by (auto simp: less_Suc_eq)
  ultimately show ?thesis unfolding js by blast
qed

lemma mem_read_cong:
  "(\<And>k. k < n \<Longrightarrow> m (a + of_nat k) = m' (a + of_nat k)) \<Longrightarrow> mem_read m a n = mem_read m' a n"
  by (simp add: mem_read_def)

lemma indirect5_bytes:
  assumes "indirect5_ok m ji ai amask"
  shows "mem_read m (maddr ai) 3 = [0x83, 0xe0 OR modrm_rm (m (maddr ji + 1)), m (maddr ai + 2)]"
  using assms by (simp add: indirect5_ok_def Let_def mem_read_def upt_rec)

lemma pair_round_ok:
  assumes rn: "ring_at dbn curn"
    and round: "pair_round validator_callbacks dt ValidateInstReplacement vlimit dbo curo dbn curn mk vs
                  io v1 jn v2 dbo2 curo2 dbn2 curn2 mk3 vs3"
    and ok: "\<not> failed vs3"
  shows "v1 = vs" "v2 = vs" "\<not> failed vs" "config vs3 = config vs"
proof -
  obtain newpc where co: "ConsumeNextInstruction validator_callbacks dt mk (dbo ! curo) vs = Inr (newpc, io, v1)"
    and cn: "ConsumeNextInstruction validator_callbacks dt mk (dbn ! curn) v1 = Inr (newpc, jn, v2)"
    and act: "ValidateInstReplacement (dbo[curo := io]) curo (dbn[curn := jn]) curn (mk, v2) = Inr (mk3, vs3)"
    using round by (auto simp: pair_round_def)
  note V = ValidateInst_ok(1,2) [OF ValidateInstReplacement_ok(1) [OF act ok] ok]
  have e2: "v2 = v1" by (rule consume_keeps_state [OF cn V(1)])
  then have e1: "v1 = vs" using consume_keeps_state [OF co] V(1) by simp
  show "v1 = vs" "v2 = vs" "\<not> failed vs" "config vs3 = config vs" using V e1 e2 by simp_all
qed

lemma ucast_byte_inject: "(ucast (a :: u8) :: u32) = ucast b \<Longrightarrow> a = b"
proof -
  assume e: "(ucast a :: u32) = ucast b"
  have "unat (ucast w :: u32) = unat w" for w :: u8
    by (simp add: unsigned_ucast_eq take_bit_nat_eq_self unsigned_less [THEN less_le_trans])
  then have "unat a = unat b" using arg_cong [OF e, of unat] by simp
  then show ?thesis by (simp only: word_unat_eq_iff)
qed

lemma code_len_eq:
  assumes "map (\<lambda>i. inst_length (inst i)) old = map (\<lambda>i. inst_length (inst i)) new"
  shows "code_len old = code_len new"
proof -
  have "map unat (map (\<lambda>i. inst_length (inst i)) old) = map unat (map (\<lambda>i. inst_length (inst i)) new)"
    by (simp only: assms)
  then show ?thesis by (simp add: code_len_def comp_def)
qed

lemma masked_jump_same:
  assumes okm: "indirect5_ok m jn nprev amask" and okk: "indirect5_ok mk jn nprev amask"
    and s: "indirect5_same mk oprev nprev io jn" and jb: "mk (maddr jn + 1) = m (maddr jn + 1)"
    and ob: "mem_read mk (maddr oprev) 3 = mem_read m (maddr oprev) 3"
    and jmp: "mem_read m (maddr io) 2 = mem_read m (maddr jn) 2"
  shows "indirect5_same m oprev nprev io jn"
proof -
  have "(ucast (mk (maddr nprev + 2)) :: u32) = ucast (m (maddr nprev + 2))"
    using okm okk by (simp add: indirect5_ok_def Let_def)
  then have "mk (maddr nprev + 2) = m (maddr nprev + 2)" by (rule ucast_byte_inject)
  then have "mem_read mk (maddr nprev) 3 = mem_read m (maddr nprev) 3"
    using indirect5_bytes [OF okm] indirect5_bytes [OF okk] jb by simp
  then show ?thesis using s ob jmp by (simp add: indirect5_same_def)
qed

text \<open>The old code reads as in the original memory while the new code is being overwritten.\<close>

lemma old_bytes_kept:
  assumes "code_chain b p new b' p'" and "code_len new \<le> n" and "apart a b n"
    and "code_chain a q old a' q'" and "code_len old \<le> n" and "i \<in> set old" and "t \<le> 20"
  shows "mem_read (squashed_mem c m new) (maddr (inst i)) t = mem_read m (maddr (inst i)) t"
proof (rule mem_read_cong)
  fix d :: nat assume d: "d < t"
  obtain k where k: "lies_in a q (code_len old) i k" using code_chain_offsets [OF assms(4,6)] ..
  have "k + d < n + 20" using k d assms(5,7) by (simp add: lies_in_def)
  from squashed_mem_apart [OF assms(1-3) this, of c m] k
  show "squashed_mem c m new (maddr (inst i) + of_nat d) = m (maddr (inst i) + of_nat d)"
    by (simp add: lies_in_def add.assoc)
qed

lemma pinv_step:
  assumes ro: "ring_at dbo curo" and rn: "ring_at dbn curn" and lim: "unat vlimit + 20 < 2 ^ 32"
    and mask: "amask = 15 \<or> amask = 31" and ap: "apart mo mn (unat vlimit - unat vbase)"
    and round: "pair_round validator_callbacks dt ValidateInstReplacement vlimit dbo curo dbn curn mk vs
                  io v1 jn v2 dbo2 curo2 dbn2 curn2 mk3 vs3"
    and ok: "\<not> failed vs3"
    and inv: "pinv dt c amask m mo mn vbase vlimit old new dbo curo dbn curn mk vs"
  shows "pinv dt c amask m mo mn vbase vlimit (old @ [io]) (new @ [jn]) dbo2 curo2 dbn2 curn2 mk3 vs3"
proof -
  have lim': "unat vlimit + 19 < 2 ^ 32" using lim by simp
  note p = pair_round_progress [OF ro rn lim' round]
  have cur: "dbo[curo := io] ! curo = io" "dbn[curn := jn] ! curn = jn"
    using ro rn by (simp_all add: ring_at_def ring_ok_def)
  obtain newpc where co: "ConsumeNextInstruction validator_callbacks dt mk (dbo ! curo) vs = Inr (newpc, io, v1)"
    and cn: "ConsumeNextInstruction validator_callbacks dt mk (dbn ! curn) v1 = Inr (newpc, jn, v2)" and le: "newpc \<le> vlimit"
    and lt: "vpc (dbn ! curn) < vlimit" and incn: "IncrementDecodeBuffer (dbn[curn := jn]) curn = (dbn2, curn2)"
    and act: "ValidateInstReplacement (dbo[curo := io]) curo (dbn[curn := jn]) curn (mk, v2) = Inr (mk3, vs3)"
    using round by (auto simp: pair_round_def)
  note V = ValidateInstReplacement_ok [OF act ok, unfolded cur]
  note R = pair_round_ok [OF rn round ok]
  have e1: "v1 = vs" and e2: "v2 = v1" and nf: "\<not> failed vs" and nf2: "\<not> failed v2" using R by simp_all
  note I = inv [unfolded pinv_def]
  have vi: "vinv dt c amask m mn vbase vlimit new dbn curn mk vs" using I by blast
  note J = vinv_fields [OF vi]
  have "decode_round validator_callbacks dt vlimit dbn curn mk vs jn v2 dbn2 curn2 mk3 vs3"
    using lt cn le V(1) incn e1 by (auto simp: decode_round_def validator_callbacks_def)
  from vinv_step [OF rn this lim mask ok] vi
  have vi2: "vinv dt c amask m mn vbase vlimit (new @ [jn]) dbn2 curn2 mk3 vs3" by blast
  note K = vinv_fields [OF vi2]
  let ?n = "unat vlimit - unat vbase"
  have lens: "code_len new \<le> ?n" "code_len (new @ [jn]) \<le> ?n" using J(2,3) K(2,3) by simp_all
  have leq: "length old = length new" using I by (metis length_map)
  have clen: "code_len old = code_len new" using I code_len_eq by blast
  have chain: "code_chain mo vbase old (mpc (dbo ! curo)) (vpc (dbo ! curo))" using I by blast
  have mpo: "mpc (dbo ! curo) = mo + of_nat (code_len new)" using code_chain_end [OF chain] clen by simp
  text \<open>The old code reads as in the original memory, now and after the check.\<close>
  have oldmem: "mk (mpc (dbo ! curo) + of_nat j) = m (mpc (dbo ! curo) + of_nat j)"
    "mk3 (mpc (dbo ! curo) + of_nat j) = m (mpc (dbo ! curo) + of_nat j)" if "j < 20" for j
    using squashed_mem_apart [OF J(1) lens(1) ap, of "code_len new + j" c m]
      squashed_mem_apart [OF K(1) lens(2) ap, of "code_len new + j" c m] that lens(1) J(15) K(15)
    by (simp_all add: mpo add.assoc)
  have deco: "decodes_to dt m io"
    using validator_decodes [OF _ co _ nf] ro nf2 e1 e2 oldmem(1) by (auto simp: ring_at_def mem_agree_def)
  have same: "indirect5_same mk3 (inst (dbo ! PreviousInst dbo (dbo ! curo) (- 1)))
      (inst (dbn ! PreviousInst dbn (dbn ! curn) (- 1))) (inst io) (inst jn)"
    if "inst_type io = NACLi_INDIRECT \<or> inst_type jn = NACLi_INDIRECT"
    using V(3) that PreviousInst_update [OF ro, of io] PreviousInst_update [OF rn, of jn]
      ConsumeNextInstruction_decoded(2) [OF _ co] ConsumeNextInstruction_decoded(2) [OF _ cn] ro rn
    by (simp add: ring_at_def)
  have wn: "mem_agree mk m (mpc (dbn ! curn)) 20"
    unfolding J(15) using squashed_mem_agree [OF J(1)] J(2,3) lim by simp
  have jaddr: "maddr (inst jn) = mpc (dbn ! curn)" "maddr (inst io) = mpc (dbo ! curo)"
    using p(3,4) by (simp_all add: decoded_at_def)
  have keep: "mk3 = mk" if "\<not> unsupported c m jn" using K(15) J(15) that by (simp add: squashed_mem_snoc)
  have jmp: "mem_read m (maddr (inst io)) 2 = mem_read m (maddr (inst jn)) 2"
    if s: "indirect5_same mk3 ao an (inst io) (inst jn)" and u: "\<not> unsupported c m jn" for ao an
  proof -
    have "mem_read mk3 (maddr (inst io)) 2 = mem_read m (maddr (inst io)) 2"
      by (rule mem_read_cong) (use oldmem(2) jaddr in simp)
    moreover have "mem_read mk3 (maddr (inst jn)) 2 = mem_read m (maddr (inst jn)) 2"
      by (rule mem_read_cong) (use wn keep [OF u] jaddr in \<open>simp add: mem_agree_def\<close>)
    ultimately show ?thesis using s by (simp add: indirect5_same_def)
  qed
  have J1: "unsupported c m jn \<or> inst_length (inst io) = 2 \<and> inst_length (inst jn) = 2 \<and>
      mem_read m (maddr (inst io)) 2 = mem_read m (maddr (inst jn)) 2" if "inst_type io = NACLi_INDIRECT"
    using same jmp that by (auto simp: indirect5_same_def)
  have J2: "new \<noteq> [] \<and> indirect5_same m (inst (last old)) (inst (last new)) (inst io) (inst jn)"
    if ind: "inst_type jn = NACLi_INDIRECT"
  proof -
    have ne: "new \<noteq> []" and okm: "indirect5_ok m (inst jn) (inst (last new)) amask"
      using K(14) ind by (auto simp: jumps_masked_snoc)
    have ne': "old \<noteq> []" using ne leq by auto
    have prevs: "inst (dbo ! PreviousInst dbo (dbo ! curo) (- 1)) = inst (last old)"
      "inst (dbn ! PreviousInst dbn (dbn ! curn) (- 1)) = inst (last new)"
      using I J(16) ne ne' by simp_all
    have u: "\<not> unsupported c m jn" using ind by (simp add: unsupported_def)
    have s: "indirect5_same mk (inst (last old)) (inst (last new)) (inst io) (inst jn)"
      using same ind prevs keep [OF u] by simp
    have okk: "indirect5_ok mk (inst jn) (inst (last new)) amask"
      using ValidateInst_ok(10) [OF V(1) ok, unfolded cur] ind prevs(2) J(9) e1 e2
        PreviousInst_update [OF rn, of jn] ConsumeNextInstruction_decoded(2) [OF _ cn] rn
      by (simp add: ring_at_def)
    have "mem_read mk (maddr (inst (last old))) 3 = mem_read m (maddr (inst (last old))) 3"
      unfolding J(15) using old_bytes_kept [OF J(1) lens(1) ap chain, of "last old" 3] clen lens(1) ne' by simp
    moreover have "mk (maddr (inst jn) + 1) = m (maddr (inst jn) + 1)"
      using mem_agree_at [OF wn, of 1] jaddr by simp
    moreover have "mem_read m (maddr (inst io)) 2 = mem_read m (maddr (inst jn)) 2"
      using jmp [OF _ u] s keep [OF u] by simp
    ultimately show ?thesis using masked_jump_same [OF okm okk s] ne by blast
  qed
  have "code_chain mo vbase (old @ [io]) (mpc (dbo2 ! curo2)) (vpc (dbo2 ! curo2))"
    unfolding code_chain_snoc using chain p(3,7,13) by blast
  moreover have "jumps_same c m (old @ [io]) (new @ [jn])"
    using I J1 J2 by (simp add: jumps_same_snoc [OF leq])
  ultimately show "pinv dt c amask m mo mn vbase vlimit (old @ [io]) (new @ [jn]) dbo2 curo2 dbn2 curn2 mk3 vs3"
    unfolding pinv_def using vi2 p(10,11) deco V(2) I by simp
qed

lemma validated_pair:
  assumes init: "NCValidateInit env vbase (vbase + sz) align = Some vs0"
    and len: "length so = 4" "length sn = 4" and lim: "unat vbase + unat sz + 32 < 2 ^ 32"
    and ap: "apart mo mn (unat sz)"
    and run: "NCValidateSegmentPair env dt so sn mo mn vbase sz m vs0 = Some (Inr (m', vs))" and nf: "\<not> failed vs"
  shows "\<exists>old new dbo curo dbn curn.
           pinv dt (cpu env) (ucast align - 1) m mo mn vbase (vbase + sz) old new dbo curo dbn curn m' vs \<and>
           vpc (dbn ! curn) = vbase + sz \<and> config vs = (cpu env, vbase, vbase + sz, align, ucast align - 1)"
proof -
  define vs1 where "vs1 = vs0\<lparr>cpufeatures := cpu env\<rparr>"
  note st = NCValidateInit_state [OF init]
  let ?amask = "ucast align - 1" and ?lim = "vbase + sz"
  have mask: "?amask = 15 \<or> ?amask = (31 :: u32)" using st(10) by auto
  have ulim: "unat ?lim = unat vbase + unat sz" by (rule unat_add_no_wrap) (use lim in simp)
  have ap': "apart mo mn (unat ?lim - unat vbase)" using ap ulim by simp
  have vs1: "config vs1 = (cpu env, vbase, ?lim, align, ?amask)" "\<not> failed vs1" "segments (stats vs1) = 0"
    using st by (simp_all add: vs1_def config_def failed_def)
  obtain dbo curo where io: "InitDecodeBuffer mo vbase so = (dbo, curo)" by fastforce
  obtain dbn curn where jn: "InitDecodeBuffer mn vbase sn = (dbn, curn)" by fastforce
  note ro = InitDecodeBuffer_ring [OF len(1) io] and rn = InitDecodeBuffer_ring [OF len(2) jn]
  have loop: "decode_pair_loop validator_callbacks dt ValidateInstReplacement ?lim dbo curo dbn curn m (Stats_NewSegment vs1)
      = Some (Inr (m', vs))"
    using run nf io jn
    by (auto simp: NCValidateSegmentPair_def NCDecodeSegmentPair_def validator_callbacks_def Let_def vs1_def split: if_splits)
  let ?P = "\<lambda>dbo curo dbn curn mk vs. \<not> failed vs \<longrightarrow> alignment vs = align \<and>
      (\<exists>old new. pinv dt (cpu env) ?amask m mo mn vbase ?lim old new dbo curo dbn curn mk vs)"
  have v0: "vinv dt (cpu env) ?amask m mn vbase ?lim [] dbn curn m (Stats_NewSegment vs1)"
    by (rule vinv_initial [OF init len(2) lim jn vs1(1) _ _ vs1(3)]) (simp_all add: vs1_def)
  have prev: "PreviousInst dbo (dbo ! curo) (- 1) = 3"
    using PreviousInst_ring(2) [of 0 "dbo ! curo" dbo] ro by (simp add: ring_at_def ring_ok_def)
  have "pinv dt (cpu env) ?amask m mo mn vbase ?lim [] [] dbo curo dbn curn m (Stats_NewSegment vs1)"
    using v0 ro rn prev by (simp add: pinv_def jumps_same_def)
  moreover have "alignment (Stats_NewSegment vs1) = align"
    using vs1(1) NewSegment_ok(2) [OF vs1(3)] by (simp add: config_def)
  ultimately have P0: "?P dbo curo dbn curn m (Stats_NewSegment vs1)" by blast
  have lims: "unat ?lim + 19 < 2 ^ 32" "unat ?lim + 20 < 2 ^ 32" using ulim lim by simp_all
  have step: "?P dbo2 curo2 dbn2 curn2 m3 v3" if r: "ring_at dbo curo" "ring_at dbn curn" and P: "?P dbo curo dbn curn mk v"
    and rd: "pair_round validator_callbacks dt ValidateInstReplacement ?lim dbo curo dbn curn mk v a v1 b v2 dbo2 curo2 dbn2 curn2 m3 v3"
    for dbo curo dbn curn mk v a v1 b v2 dbo2 curo2 dbn2 curn2 m3 v3
  proof
    assume ok: "\<not> failed v3"
    note R = pair_round_ok [OF r(2) rd ok]
    obtain old new where "pinv dt (cpu env) ?amask m mo mn vbase ?lim old new dbo curo dbn curn mk v"
      using P R(3) by blast
    from pinv_step [OF r lims(2) mask ap' rd ok this] P R(3) config_fields(4) [OF R(4)]
    show "alignment v3 = align \<and> (\<exists>old new. pinv dt (cpu env) ?amask m mo mn vbase ?lim old new dbo2 curo2 dbn2 curn2 m3 v3)"
      by auto
  qed
  have "\<exists>dbo curo dbn curn v. ?P dbo curo dbn curn m' v \<and>
      ((\<not> (vpc (dbo ! curo) < ?lim \<and> vpc (dbn ! curn) < ?lim) \<and> vs = v) \<or> (\<exists>w. vs = ErrorSegmentation validator_callbacks w))"
    by (rule decode_pair_loop_invariant [where P = ?P, OF ro(1) rn(1) lims(1) loop P0]) (rule step)
  then obtain dbo' curo' dbn' curn' v where D: "?P dbo' curo' dbn' curn' m' v"
      "(\<not> (vpc (dbo' ! curo') < ?lim \<and> vpc (dbn' ! curn') < ?lim) \<and> vs = v) \<or>
       (\<exists>w. vs = ErrorSegmentation validator_callbacks w)" by blast
  have ex: "\<not> (vpc (dbo' ! curo') < ?lim \<and> vpc (dbn' ! curn') < ?lim)" and e: "vs = v"
    using D(2) nf by (auto simp: ErrorSegmentation_def validator_callbacks_def)
  obtain old new where I: "pinv dt (cpu env) ?amask m mo mn vbase ?lim old new dbo' curo' dbn' curn' m' vs"
    and al: "alignment vs = align" using D(1) e nf by blast
  have vi: "vinv dt (cpu env) ?amask m mn vbase ?lim new dbn' curn' m' vs" and pc: "vpc (dbo' ! curo') = vpc (dbn' ! curn')"
    using I by (simp_all add: pinv_def)
  have "vpc (dbn' ! curn') = ?lim"
    using vinv_fields(3) [OF vi] ex pc by (simp add: word_less_nat_alt word_unat_eq_iff)
  moreover have "config vs = (cpu env, vbase, ?lim, align, ?amask)"
    using vinv_fields(6-9) [OF vi] al by (simp add: config_def)
  ultimately show ?thesis using I by blast
qed

lemma replacement_accepted:
  assumes "NaClValidateCodeReplacement env dt stack nap guest data_old data_new sz m = Some (Inr (LOAD_OK, m'))"
    and "\<And>k. length (stack k) = 4" and "unat guest + unat sz + 32 < 2 ^ 32" and "apart data_old data_new (unat sz)"
    and "bundle_size nap < 256"
  shows "\<exists>old new. sandboxed dt (bundle_size nap - 1) m data_new guest sz new \<and>
           replaces dt m data_old guest sz old new \<and> jumps_same (cpu env) m old new \<and>
           m' = squashed_mem (cpu env) m new"
proof -
  let ?al = "ucast (bundle_size nap) :: u8"
  obtain vs0 where i: "NCValidateInit env guest (guest + sz) ?al = Some vs0"
    using assms(1) by (auto simp: NaClValidateCodeReplacement_def split: if_splits option.splits)
  obtain vs where run: "NCValidateSegmentPair env dt (stack 0) (stack 1) data_old data_new guest sz m vs0 = Some (Inr (m', vs))"
    and f: "\<exists>r. NCValidateFinish (Some vs) = Some (0, r)"
    using assms(1) i
    by (auto simp: NaClValidateCodeReplacement_def bind_run_Inr split: if_splits option.splits prod.splits)
  from f obtain r where fin: "NCValidateFinish (Some vs) = Some (0, r)" by blast
  have nf: "\<not> failed vs" by (rule NCValidateFinish_not_failed [OF fin])
  from validated_pair [OF i assms(2) assms(2) assms(3,4) run nf] obtain old new dbo curo dbn curn
    where P: "pinv dt (cpu env) (ucast ?al - 1) m data_old data_new guest (guest + sz) old new dbo curo dbn curn m' vs"
      and ex: "vpc (dbn ! curn) = guest + sz" and cf: "config vs = (cpu env, guest, guest + sz, ?al, ucast ?al - 1)" by blast
  have vi: "vinv dt (cpu env) (ucast ?al - 1) m data_new guest (guest + sz) new dbn curn m' vs"
    and pc: "vpc (dbo ! curo) = vpc (dbn ! curn)"
    and ch0: "code_chain data_old guest old (mpc (dbo ! curo)) (vpc (dbo ! curo))"
    using P unfolding pinv_def by blast+
  have ch: "code_chain data_old guest old (mpc (dbo ! curo)) (guest + sz)" using ch0 unfolding pc ex .
  have al: "(ucast ?al :: u32) = bundle_size nap" by (rule bundle_size_byte [OF assms(5)])
  have "sandboxed dt (bundle_size nap - 1) m data_new guest sz new"
    using vinv_finish [OF i assms(3) fin vi ex cf] al by simp
  moreover have "mpc (dbo ! curo) = data_old + sz" using code_chain_end [OF ch] by auto
  then have "replaces dt m data_old guest sz old new" using P ch by (simp add: pinv_def replaces_def)
  moreover have "jumps_same (cpu env) m old new" using P by (simp add: pinv_def)
  ultimately show ?thesis using vinv_fields(15) [OF vi] by blast
qed


text \<open>Replacing two no-ops by two halts, at addresses 0x1000 and 0x2000.\<close>

definition replace_mem :: memory where
  "replace_mem = (\<lambda>a. if a < 0x2000 then 0x90 else 0xf4)"

lemma replace_accepts:
  "case NaClValidateCodeReplacement sample_env sample_tables (\<lambda>_. replicate 4 blank_state) sample_app 0x20000 0x1000 0x2000 2 replace_mem of
     Some (Inr (rc, m')) \<Rightarrow> rc = LOAD_OK | _ \<Rightarrow> False"
  by code_simp

lemma apart_regions:
  assumes "unat a + n + 20 \<le> unat b" and "unat b + n < 2 ^ 32"
  shows "apart a b n"
  unfolding apart_def
proof (intro allI impI notI)
  fix j k :: nat assume j: "j < n + 20" and k: "k < n" and e: "a + of_nat j = b + of_nat k"
  have "unat (a + of_nat j) = unat a + j" "unat (b + of_nat k) = unat b + k"
    using unat_add_no_wrap [of a "of_nat j"] unat_add_no_wrap [of b "of_nat k"] assms j k by (simp_all add: unat_of_nat)
  then show False using arg_cong [OF e, of unat] assms(1) j by simp
qed


end
