(* ===== verification/Copy_Code.thy ===== *)
theory Copy_Code
  imports Code_Replace
begin

text \<open>
  The thread-safe copy of replacement code over running code, \<open>validator_x86/nccopycode.c\<close>, and its
  caller \<open>NaClCopyCode\<close> of \<open>service_runtime/sel_validate_image.c\<close>. The stores a copy issues and its
  \<open>mprotect\<close> calls are recorded as events, so that what another processor can fetch while the copy
  runs is part of the specification.
\<close>

section \<open>Stores and what other processors fetch of them\<close>

datatype code_event =
    Store uintptr_t "u8 list"
  | Memcpy uintptr_t "u8 list"
  | Mprotect int int  \<comment> \<open>the protection of the page before and after the call\<close>

fun apply_event :: "memory \<Rightarrow> code_event \<Rightarrow> memory" where
  "apply_event m (Store a bs) = mem_write m a bs"
| "apply_event m (Memcpy a bs) = mem_write m a bs"
| "apply_event m (Mprotect old new) = m"

text \<open>
  What the processor manuals named in the source promise of a store: one of a single byte, and an
  aligned one of 2, 4 or 8 bytes, is seen as a whole; of any other store, and of a \<open>memcpy\<close>, the
  bytes can be seen in any combination.
\<close>

definition store_atomic :: "uintptr_t \<Rightarrow> nat \<Rightarrow> bool" where
  "store_atomic a n \<longleftrightarrow> n = 1 \<or> n \<in> {2, 4, 8} \<and> n dvd unat a"

fun during :: "memory \<Rightarrow> code_event \<Rightarrow> memory \<Rightarrow> bool" where
  "during m (Store a bs) m' \<longleftrightarrow>
     (if store_atomic a (length bs) then m' = m \<or> m' = mem_write m a bs
      else \<forall>x. m' x = m x \<or> m' x = mem_write m a bs x)"
| "during m (Memcpy a bs) m' \<longleftrightarrow> (\<forall>x. m' x = m x \<or> m' x = mem_write m a bs x)"
| "during m (Mprotect old new) m' \<longleftrightarrow> m' = m"

text \<open>The memories another processor can load from while the events happen.\<close>

fun visible :: "memory \<Rightarrow> code_event list \<Rightarrow> memory \<Rightarrow> bool" where
  "visible m [] m' \<longleftrightarrow> m' = m"
| "visible m (e # es) m' \<longleftrightarrow> during m e m' \<or> visible (apply_event m e) es m'"

text \<open>
  Instructions are not loaded but fetched, in aligned blocks of 8 bytes, and a processor can keep a
  block it fetched until it executes a serialising instruction: two blocks of the same instruction can
  come from different moments. \<open>SerializeAllProcessors\<close> relies on \<open>mprotect\<close> to interrupt every other
  processor, and the return from the interrupt serialises it. A call that leaves the protection as it
  was has nothing to announce to the other processors and is not relied on.
\<close>

fun serialising :: "code_event \<Rightarrow> bool" where
  "serialising (Mprotect old new) \<longleftrightarrow> old \<noteq> new"
| "serialising _ \<longleftrightarrow> False"

definition assembled :: "memory \<Rightarrow> code_event list \<Rightarrow> memory \<Rightarrow> bool" where
  "assembled m es m' \<longleftrightarrow> (\<forall>q. \<exists>v. visible m es v \<and> (\<forall>x. unat x div 8 = q \<longrightarrow> m' x = v x))"

definition fetched :: "memory \<Rightarrow> code_event list \<Rightarrow> memory \<Rightarrow> bool" where
  "fetched m es m' \<longleftrightarrow>
     (\<exists>es1 es2 es3. es = es1 @ es2 @ es3 \<and> (\<forall>e \<in> set es2. \<not> serialising e) \<and>
        assembled (foldl apply_event m es1) es2 m')"

lemma visible_refl: "visible m es m"
  by (cases "(m, es, m)" rule: visible.cases) (auto, (cases "hd es"; simp)?)

lemma visible_final: "visible m es (foldl apply_event m es)"
  by (induction es arbitrary: m) simp_all

lemma visible_append:
  "visible m (es @ fs) m' \<longleftrightarrow> visible m es m' \<or> visible (foldl apply_event m es) fs m'"
  using visible_refl by (induction es arbitrary: m) auto

lemma visible_single: "visible m [e] m' \<longleftrightarrow> during m e m'"
  by (cases e) auto

lemma apply_serialising: "serialising e \<Longrightarrow> apply_event m e = m"
  by (cases e) simp_all

section \<open>Fetching from a sequence of events\<close>

lemma visible_assembled: "visible m es m' \<Longrightarrow> assembled m es m'"
  by (auto simp: assembled_def)

lemma assembled_Nil [simp]: "assembled m [] m' \<longleftrightarrow> m' = m"
  by (auto simp: assembled_def)

lemma fetched_start: "fetched m es m"
  unfolding fetched_def by (intro exI [of _ "[]"] exI [of _ es]) simp

lemma fetched_final: "fetched m es (foldl apply_event m es)"
  unfolding fetched_def by (intro exI [of _ es] exI [of _ "[]"]) simp

lemma fetched_window:
  "es = es1 @ es2 @ es3 \<Longrightarrow> \<forall>e \<in> set es2. \<not> serialising e \<Longrightarrow> assembled (foldl apply_event m es1) es2 m' \<Longrightarrow> fetched m es m'"
  unfolding fetched_def by blast

text \<open>What lies between two events can be taken from either side.\<close>

lemma assembled_append:
  assumes "assembled m (es @ fs) m'"
  obtains m1 m2 where "assembled m es m1" "assembled (foldl apply_event m es) fs m2"
    "\<forall>x. m' x = m1 x \<and> m2 x = foldl apply_event m es x \<or> m' x = m2 x \<and> m1 x = foldl apply_event m es x"
proof -
  let ?M = "foldl apply_event m es"
  define P where "P q \<longleftrightarrow> (\<exists>v. visible m es v \<and> (\<forall>x. unat x div 8 = q \<longrightarrow> m' x = v x))" for q
  define m1 m2 where "m1 x = (if P (unat x div 8) then m' x else ?M x)" and "m2 x = (if P (unat x div 8) then ?M x else m' x)" for x
  have other: "\<exists>v. visible ?M fs v \<and> (\<forall>x. unat x div 8 = q \<longrightarrow> m' x = v x)" if "\<not> P q" for q
    using assms that unfolding assembled_def visible_append P_def by blast
  have "\<exists>v. visible m es v \<and> (\<forall>x. unat x div 8 = q \<longrightarrow> m1 x = v x)" for q
  proof (cases "P q")
    case True
    then obtain v where "visible m es v" "\<forall>x. unat x div 8 = q \<longrightarrow> m' x = v x" unfolding P_def by blast
    then show ?thesis using True by (intro exI [of _ v]) (simp add: m1_def)
  next
    case False
    then show ?thesis using visible_final by (intro exI [of _ ?M]) (simp add: m1_def)
  qed
  moreover have "\<exists>v. visible ?M fs v \<and> (\<forall>x. unat x div 8 = q \<longrightarrow> m2 x = v x)" for q
    using visible_refl [of ?M fs] other [of q] by (cases "P q") (auto simp: m2_def)
  ultimately show thesis using that [of m1 m2] by (auto simp: assembled_def m1_def m2_def)
qed

lemma fetched_append:
  assumes "fetched m (es @ fs) m'"
  obtains m1 m2 where "fetched m es m1" "fetched (foldl apply_event m es) fs m2"
    "\<forall>x. m' x = m1 x \<and> m2 x = foldl apply_event m es x \<or> m' x = m2 x \<and> m1 x = foldl apply_event m es x"
proof -
  let ?M = "foldl apply_event m es"
  obtain w1 w w3 where w: "es @ fs = w1 @ w @ w3" "\<forall>e \<in> set w. \<not> serialising e" "assembled (foldl apply_event m w1) w m'"
    using assms unfolding fetched_def by blast
  consider us where "w1 = es @ us" "fs = us @ w @ w3" | us where "es = w1 @ us" "w @ w3 = us @ fs"
    using w(1) unfolding append_eq_append_conv2 by metis
  then show thesis
  proof cases
    case (1 us)
    then have "fetched ?M fs m'" using w by (intro fetched_window [of fs us w w3]) simp_all
    then show thesis using that [OF fetched_final] by blast
  next
    case (2 us)
    consider vs where "w = us @ vs" "fs = vs @ w3" | vs where "us = w @ vs"
      using 2(2) unfolding append_eq_append_conv2 by metis
    then show thesis
    proof cases
      case (1 vs)
      obtain m1 m2 where a: "assembled (foldl apply_event m w1) us m1" "assembled (foldl apply_event (foldl apply_event m w1) us) vs m2"
        "\<forall>x. m' x = m1 x \<and> m2 x = foldl apply_event (foldl apply_event m w1) us x \<or>
             m' x = m2 x \<and> m1 x = foldl apply_event (foldl apply_event m w1) us x"
        by (rule assembled_append [OF w(3) [unfolded 1(1)]])
      have M: "foldl apply_event (foldl apply_event m w1) us = ?M" using 2(1) by simp
      have "fetched m es m1" using a(1) w(2) 1(1) 2(1) by (intro fetched_window [of es w1 us "[]"]) simp_all
      moreover have "fetched ?M fs m2" using a(2) w(2) 1 M by (intro fetched_window [of fs "[]" vs w3]) simp_all
      ultimately show thesis using that a(3) unfolding M by blast
    next
      case (2 vs)
      have "fetched m es m'" using w 2 \<open>es = w1 @ us\<close> by (intro fetched_window [of es w1 w vs]) simp_all
      then show thesis using that [OF _ fetched_start] by blast
    qed
  qed
qed

text \<open>A serialising event ends every fetch that began before it.\<close>

lemma fetched_serialising:
  assumes "fetched m (es @ e # fs) m'" and "serialising e"
  shows "fetched m es m' \<or> fetched (foldl apply_event m es) fs m'"
proof -
  obtain w1 w w3 where w: "es @ e # fs = w1 @ w @ w3" "\<forall>e \<in> set w. \<not> serialising e" "assembled (foldl apply_event m w1) w m'"
    using assms unfolding fetched_def by blast
  have stop: "w = []" if "w @ w3 = e # fs" using that w(2) assms(2) by (cases w) auto
  consider us where "w1 = es @ us" "e # fs = us @ w @ w3" | us where "es = w1 @ us" "w @ w3 = us @ e # fs"
    using w(1) unfolding append_eq_append_conv2 by metis
  then show ?thesis
  proof cases
    case (1 us)
    show ?thesis
    proof (cases us)
      case Nil
      then have "m' = foldl apply_event m es" using 1 stop w(3) by simp
      then show ?thesis using fetched_final by blast
    next
      case (Cons e' us')
      then have "fetched (foldl apply_event m es) fs m'"
        using 1 w(2,3) apply_serialising [OF assms(2)] by (intro fetched_window [of fs us' w w3]) simp_all
      then show ?thesis ..
    qed
  next
    case (2 us)
    consider vs where "us = w @ vs" | vs where "w = us @ vs" "vs @ w3 = e # fs"
      using 2(2) unfolding append_eq_append_conv2 by metis
    then have "\<exists>vs. us = w @ vs"
    proof cases
      case (2 vs)
      then have "vs = []" using w(2) assms(2) by (cases vs) auto
      then show ?thesis using 2 by simp
    qed blast
    then show ?thesis using fetched_window [OF _ w(2,3)] 2(1) by auto
  qed
qed

lemma fetched_none: "fetched m [] m' \<Longrightarrow> m' = m"
  by (simp add: fetched_def)

lemma fetched_single:
  assumes "fetched m [e] m'"
  shows "m' = m \<or> m' = apply_event m e \<or> assembled m [e] m'"
  using assms by (auto simp: fetched_def Cons_eq_append_conv append_eq_Cons_conv)

text \<open>An atomic store lies in one block, so it is fetched as a whole.\<close>

lemma store_in_block:
  assumes "store_atomic a n" and "unat (x - a) < n"
  shows "unat x div 8 = unat a div 8"
proof (cases "n = 1")
  case True
  then show ?thesis using assms(2) by (simp add: unsigned_eq_0_iff)
next
  case False
  define d where "d = unat (x - a)"
  have n: "n = 2 \<or> n = 4 \<or> n = 8" "n dvd unat a" "d < n" using assms False by (auto simp: store_atomic_def d_def)
  then obtain c where c: "unat a = n * c" by blast
  have "unat a + d < 2 ^ 32" using n(1,3) c unat_lt_size_t [of a] by auto
  then have "unat (a + of_nat d) = unat a + d"
    using unat_add_no_wrap [of a "of_nat d"] n(1,3) by (auto simp: unat_of_nat)
  then have "unat x = n * c + d" using c by (simp add: d_def)
  then show ?thesis using n(1,3) unfolding c by (elim disjE) simp_all
qed

lemma fetched_Store:
  assumes "store_atomic a (length bs)" and "fetched m [Store a bs] m'"
  shows "m' = m \<or> m' = mem_write m a bs"
proof -
  let ?W = "mem_write m a bs"
  consider "m' = m" | "m' = ?W" | "assembled m [Store a bs] m'" using fetched_single [OF assms(2)] by auto
  then show ?thesis
  proof cases
    case 3
    then have v: "\<exists>v. (v = m \<or> v = ?W) \<and> (\<forall>x. unat x div 8 = q \<longrightarrow> m' x = v x)" for q
      using assms(1) unfolding assembled_def visible_single by simp
    then obtain v where "v = m \<or> v = ?W" and blk: "\<And>x. unat x div 8 = unat a div 8 \<Longrightarrow> m' x = v x" by meson
    moreover have "m' x = v x" for x
    proof (cases "unat x div 8 = unat a div 8")
      case False
      then have "\<not> unat (x - a) < length bs" using store_in_block [OF assms(1)] by blast
      then have "?W x = m x" by (simp add: mem_write_outside)
      moreover from v [of "unat x div 8"] have "m' x = m x \<or> m' x = ?W x" by auto
      ultimately show ?thesis using \<open>v = m \<or> v = ?W\<close> by auto
    qed (rule blk)
    ultimately show ?thesis by auto
  qed simp_all
qed

lemma fetched_Memcpy: "fetched m [Memcpy a bs] m' \<Longrightarrow> m' x = m x \<or> m' x = mem_write m a bs x"
proof -
  assume f: "fetched m [Memcpy a bs] m'"
  have "m' x = m x \<or> m' x = mem_write m a bs x" if "assembled m [Memcpy a bs] m'"
    using that [unfolded assembled_def visible_single, THEN spec, of "unat x div 8"] by auto
  then show "m' x = m x \<or> m' x = mem_write m a bs x" using fetched_single [OF f] by auto
qed

text \<open>What can be loaded at a moment can be fetched.\<close>

lemma visible_fetched: "visible m es m' \<Longrightarrow> fetched m es m'"
proof (induction es arbitrary: m)
  case Nil
  then show ?case using fetched_start [of m "[]"] by simp
next
  case (Cons e es)
  then consider "during m e m'" "serialising e" | "during m e m'" "\<not> serialising e" | "visible (apply_event m e) es m'" by auto
  then show ?case
  proof cases
    case 1
    then have "m' = m" by (cases e) simp_all
    then show ?thesis using fetched_start by simp
  next
    case 2
    then show ?thesis
      by (intro fetched_window [of "e # es" "[]" "[e]" es]) (simp_all add: visible_assembled visible_single)
  next
    case 3
    from Cons.IH [OF this] obtain w1 w w3 where "es = w1 @ w @ w3" "\<forall>e \<in> set w. \<not> serialising e"
      "assembled (foldl apply_event (apply_event m e) w1) w m'" unfolding fetched_def by blast
    then show ?thesis by (intro fetched_window [of "e # es" "e # w1" w w3]) simp_all
  qed
qed

section \<open>Which writes are trusted\<close>

definition kTrustAligned :: nat where "kTrustAligned = 8"
definition kTrustUnaligned :: nat where "kTrustUnaligned = 1"
definition kInstructionFetchSize :: nat where "kInstructionFetchSize = 8"

definition IsAligned :: "uintptr_t \<Rightarrow> nat \<Rightarrow> nat \<Rightarrow> bool" where
  "IsAligned dst sz align \<longleftrightarrow>
     dst AND NOT (of_nat align - 1) = (dst + of_nat sz - 1) AND NOT (of_nat align - 1)"

text \<open>\<open>Some offset\<close> when the write may be issued, \<open>None\<close> for the result 0.\<close>

definition IsTrustedWrite :: "uintptr_t \<Rightarrow> nat \<Rightarrow> nat \<Rightarrow> nat option" where
  "IsTrustedWrite dst sz writesize =
     (if sz > writesize then None
      else if \<not> IsAligned dst sz kInstructionFetchSize then None
      else if writesize \<le> kTrustAligned \<and> IsAligned dst sz writesize
        then Some (unat (dst AND (of_nat writesize - 1)))
      else if writesize \<le> kTrustUnaligned then Some 0
      else None)"

section \<open>Serialising the processors\<close>

text \<open>
  The page whose protection is flipped and the static variables of \<open>SerializeAllProcessors\<close>; the
  protection the host has the page mapped with, which is that of the heap when the page is allocated;
  and what the host calls return.
\<close>

record serial_state =
  g_squashybuffer :: uintptr_t
  squash_prot :: int
  squash_size :: int
  host_prot :: int

record serial_env =
  sysconf_page_size :: int
  valloc_ret :: uintptr_t
  mprotect_rv :: "uintptr_t \<Rightarrow> int \<Rightarrow> int \<Rightarrow> int"

definition SerializeAllProcessors :: "serial_env \<Rightarrow> serial_state \<Rightarrow> (serial_state \<times> code_event) res" where
  "SerializeAllProcessors os s =
     (let prot_a = PROT_READ OR PROT_WRITE OR PROT_EXEC;
          prot_b = PROT_NONE;
          s1 = (if g_squashybuffer s = 0
                then s\<lparr>squash_size := sysconf_page_size os, g_squashybuffer := valloc_ret os,
                       host_prot := PROT_READ OR PROT_WRITE\<rparr>
                else s) in
      check_res (0 \<noteq> squash_size s1) (
      check_res (0 \<noteq> g_squashybuffer s1) (
      let s2 = s1\<lparr>squash_prot := (if squash_prot s1 = prot_a then prot_b else prot_a)\<rparr> in
      check_res (mprotect_rv os (g_squashybuffer s2) (squash_size s2) (squash_prot s2) = 0) (
      Inr (s2\<lparr>host_prot := squash_prot s2\<rparr>, Mprotect (host_prot s2) (squash_prot s2))))))"

section \<open>Copying one instruction\<close>

text \<open>The state of the copy: the validator state the decoder is run with, the serialising state and
  the stores issued so far, oldest first.\<close>

record copy_state =
  copy_vstate :: vstate
  serial :: serial_state
  copy_events :: "code_event list"

definition emit :: "code_event \<Rightarrow> memory \<times> copy_state \<Rightarrow> memory \<times> copy_state" where
  "emit e s = (apply_event (fst s) e, (snd s)\<lparr>copy_events := copy_events (snd s) @ [e]\<rparr>)"

definition serialize :: "serial_env \<Rightarrow> memory \<times> copy_state \<Rightarrow> (memory \<times> copy_state) res" where
  "serialize os s =
     bind_res (SerializeAllProcessors os (serial (snd s))) (\<lambda>(ss, e).
       Inr (emit e (fst s, (snd s)\<lparr>serial := ss\<rparr>)))"

text \<open>Scroll to the first byte that differs, and trim the equal bytes at the end.\<close>

fun skip_same :: "memory \<Rightarrow> uintptr_t \<Rightarrow> uintptr_t \<Rightarrow> nat \<Rightarrow> uintptr_t \<times> uintptr_t \<times> nat" where
  "skip_same m dst src 0 = (dst, src, 0)"
| "skip_same m dst src (Suc sz) =
     (if m dst = m src then skip_same m (dst + 1) (src + 1) sz else (dst, src, Suc sz))"

fun trim_same :: "memory \<Rightarrow> uintptr_t \<Rightarrow> uintptr_t \<Rightarrow> nat \<Rightarrow> nat" where
  "trim_same m dst src 0 = 0"
| "trim_same m dst src (Suc sz) =
     (if m (dst + of_nat sz) = m (src + of_nat sz) then trim_same m dst src sz else Suc sz)"

text \<open>\<open>memcpy(tmp + offset, bs, sizeof bs)\<close> into a buffer on the stack.\<close>

definition patch :: "u8 list \<Rightarrow> nat \<Rightarrow> u8 list \<Rightarrow> u8 list res" where
  "patch tmp off bs =
     (if off + length bs \<le> length tmp then Inr (take off tmp @ bs @ drop (off + length bs) tmp)
      else Inl OutOfBounds)"

definition one_store ::
    "nat \<Rightarrow> nat \<Rightarrow> uintptr_t \<Rightarrow> uintptr_t \<Rightarrow> nat \<Rightarrow> memory \<times> copy_state \<Rightarrow> (memory \<times> copy_state) res" where
  "one_store writesize off dst src sz s =
     bind_res (patch (mem_read (fst s) (dst - of_nat off) writesize) off (mem_read (fst s) src sz)) (\<lambda>tmp.
       Inr (emit (Store (dst - of_nat off) tmp) s))"

definition slow_copy ::
    "serial_env \<Rightarrow> uintptr_t \<Rightarrow> uintptr_t \<Rightarrow> uintptr_t \<Rightarrow> nat \<Rightarrow> memory \<times> copy_state \<Rightarrow> (memory \<times> copy_state) res" where
  "slow_copy os maddr_old dst src sz s =
     (let firstbyte = fst s maddr_old in
      bind_res (serialize os (emit (Store maddr_old [kNaClFullStop]) s)) (\<lambda>s2.
      let (fb, dst2, src2, sz2) =
        (if dst = maddr_old then (fst s2 src, dst + 1, src + 1, sz - 1) else (firstbyte, dst, src, sz)) in
      bind_res (serialize os (emit (Memcpy dst2 (mem_read (fst s2) src2 sz2)) s2)) (\<lambda>s4.
      Inr (emit (Store maddr_old [fb]) s4))))"

definition CopyInstruction :: "serial_env \<Rightarrow> copy_state pair_action" where
  "CopyInstruction os dbo curo dbn curn s =
     (let iold = inst (dbo ! curo); inew = inst (dbn ! curn) in
      check_res (inst_length inew = inst_length iold) (
      case skip_same (fst s) (maddr iold) (maddr inew) (unat (inst_length iold)) of (dst, src, sz1) \<Rightarrow>
      if sz1 = 0 then Inr s
      else
        let sz = trim_same (fst s) dst src sz1 in
        if sz = 1 then Inr (emit (Store dst [fst s src]) s)
        else case IsTrustedWrite dst sz 4 of
          Some off \<Rightarrow> one_store 4 off dst src sz s
        | None \<Rightarrow>
          (case IsTrustedWrite dst sz 8 of
             Some off \<Rightarrow> one_store 8 off dst src sz s
           | None \<Rightarrow> slow_copy os (maddr iold) dst src sz s)))"

section \<open>Copying a segment\<close>

text \<open>\<open>NCValidateInit\<close> registers the validator's callbacks; they act on the validator state alone.\<close>

definition copy_callbacks :: "copy_state NCCallbacks" where
  "copy_callbacks =
     \<lparr>g_DecoderAction = (\<lambda>db cur (m, cs). bind_res (ValidateInst db cur (m, copy_vstate cs)) (\<lambda>(m', vs).
          Inr (m', cs\<lparr>copy_vstate := vs\<rparr>))),
      g_NewSegment = copy_vstate_update Stats_NewSegment,
      g_SegFault = copy_vstate_update Stats_SegFault,
      g_InternalError = copy_vstate_update Stats_InternalError\<rparr>"

definition NCCopyCode ::
    "valid_env \<Rightarrow> serial_env \<Rightarrow> DecodeTables \<Rightarrow> (nat \<Rightarrow> NCDecoderState list) \<Rightarrow> uintptr_t \<Rightarrow> uintptr_t \<Rightarrow> NaClPcAddress
      \<Rightarrow> size_t \<Rightarrow> u32 \<Rightarrow> memory \<Rightarrow> serial_state \<Rightarrow> (int \<times> memory \<times> copy_state) res option" where
  "NCCopyCode env os dt stack dst src vbase sz bsize m ser =
     (case NCValidateInit env vbase (vbase + sz) (ucast bsize) of
        None \<Rightarrow> Some (Inl CheckFailed)
      | Some vstate \<Rightarrow>
        bind_run (NCDecodeSegmentPair copy_callbacks dt (stack 0) (stack 1) dst src vbase sz (CopyInstruction os) m
                    \<lparr>copy_vstate = vstate, serial = ser, copy_events = []\<rparr>) (\<lambda>(m', cs).
          Some (Inr (0, m', cs))))"

definition NaClCopyCode ::
    "valid_env \<Rightarrow> serial_env \<Rightarrow> DecodeTables \<Rightarrow> (nat \<Rightarrow> NCDecoderState list) \<Rightarrow> NaClApp \<Rightarrow> uintptr_t \<Rightarrow> uintptr_t \<Rightarrow> uintptr_t
      \<Rightarrow> size_t \<Rightarrow> memory \<Rightarrow> serial_state \<Rightarrow> (NaClErrorCode \<times> memory \<times> copy_state) res option" where
  "NaClCopyCode env os dt stack nap guest_addr data_old data_new sz m ser =
     bind_run (NCCopyCode env os dt stack data_old data_new guest_addr sz (bundle_size nap) m ser) (\<lambda>(result, m', cs).
       Some (Inr (if result \<noteq> 0 then LOAD_UNLOADABLE else LOAD_OK, m', cs)))"

section \<open>Writing part of a block\<close>

lemma mem_write_offset:
  assumes "d < 2 ^ 32" and "k + length bs \<le> 2 ^ 32"
  shows "mem_write m (a + of_nat k) bs (a + of_nat d) =
           (if k \<le> d \<and> d < k + length bs then bs ! (d - k) else m (a + of_nat d))"
  unfolding mem_write_def using unat_offset_less [OF assms] by simp

lemma mem_read_nth [simp]: "k < n \<Longrightarrow> mem_read m a n ! k = m (a + of_nat k)"
  by (simp add: mem_read_def)

lemma memory_eqI:
  fixes a :: uintptr_t
  assumes "\<And>d. d < 2 ^ 32 \<Longrightarrow> m (a + of_nat d) = m' (a + of_nat d)"
  shows "m = m'"
proof
  fix x :: uintptr_t
  have "a + of_nat (unat (x - a)) = x" by simp
  then show "m x = m' x" using assms [of "unat (x - a)"] unat_lt_size_t [of "x - a"] by simp
qed

text \<open>\<open>s\<close> bytes from offset \<open>k\<close> hold every difference between the blocks at \<open>a\<close> and \<open>b\<close>.\<close>

definition differs_within :: "memory \<Rightarrow> uintptr_t \<Rightarrow> uintptr_t \<Rightarrow> nat \<Rightarrow> nat \<Rightarrow> nat \<Rightarrow> bool" where
  "differs_within m a b n k s \<longleftrightarrow>
     k + s \<le> n \<and> (\<forall>j < n. j < k \<or> k + s \<le> j \<longrightarrow> m (a + of_nat j) = m (b + of_nat j))"

lemma skip_same_spec:
  assumes "skip_same m a b n = (dst, src, s)"
  shows "\<exists>k. dst = a + of_nat k \<and> src = b + of_nat k \<and> k + s = n \<and>
           (\<forall>j < k. m (a + of_nat j) = m (b + of_nat j)) \<and> (0 < s \<longrightarrow> m dst \<noteq> m src)"
  using assms
proof (induction n arbitrary: a b)
  case (Suc n)
  show ?case
  proof (cases "m a = m b")
    case True
    then have "skip_same m (a + 1) (b + 1) n = (dst, src, s)" using Suc.prems by simp
    from Suc.IH [OF this] obtain k where k: "dst = a + 1 + of_nat k" "src = b + 1 + of_nat k" "k + s = n"
      "\<forall>j < k. m (a + 1 + of_nat j) = m (b + 1 + of_nat j)" "0 < s \<longrightarrow> m dst \<noteq> m src" by blast
    have "m (a + of_nat j) = m (b + of_nat j)" if "j < Suc k" for j
      using that k(4) True by (cases j) (auto simp: add.assoc)
    then show ?thesis using k by (intro exI [of _ "Suc k"]) (simp add: add.assoc)
  qed (use Suc.prems in auto)
qed simp

lemma trim_same_spec:
  "trim_same m dst src s \<le> s"
  "trim_same m dst src s \<le> j \<Longrightarrow> j < s \<Longrightarrow> m (dst + of_nat j) = m (src + of_nat j)"
  "0 < s \<Longrightarrow> m dst \<noteq> m src \<Longrightarrow> 0 < trim_same m dst src s"
proof -
  show "trim_same m dst src s \<le> s" by (induction s) auto
  show "trim_same m dst src s \<le> j \<Longrightarrow> j < s \<Longrightarrow> m (dst + of_nat j) = m (src + of_nat j)"
    by (induction s) (auto simp: less_Suc_eq split: if_splits)
  show "0 < s \<Longrightarrow> m dst \<noteq> m src \<Longrightarrow> 0 < trim_same m dst src s"
  proof (induction s)
    case (Suc s)
    then show ?case by (cases s) auto
  qed simp
qed

lemma differs_within_trim:
  assumes "skip_same m a b n = (dst, src, s)" and "0 < s"
  obtains k where "dst = a + of_nat k" "src = b + of_nat k" "differs_within m a b n k (trim_same m dst src s)"
    "0 < trim_same m dst src s"
proof -
  obtain k where k: "dst = a + of_nat k" "src = b + of_nat k" "k + s = n"
    "\<forall>j < k. m (a + of_nat j) = m (b + of_nat j)" "m dst \<noteq> m src"
    using skip_same_spec [OF assms(1)] assms(2) by blast
  have "m (a + of_nat j) = m (b + of_nat j)" if "k + trim_same m dst src s \<le> j" "j < n" for j
    using trim_same_spec(2) [of m dst src s "j - k"] that k(1-3) by (simp add: add.assoc flip: of_nat_add)
  then have "differs_within m a b n k (trim_same m dst src s)"
    using k(3,4) trim_same_spec(1) [of m dst src s] by (auto simp: differs_within_def)
  then show ?thesis using that k(1,2) trim_same_spec(3) [OF assms(2) k(5)] by blast
qed

lemma write_difference:
  assumes "differs_within m a b n k s" and "n \<le> 2 ^ 32"
  shows "mem_write m (a + of_nat k) (mem_read m (b + of_nat k) s) = mem_write m a (mem_read m b n)"
proof (rule memory_eqI)
  fix d :: nat assume d: "d < 2 ^ 32"
  have le: "k + s \<le> n" using assms(1) by (simp add: differs_within_def)
  have "mem_write m (a + of_nat k) (mem_read m (b + of_nat k) s) (a + of_nat d) =
      (if k \<le> d \<and> d < k + s then m (b + of_nat d) else m (a + of_nat d))"
    using mem_write_offset [OF d, of k "mem_read m (b + of_nat k) s" m a] le assms(2)
    by (auto simp: add.assoc simp flip: of_nat_add)
  moreover have "mem_write m a (mem_read m b n) (a + of_nat d) = (if d < n then m (b + of_nat d) else m (a + of_nat d))"
    using mem_write_offset [OF d, of 0 "mem_read m b n" m a] assms(2) by simp
  ultimately show "mem_write m (a + of_nat k) (mem_read m (b + of_nat k) s) (a + of_nat d) =
      mem_write m a (mem_read m b n) (a + of_nat d)"
    using assms(1) by (auto simp: differs_within_def)
qed

lemma write_patched:
  assumes "off + length bs \<le> w" and "w \<le> 2 ^ 32"
  shows "\<exists>tmp. patch (mem_read m a w) off bs = Inr tmp \<and> mem_write m a tmp = mem_write m (a + of_nat off) bs"
proof -
  let ?tmp = "take off (mem_read m a w) @ bs @ drop (off + length bs) (mem_read m a w)"
  have len: "length ?tmp = w" using assms(1) by simp
  have "mem_write m a ?tmp = mem_write m (a + of_nat off) bs"
  proof (rule memory_eqI)
    fix d :: nat assume d: "d < 2 ^ 32"
    have "mem_write m a ?tmp (a + of_nat d) = (if d < w then ?tmp ! d else m (a + of_nat d))"
      using mem_write_offset [OF d, of 0 ?tmp m a] len assms(2) by simp
    moreover have "?tmp ! d = (if off \<le> d \<and> d < off + length bs then bs ! (d - off) else m (a + of_nat d))" if "d < w"
      using that assms(1) by (auto simp: nth_append)
    ultimately show "mem_write m a ?tmp (a + of_nat d) = mem_write m (a + of_nat off) bs (a + of_nat d)"
      using mem_write_offset [OF d, of off bs m a] assms by auto
  qed
  then show ?thesis using assms(1) by (intro exI [of _ ?tmp]) (simp add: patch_def)
qed

lemma aligned_block_offset:
  fixes dst :: uintptr_t
  assumes "IsAligned dst sz (2 ^ n)" and "0 < sz" and "sz \<le> 2 ^ n" and "n < 32"
  shows "unat (dst AND (of_nat (2 ^ n) - 1)) + sz \<le> 2 ^ n"
proof -
  let ?e = "dst + of_nat sz - 1"
  have m: "(of_nat (2 ^ n) - 1 :: uintptr_t) = mask n" by (simp add: mask_eq_exp_minus_1)
  have eq: "dst AND NOT (mask n) = ?e AND NOT (mask n)" using assms(1) unfolding IsAligned_def m .
  have off: "unat (dst AND mask n) = unat dst mod 2 ^ n" "unat (?e AND mask n) = unat ?e mod 2 ^ n"
    by (simp_all only: unat_and_mask_mod)
  have "?e - dst = (?e AND mask n) - (dst AND mask n)"
    using eq unfolding word_and_not_mask by (simp add: algebra_simps)
  moreover have "?e - dst = of_nat (sz - 1)" using assms(2) by (simp add: of_nat_diff)
  ultimately have "of_nat (sz - 1) + (dst AND mask n) = ?e AND mask n" by (simp add: algebra_simps)
  moreover have "unat (of_nat (sz - 1) + (dst AND mask n) :: uintptr_t) = sz - 1 + unat dst mod 2 ^ n"
  proof -
    have p: "2 ^ n \<le> (2 :: nat) ^ 31" using assms(4) by (intro power_increasing) simp_all
    have "unat dst mod 2 ^ n < (2 :: nat) ^ n" by simp
    then have "unat dst mod 2 ^ n < 2 ^ 31" using p by (rule less_le_trans)
    moreover have "sz - 1 < 2 ^ 32" using assms(3) p by simp
    then have "unat (of_nat (sz - 1) :: uintptr_t) = sz - 1" by (simp only: unat_of_nat) simp
    ultimately show ?thesis
      using unat_add_no_wrap [of "of_nat (sz - 1) :: uintptr_t" "dst AND mask n"] off(1) assms(2,3) p by simp
  qed
  ultimately have "sz - 1 + unat dst mod 2 ^ n = unat ?e mod 2 ^ n" using off(2) by simp
  moreover have "unat ?e mod 2 ^ n < (2 :: nat) ^ n" by simp
  ultimately have "sz - 1 + unat dst mod 2 ^ n < 2 ^ n" by linarith
  then show ?thesis unfolding m using off(1) assms(2) by simp
qed

lemma IsTrustedWrite_inside:
  assumes "IsTrustedWrite dst sz w = Some off" and "0 < sz" and "w = 4 \<or> w = 8"
  shows "off + sz \<le> w"
proof -
  have "IsAligned dst sz w" "sz \<le> w" "off = unat (dst AND (of_nat w - 1))"
    using assms by (auto simp: IsTrustedWrite_def kTrustAligned_def kTrustUnaligned_def split: if_splits)
  then show ?thesis
    using aligned_block_offset [of dst sz 2] aligned_block_offset [of dst sz 3] assms(2,3) by auto
qed

lemma IsTrustedWrite_atomic:
  assumes "IsTrustedWrite dst sz w = Some off" and "w = 4 \<or> w = 8"
  shows "store_atomic (dst - of_nat off) w"
proof -
  have off: "off = unat (dst AND (of_nat w - 1))"
    using assms by (auto simp: IsTrustedWrite_def kTrustAligned_def kTrustUnaligned_def split: if_splits)
  obtain n where n: "w = 2 ^ n" using assms(2) that [of 2] that [of 3] by auto
  have m: "(of_nat w - 1 :: uintptr_t) = mask n" by (simp add: n mask_eq_exp_minus_1)
  have "unat (dst AND mask n) = unat dst mod w" by (simp only: unat_and_mask_mod n)
  then have "unat (dst - (dst AND mask n)) = unat dst - unat dst mod w"
    by (subst unat_sub_le) (simp_all add: word_le_nat_alt)
  then show ?thesis using assms(2) unfolding off m by (auto simp: store_atomic_def)
qed

section \<open>No thread sees half an instruction\<close>

text \<open>
  A thread that fetches the instruction at \<open>a\<close> gets the old one, the new one (the \<open>n\<close> bytes at \<open>b\<close>),
  or one that starts with a halt.
\<close>

definition sees_whole :: "memory \<Rightarrow> memory \<Rightarrow> uintptr_t \<Rightarrow> uintptr_t \<Rightarrow> nat \<Rightarrow> bool" where
  "sees_whole m m' a b n \<longleftrightarrow>
     mem_read m' a n = mem_read m a n \<or> mem_read m' a n = mem_read m b n \<or> m' a = kNaClFullStop"

definition same_outside :: "memory \<Rightarrow> memory \<Rightarrow> uintptr_t \<Rightarrow> nat \<Rightarrow> bool" where
  "same_outside m m' a n \<longleftrightarrow> (\<forall>d. n \<le> d \<and> d < 2 ^ 32 \<longrightarrow> m' (a + of_nat d) = m (a + of_nat d))"

text \<open>
  The host calls behind \<open>SerializeAllProcessors\<close> succeed, and the host still has the page mapped with
  the protection of the last call.
\<close>

definition serial_ok :: "serial_env \<Rightarrow> serial_state \<Rightarrow> bool" where
  "serial_ok os s \<longleftrightarrow> sysconf_page_size os \<noteq> 0 \<and> valloc_ret os \<noteq> 0 \<and> (\<forall>a n p. mprotect_rv os a n p = 0) \<and>
     (g_squashybuffer s \<noteq> 0 \<longrightarrow> squash_size s \<noteq> 0 \<and> host_prot s = squash_prot s)"

definition copied ::
    "serial_env \<Rightarrow> uintptr_t \<Rightarrow> uintptr_t \<Rightarrow> nat \<Rightarrow> memory \<times> copy_state \<Rightarrow> (memory \<times> copy_state) res \<Rightarrow> bool" where
  "copied os a b n s r \<longleftrightarrow>
     (\<exists>cs evs. r = Inr (mem_write (fst s) a (mem_read (fst s) b n), cs) \<and>
        copy_events cs = copy_events (snd s) @ evs \<and>
        foldl apply_event (fst s) evs = mem_write (fst s) a (mem_read (fst s) b n) \<and>
        (\<forall>m'. fetched (fst s) evs m' \<longrightarrow> same_outside (fst s) m' a n \<and> sees_whole (fst s) m' a b n) \<and>
        serial_ok os (serial cs) \<and> copy_vstate cs = copy_vstate (snd s))"

lemma SerializeAllProcessors_ok:
  assumes "serial_ok os s"
  shows "\<exists>ss e. SerializeAllProcessors os s = Inr (ss, e) \<and> serialising e \<and> serial_ok os ss"
  using assms
  by (auto simp: SerializeAllProcessors_def Let_def serial_ok_def check_res_def
      PROT_READ_def PROT_WRITE_def PROT_EXEC_def PROT_NONE_def)

lemma serialize_ok:
  assumes "serial_ok os (serial (snd s))"
  shows "\<exists>ss e. serialize os s = Inr (fst s, (snd s)\<lparr>serial := ss, copy_events := copy_events (snd s) @ [e]\<rparr>) \<and>
           serialising e \<and> serial_ok os ss"
proof -
  obtain ss e where "SerializeAllProcessors os (serial (snd s)) = Inr (ss, e)" "serialising e" "serial_ok os ss"
    using SerializeAllProcessors_ok [OF assms] by blast
  then show ?thesis using apply_serialising [of e "fst s"] by (intro exI [of _ ss] exI [of _ e]) (simp add: serialize_def emit_def)
qed

lemma whole_copy:
  assumes "n \<le> 2 ^ 32"
  shows "same_outside m (mem_write m a (mem_read m b n)) a n"
    and "mem_read (mem_write m a (mem_read m b n)) a n = mem_read m b n"
proof -
  have "mem_write m a (mem_read m b n) (a + of_nat d) = (if d < n then m (b + of_nat d) else m (a + of_nat d))"
    if "d < 2 ^ 32" for d
    using mem_write_offset [OF that, of 0 "mem_read m b n" m a] assms by simp
  then show "same_outside m (mem_write m a (mem_read m b n)) a n" by (auto simp: same_outside_def)
  show "mem_read (mem_write m a (mem_read m b n)) a n = mem_read m b n"
    using mem_read_write_same [of "mem_read m b n" m a] assms by simp
qed

lemma one_event_copied:
  assumes "mem_write m p bs = mem_write m a (mem_read m b n)" and "n \<le> 2 ^ 32" and "serial_ok os (serial cs)"
    and "store_atomic p (length bs)"
  shows "copied os a b n (m, cs) (Inr (emit (Store p bs) (m, cs)))"
proof -
  have "same_outside m m' a n \<and> sees_whole m m' a b n" if "fetched m [Store p bs] m'" for m'
    using fetched_Store [OF assms(4) that] whole_copy [OF assms(2), of m a b] assms(1)
    by (auto simp: same_outside_def sees_whole_def)
  then show ?thesis unfolding copied_def
    using assms by (intro exI [of _ "snd (emit (Store p bs) (m, cs))"] exI [of _ "[Store p bs]"]) (simp add: emit_def)
qed

lemma one_store_copied:
  assumes "differs_within m a b n k s" and "n \<le> 2 ^ 32" and "serial_ok os (serial cs)" and "off + s \<le> w" and "w \<le> 2 ^ 32"
    and "store_atomic (a + of_nat k - of_nat off) w"
  shows "copied os a b n (m, cs) (one_store w off (a + of_nat k) (b + of_nat k) s (m, cs))"
proof -
  let ?p = "a + of_nat k - of_nat off" and ?bs = "mem_read m (b + of_nat k) s"
  obtain tmp where tmp: "patch (mem_read m ?p w) off ?bs = Inr tmp" "mem_write m ?p tmp = mem_write m (?p + of_nat off) ?bs"
    using write_patched [of off ?bs w m ?p] assms(4,5) by auto
  then have "mem_write m ?p tmp = mem_write m a (mem_read m b n)" using write_difference [OF assms(1,2)] by simp
  moreover have "length tmp = w" using tmp(1) assms(4) by (auto simp: patch_def)
  ultimately show ?thesis using one_event_copied [OF _ assms(2,3)] assms(6) tmp(1) by (simp add: one_store_def)
qed

text \<open>The slow path: a halt, the rest of the instruction, and the new first byte.\<close>

lemma slow_path_writes:
  fixes a b :: uintptr_t
  defines "m1 \<equiv> \<lambda>m. mem_write m a [kNaClFullStop]" and "rest \<equiv> \<lambda>m k s. mem_read m (b + of_nat k) s"
  assumes "\<forall>j < n. 1 \<le> j \<and> (j < k \<or> k + s \<le> j) \<longrightarrow> m (a + of_nat j) = m (b + of_nat j)"
    and "1 \<le> k" and "k + s \<le> n" and "n \<le> 255"
  shows "mem_write (mem_write (m1 m) (a + of_nat k) (rest m k s)) a [m b] = mem_write m a (mem_read m b n)"
    and "same_outside m (m1 m) a n" "m1 m a = kNaClFullStop"
    and "(\<And>x. m' x = m1 m x \<or> m' x = mem_write (m1 m) (a + of_nat k) (rest m k s) x) \<Longrightarrow>
           same_outside m m' a n \<and> m' a = kNaClFullStop"
proof -
  note ks = assms(5)
  have same: "m (a + of_nat j) = m (b + of_nat j)" if "1 \<le> j" "j < n" "j < k \<or> k + s \<le> j" for j
    using assms(3) that by blast
  have w1: "m1 m (a + of_nat d) = (if d = 0 then kNaClFullStop else m (a + of_nat d))" if "d < 2 ^ 32" for d
    using mem_write_offset [OF that, of 0 "[kNaClFullStop]" m a] by (simp add: m1_def)
  have w2: "mem_write (m1 m) (a + of_nat k) (rest m k s) (a + of_nat d) =
      (if k \<le> d \<and> d < k + s then m (b + of_nat d) else m1 m (a + of_nat d))" if "d < 2 ^ 32" for d
    using mem_write_offset [OF that, of k "rest m k s" "m1 m" a] ks assms(6)
    by (auto simp: rest_def add.assoc simp flip: of_nat_add)
  show "m1 m a = kNaClFullStop" using w1 [of 0] by simp
  show "same_outside m (m1 m) a n" unfolding same_outside_def using w1 assms(4) ks by auto
  show "mem_write (mem_write (m1 m) (a + of_nat k) (rest m k s)) a [m b] = mem_write m a (mem_read m b n)"
  proof (rule memory_eqI)
    fix d :: nat assume d: "d < 2 ^ 32"
    show "mem_write (mem_write (m1 m) (a + of_nat k) (rest m k s)) a [m b] (a + of_nat d) =
        mem_write m a (mem_read m b n) (a + of_nat d)"
      using mem_write_offset [OF d, of 0 "[m b]" "mem_write (m1 m) (a + of_nat k) (rest m k s)" a]
        mem_write_offset [OF d, of 0 "mem_read m b n" m a] w1 [OF d] w2 [OF d] same [of d] ks assms(4,6) d
      by (cases "d = 0") auto
  qed
  assume m': "\<And>x. m' x = m1 m x \<or> m' x = mem_write (m1 m) (a + of_nat k) (rest m k s) x"
  have "m' (a + of_nat d) = m (a + of_nat d)" if "n \<le> d" "d < 2 ^ 32" for d
    using m' [of "a + of_nat d"] w1 [OF that(2)] w2 [OF that(2)] that ks assms(4) by auto
  moreover have "m' a = kNaClFullStop" using m' [of a] w1 [of 0] w2 [of 0] assms(4) by simp
  ultimately show "same_outside m m' a n \<and> m' a = kNaClFullStop" by (simp add: same_outside_def)
qed

lemma disjoint_read:
  assumes "\<And>i j. i < n \<Longrightarrow> j < n \<Longrightarrow> a + of_nat i \<noteq> b + of_nat j" and "k + s \<le> n" and "0 < n"
  shows "mem_read (mem_write m a [v]) (b + of_nat k) s = mem_read m (b + of_nat k) s"
    and "j < n \<Longrightarrow> mem_write m a [v] (b + of_nat j) = m (b + of_nat j)"
proof -
  show one: "mem_write m a [v] (b + of_nat j) = m (b + of_nat j)" if "j < n" for j
    using assms(1) [of 0 j] assms(3) that by (auto simp: mem_write_def unsigned_eq_0_iff)
  show "mem_read (mem_write m a [v]) (b + of_nat k) s = mem_read m (b + of_nat k) s"
    by (rule mem_read_cong) (use one assms(2) in \<open>simp add: add.assoc flip: of_nat_add\<close>)
qed

lemma slow_copy_copied:
  assumes diff: "differs_within m a b n k s" and s: "0 < s" and n: "n \<le> 255" and ok: "serial_ok os (serial cs)"
    and dis: "\<And>i j. i < n \<Longrightarrow> j < n \<Longrightarrow> a + of_nat i \<noteq> b + of_nat j"
  shows "copied os a b n (m, cs) (slow_copy os a (a + of_nat k) (b + of_nat k) s (m, cs))"
proof -
  have ks: "k + s \<le> n" "0 < n" using diff s by (auto simp: differs_within_def)
  define k2 s2 where "k2 = (if k = 0 then 1 else k)" and "s2 = (if k = 0 then s - 1 else s)"
  have k2: "1 \<le> k2" "k2 + s2 \<le> n" "k2 + s2 = k + s" using ks s by (auto simp: k2_def s2_def)
  have same: "m (a + of_nat j) = m (b + of_nat j)" if "1 \<le> j" "j < n" "j < k2 \<or> k2 + s2 \<le> j" for j
    using diff that k2(3) by (auto simp: differs_within_def k2_def split: if_splits)
  let ?m1 = "mem_write m a [kNaClFullStop]" and ?rest = "mem_read m (b + of_nat k2) s2"
  let ?m2 = "mem_write ?m1 (a + of_nat k2) ?rest"
  have kz: "a + of_nat k = a \<longleftrightarrow> k = 0"
  proof -
    have "unat (of_nat k :: uintptr_t) = k" using ks n by (simp add: unat_of_nat)
    then have "(of_nat k :: uintptr_t) = 0 \<longleftrightarrow> k = 0" by (simp add: unat_0_iff [symmetric] del: unat_0_iff)
    then show ?thesis by simp
  qed
  have fb: "m b = m a \<or> k = 0" using diff ks by (auto simp: differs_within_def)
  obtain ss1 e1 where s1: "serial_ok os ss1" "serialising e1"
    "serialize os (emit (Store a [kNaClFullStop]) (m, cs)) =
      Inr (?m1, cs\<lparr>serial := ss1, copy_events := copy_events cs @ [Store a [kNaClFullStop], e1]\<rparr>)"
    using serialize_ok [of os "emit (Store a [kNaClFullStop]) (m, cs)"] ok by (auto simp: emit_def)
  define cs2 where "cs2 = cs\<lparr>serial := ss1, copy_events := copy_events cs @ [Store a [kNaClFullStop], e1]\<rparr>"
  obtain ss2 e2 where s2: "serial_ok os ss2" "serialising e2"
    "serialize os (emit (Memcpy (a + of_nat k2) ?rest) (?m1, cs2)) = Inr (?m2,
      cs\<lparr>serial := ss2, copy_events := copy_events cs @
        [Store a [kNaClFullStop], e1, Memcpy (a + of_nat k2) ?rest, e2]\<rparr>)"
    using serialize_ok [of os "emit (Memcpy (a + of_nat k2) ?rest) (?m1, cs2)"] s1(1) by (auto simp: emit_def cs2_def)
  let ?evs = "[Store a [kNaClFullStop], e1, Memcpy (a + of_nat k2) ?rest, e2, Store a [m b]]"
  let ?cs' = "cs\<lparr>serial := ss2, copy_events := copy_events cs @ ?evs\<rparr>"
  have rd: "mem_read ?m1 (b + of_nat k2) s2 = ?rest" "?m1 (b + of_nat k) = m (b + of_nat k)"
    using disjoint_read(1) [OF dis k2(2) ks(2)] disjoint_read(2) [OF dis ks, where j = k]
      k2 ks s by simp_all
  have run: "slow_copy os a (a + of_nat k) (b + of_nat k) s (m, cs) = Inr (mem_write ?m2 a [m b], ?cs')"
  proof (cases "k = 0")
    case True
    then have "slow_copy os a (a + of_nat k) (b + of_nat k) s (m, cs) =
        bind_res (serialize os (emit (Memcpy (a + of_nat k2) ?rest) (?m1, cs2))) (\<lambda>s4. Inr (emit (Store a [m b]) s4))"
      using rd by (simp add: slow_copy_def s1(3) k2_def s2_def cs2_def)
    then show ?thesis by (simp add: s2(3)) (simp add: emit_def)
  next
    case False
    then have "slow_copy os a (a + of_nat k) (b + of_nat k) s (m, cs) =
        bind_res (serialize os (emit (Memcpy (a + of_nat k2) ?rest) (?m1, cs2))) (\<lambda>s4. Inr (emit (Store a [m b]) s4))"
      using rd kz fb by (simp add: slow_copy_def s1(3) k2_def s2_def cs2_def)
    then show ?thesis by (simp add: s2(3)) (simp add: emit_def)
  qed
  have w: "\<forall>j < n. 1 \<le> j \<and> (j < k2 \<or> k2 + s2 \<le> j) \<longrightarrow> m (a + of_nat j) = m (b + of_nat j)"
    using same by blast
  note W = slow_path_writes [OF w k2(1,2) n]
  have final: "mem_write ?m2 a [m b] = mem_write m a (mem_read m b n)" by (rule W(1))
  have n32: "n \<le> 2 ^ 32" using n by simp
  have one: "store_atomic a (length [v :: u8])" for v by (simp add: store_atomic_def)
  have "same_outside m m' a n \<and> sees_whole m m' a b n" if f: "fetched m ?evs m'" for m'
  proof -
    have "fetched m [Store a [kNaClFullStop]] m' \<or> fetched ?m1 [Memcpy (a + of_nat k2) ?rest] m' \<or> fetched ?m2 [Store a [m b]] m'"
      using fetched_serialising [of m "[Store a [kNaClFullStop]]" e1 "[Memcpy (a + of_nat k2) ?rest, e2, Store a [m b]]" m']
        fetched_serialising [of ?m1 "[Memcpy (a + of_nat k2) ?rest]" e2 "[Store a [m b]]" m'] f s1(2) s2(2) by auto
    then consider "m' = m" | "m' = ?m1" | "\<And>x. m' x = ?m1 x \<or> m' x = ?m2 x" | "m' = mem_write ?m2 a [m b]"
      using fetched_Store [OF one] fetched_Memcpy by blast
    then show ?thesis
    proof cases
      case 3
      from W(4) [OF this] show ?thesis by (simp add: sees_whole_def)
    next
      case 4
      then show ?thesis using final whole_copy [OF n32, of m a b] by (simp add: sees_whole_def)
    qed (use W(2,3) in \<open>simp_all add: same_outside_def sees_whole_def\<close>)
  qed
  then show ?thesis
    unfolding copied_def using run final s2(1) apply_serialising [OF s1(2)] apply_serialising [OF s2(2)]
    by (intro exI [of _ ?cs'] exI [of _ ?evs]) simp
qed

lemma CopyInstruction_copied:
  fixes dbo dbn :: "NCDecoderState list"
  defines "a \<equiv> \<lambda>cur. maddr (inst (dbo ! cur))" and "b \<equiv> \<lambda>cur. maddr (inst (dbn ! cur))"
  assumes len: "inst_length (inst (dbn ! curn)) = inst_length (inst (dbo ! curo))"
    and n: "n = unat (inst_length (inst (dbo ! curo)))" and ok: "serial_ok os (serial cs)"
    and dis: "\<And>i j. i < n \<Longrightarrow> j < n \<Longrightarrow> a curo + of_nat i \<noteq> b curn + of_nat j"
  shows "copied os (a curo) (b curn) n (m, cs) (CopyInstruction os dbo curo dbn curn (m, cs))"
proof -
  let ?a = "a curo" and ?b = "b curn"
  have n255: "n \<le> 255" "n \<le> 2 ^ 32" proof -
    have "n < 2 ^ 8" unfolding n by (rule order_less_le_trans [OF unsigned_less]) simp
    then show "n \<le> 255" "n \<le> 2 ^ 32" by simp_all
  qed
  obtain dst src sz1 where sk: "skip_same m ?a ?b n = (dst, src, sz1)" by (metis prod_cases3)
  have cp: "CopyInstruction os dbo curo dbn curn (m, cs) =
     (if sz1 = 0 then Inr (m, cs)
      else let sz = trim_same m dst src sz1 in
        if sz = 1 then Inr (emit (Store dst [m src]) (m, cs))
        else case IsTrustedWrite dst sz 4 of Some off \<Rightarrow> one_store 4 off dst src sz (m, cs)
        | None \<Rightarrow> (case IsTrustedWrite dst sz 8 of Some off \<Rightarrow> one_store 8 off dst src sz (m, cs)
                  | None \<Rightarrow> slow_copy os ?a dst src sz (m, cs)))"
    using sk len unfolding a_def b_def n by (simp add: CopyInstruction_def Let_def)
  show ?thesis
  proof (cases "sz1 = 0")
    case True
    then obtain k where "k = n" "\<forall>j < k. m (?a + of_nat j) = m (?b + of_nat j)"
      using skip_same_spec [OF sk] by auto
    then have "mem_write m ?a (mem_read m ?b n) = m"
      using write_difference [of m ?a ?b n n 0] n255 by (simp add: differs_within_def mem_read_def mem_write_def)
    then show ?thesis unfolding copied_def using True cp ok
      by (intro exI [of _ cs] exI [of _ "[]"]) (auto simp: same_outside_def sees_whole_def dest: fetched_none)
  next
    case False
    then obtain k where k: "dst = ?a + of_nat k" "src = ?b + of_nat k"
      "differs_within m ?a ?b n k (trim_same m dst src sz1)" "0 < trim_same m dst src sz1"
      using differs_within_trim [OF sk] by blast
    let ?sz = "trim_same m dst src sz1"
    note one = one_store_copied [OF k(3) n255(2) ok]
    consider "?sz = 1" | off where "?sz \<noteq> 1" "IsTrustedWrite dst ?sz 4 = Some off"
      | off where "?sz \<noteq> 1" "IsTrustedWrite dst ?sz 4 = None" "IsTrustedWrite dst ?sz 8 = Some off"
      | "?sz \<noteq> 1" "IsTrustedWrite dst ?sz 4 = None" "IsTrustedWrite dst ?sz 8 = None" by fastforce
    then show ?thesis
    proof cases
      case 1
      have "mem_write m dst [m src] = mem_write m ?a (mem_read m ?b n)"
        using write_difference [OF k(3) n255(2)] 1 k(1,2) by (simp add: mem_read_def)
      from one_event_copied [OF this n255(2) ok] show ?thesis using cp False 1 by (simp add: store_atomic_def)
    next
      case (2 off)
      then show ?thesis
        using one [of off 4] IsTrustedWrite_inside [OF 2(2) k(4)] IsTrustedWrite_atomic [OF 2(2)] cp False k(1,2) by simp
    next
      case (3 off)
      then show ?thesis
        using one [of off 8] IsTrustedWrite_inside [OF 3(3) k(4)] IsTrustedWrite_atomic [OF 3(3)] cp False k(1,2) by simp
    next
      case 4
      then show ?thesis using slow_copy_copied [OF k(3,4) n255(1) ok dis] cp False k(1,2) by simp
    qed
  qed
qed

section \<open>Decoding again what was decoded before\<close>

text \<open>The slot of the ring an instruction is decoded in does not matter.\<close>

lemma prefix_loop_slot:
  "prefix_loop dt m n (ms\<lparr>dbindex := d\<rparr>) = (prefix_loop dt m n ms)\<lparr>dbindex := d\<rparr>"
proof (induction n arbitrary: ms)
  case (Suc n)
  have "consume_prefix p (ms\<lparr>dbindex := d\<rparr>) = (consume_prefix p ms)\<lparr>dbindex := d\<rparr>" for p
    by (simp add: consume_prefix_def)
  then show ?case using Suc.IH by (simp add: Let_def)
qed simp

lemma ConsumeOpcodeBytes_slot:
  "ConsumeOpcodeBytes cb dt m (ms\<lparr>dbindex := d\<rparr>) v = map_sum id (map_prod (dbindex_update (\<lambda>_. d)) id) (ConsumeOpcodeBytes cb dt m ms v)"
proof -
  show ?thesis
    by (cases ms) (simp add: ConsumeOpcodeBytes_def Let_def set_opcode_def GetExtendedOpInfo_def split: prod.split option.split)
qed

lemma modrm_addressing_slot:
  "modrm_addressing cb mb (ms\<lparr>dbindex := d\<rparr>) v = map_prod (dbindex_update (\<lambda>_. d)) id (modrm_addressing cb mb ms v)"
  by (simp add: modrm_addressing_def set_disp_def split: option.splits)

lemma modrm_opcode_extension_slot:
  "modrm_opcode_extension dt mb op (ms\<lparr>dbindex := d\<rparr>) = map_sum id (dbindex_update (\<lambda>_. d)) (modrm_opcode_extension dt mb op ms)"
  by (simp add: modrm_opcode_extension_def Let_def)

lemma GetX87OpInfo_slot:
  "GetX87OpInfo cb dt m (ms\<lparr>dbindex := d\<rparr>) v = map_prod (dbindex_update (\<lambda>_. d)) id (GetX87OpInfo cb dt m ms v)"
  by (simp add: GetX87OpInfo_def Let_def)

lemma ConsumeModRM_slot:
  "ConsumeModRM cb dt m (ms\<lparr>dbindex := d\<rparr>) v = map_sum id (map_prod (dbindex_update (\<lambda>_. d)) id) (ConsumeModRM cb dt m ms v)"
proof (cases "opinfo ms")
  case (Some op)
  let ?u = "dbindex_update (\<lambda>_. d)"
  have cont: "bind_res (map_sum id ?u r) (\<lambda>ms3. Inr (modrm_addressing cb mb ms3 w)) =
        map_sum id (map_prod ?u id) (bind_res r (\<lambda>ms3. Inr (modrm_addressing cb mb ms3 w)))" for r mb w
    by (cases r) (simp_all add: modrm_addressing_slot)
  define ms1 where "ms1 = ms\<lparr>inst := (inst ms)\<lparr>mrm := m (nextbyte ms)\<rparr>, nextbyte := nextbyte ms + 1\<rparr>"
  have ms1': "ms\<lparr>dbindex := d, inst := (inst ms)\<lparr>mrm := m (nextbyte ms)\<rparr>, nextbyte := nextbyte ms + 1\<rparr> = ?u ms1"
    by (simp add: ms1_def)
  obtain ms2 v2 where g: "(if insttype op = NACLi_X87 then GetX87OpInfo cb dt m ms1 v else (ms1, v)) = (ms2, v2)" by fastforce
  then have g': "(if insttype op = NACLi_X87 then GetX87OpInfo cb dt m (?u ms1) v else (?u ms1, v)) = (?u ms2, v2)"
    by (auto simp: GetX87OpInfo_slot split: if_splits)
  define rest where "rest p = (case p of (ms2, v2) \<Rightarrow> case opinfo ms2 of None \<Rightarrow> Inl NullDeref
      | Some op2 \<Rightarrow> bind_res (modrm_opcode_extension dt (m (nextbyte ms)) op2 ms2)
          (\<lambda>ms3. Inr (modrm_addressing cb (m (nextbyte ms)) ms3 v2)))" for p
  have 1: "ConsumeModRM cb dt m ms v = (if hasmrmbyte op = 0 then Inr (ms, v) else rest (ms2, v2))"
    unfolding g [symmetric] by (simp add: ConsumeModRM_def Some rest_def Let_def ms1_def)
  have 2: "ConsumeModRM cb dt m (?u ms) v = (if hasmrmbyte op = 0 then Inr (?u ms, v) else rest (?u ms2, v2))"
    unfolding g' [symmetric] by (simp add: ConsumeModRM_def Some rest_def Let_def ms1')
  have "rest (?u ms2, v2) = map_sum id (map_prod ?u id) (rest (ms2, v2))"
    by (simp add: rest_def modrm_opcode_extension_slot cont split: option.splits)
  then show ?thesis unfolding 1 2 by simp
qed (simp add: ConsumeModRM_def)

lemma ConsumeSIB_slot:
  "ConsumeSIB cb m (ms\<lparr>dbindex := d\<rparr>) v = map_prod (dbindex_update (\<lambda>_. d)) id (ConsumeSIB cb m ms v)"
  by (simp add: ConsumeSIB_def Let_def)

lemma ConsumeID_slot:
  "ConsumeID cb (ms\<lparr>dbindex := d\<rparr>) v = map_prod (dbindex_update (\<lambda>_. d)) id (ConsumeID cb ms v)"
  by (simp add: ConsumeID_def Let_def imm_size_def ExtractOperandSize_def)

lemma MaybeGet3ByteOpInfo_slot:
  "MaybeGet3ByteOpInfo dt m (ms\<lparr>dbindex := d\<rparr>) = map_sum id (dbindex_update (\<lambda>_. d)) (MaybeGet3ByteOpInfo dt m ms)"
  by (simp add: MaybeGet3ByteOpInfo_def Let_def split: option.splits)

lemma ConsumeNextInstruction_slot:
  assumes "ConsumeNextInstruction cb dt m ms v = Inr (pc, ms', v')"
  shows "ConsumeNextInstruction cb dt m (ms\<lparr>dbindex := d\<rparr>) v = Inr (pc, ms'\<lparr>dbindex := d\<rparr>, v')"
proof -
  from assms obtain ms2 v2 ms3 v3 ms4 v4 ms5 where st:
    "ConsumeOpcodeBytes cb dt m (ConsumePrefixBytes dt m (InitDecoder ms)) v = Inr (ms2, v2)"
    "ConsumeModRM cb dt m ms2 v2 = Inr (ms3, v3)" "ConsumeSIB cb m ms3 v3 = (ms4, v4)"
    "ConsumeID cb ms4 v4 = (ms5, v')" "MaybeGet3ByteOpInfo dt m ms5 = Inr ms'"
    "pc = vpc ms' + ucast (inst_length (inst ms'))"
    by (rule ConsumeNextInstruction_stages)
  have "InitDecoder (ms\<lparr>dbindex := d\<rparr>) = (InitDecoder ms)\<lparr>dbindex := d\<rparr>" by (simp add: InitDecoder_def)
  then show ?thesis
    using st by (simp add: ConsumeNextInstruction_def ConsumePrefixBytes_def prefix_loop_slot ConsumeOpcodeBytes_slot
        ConsumeModRM_slot ConsumeSIB_slot ConsumeID_slot MaybeGet3ByteOpInfo_slot)
qed

context decoder_client
begin

lemma ConsumeNextInstruction_map:
  "ConsumeNextInstruction cb' dt m ms (h v) = map_sum id (map_prod id (map_prod id h)) (ConsumeNextInstruction cb dt m ms v)"
proof (cases "ConsumeNextInstruction cb dt m ms v")
  case (Inr r)
  then show ?thesis using ConsumeNextInstruction_hom by (cases r) auto
next
  case (Inl e)
  let ?ms1 = "ConsumePrefixBytes dt m (InitDecoder ms)"
  show ?thesis
  proof (cases "ConsumeOpcodeBytes cb dt m ?ms1 v")
    case r2: (Inr r)
    obtain ms2 v2 where r: "r = (ms2, v2)" by fastforce
    show ?thesis
    proof (cases "ConsumeModRM cb dt m ms2 v2")
      case r3: (Inr q)
      obtain ms3 v3 where q: "q = (ms3, v3)" by fastforce
      obtain ms4 v4 where r4: "ConsumeSIB cb m ms3 v3 = (ms4, v4)" by fastforce
      obtain ms5 v5 where r5: "ConsumeID cb ms4 v4 = (ms5, v5)" by fastforce
      then show ?thesis
        using Inl r2 r r3 q r4 ConsumeOpcodeBytes_hom [of dt m ?ms1 v] ConsumeModRM_hom [of dt m ms2 v2]
          ConsumeSIB_hom [of m ms3 v3] ConsumeID_hom [of ms4 v4]
        by (cases "MaybeGet3ByteOpInfo dt m ms5") (simp_all add: ConsumeNextInstruction_def)
    qed (use Inl r2 r ConsumeOpcodeBytes_hom [of dt m ?ms1 v] ConsumeModRM_hom [of dt m ms2 v2]
        in \<open>simp add: ConsumeNextInstruction_def\<close>)
  qed (use Inl ConsumeOpcodeBytes_hom [of dt m ?ms1 v] in \<open>simp add: ConsumeNextInstruction_def\<close>)
qed

end

interpretation cq: decoder_client copy_callbacks quiet_client "\<lambda>cs. failed (copy_vstate cs)"
  by unfold_locales (simp add: copy_callbacks_def quiet_client_def)

interpretation ce: client_invariant copy_callbacks "\<lambda>cs. cs = cs0 \<or> failed (copy_vstate cs)" for cs0
  by unfold_locales (simp add: copy_callbacks_def)

lemma decodes_to_agree:
  assumes "decodes_to dt m i" and "mem_agree m m' (mpc i) 20"
  shows "decodes_to dt m' i"
  using assms ConsumeNextInstruction_cong [of "i\<lparr>nextbyte := mpc i\<rparr>" m m' quiet_client dt False]
  by (simp add: decodes_to_def)

lemma copy_consumes:
  assumes "decodes_to dt m i" and "nextbyte ms = mpc ms" and "mpc ms = mpc i" and "vpc ms = vpc i"
    and "\<not> failed (copy_vstate cs)"
  shows "ConsumeNextInstruction copy_callbacks dt m ms cs =
           Inr (vpc i + ucast (inst_length (inst i)), i\<lparr>dbindex := dbindex ms\<rparr>, cs)"
proof -
  have "InitDecoder (i\<lparr>nextbyte := mpc i, dbindex := dbindex ms\<rparr>) = InitDecoder ms"
    using assms(2-4) by (intro InitDecoder_eq) simp_all
  then have q: "ConsumeNextInstruction quiet_client dt m ms False =
      Inr (vpc i + ucast (inst_length (inst i)), i\<lparr>dbindex := dbindex ms\<rparr>, False)"
    using ConsumeNextInstruction_slot [OF assms(1) [unfolded decodes_to_def], of "dbindex ms"]
    by (simp add: ConsumeNextInstruction_def)
  then obtain cs' where r: "ConsumeNextInstruction copy_callbacks dt m ms cs =
      Inr (vpc i + ucast (inst_length (inst i)), i\<lparr>dbindex := dbindex ms\<rparr>, cs')" "\<not> failed (copy_vstate cs')"
    using cq.ConsumeNextInstruction_map [of dt m ms cs] assms(5)
    by (cases "ConsumeNextInstruction copy_callbacks dt m ms cs") auto
  then show ?thesis using ce.ConsumeNextInstruction_keeps [OF r(1), of cs] by simp
qed

section \<open>Copying a whole segment\<close>

lemma same_outside_iff: "same_outside m m' a n \<longleftrightarrow> (\<forall>x. n \<le> unat (x - a) \<longrightarrow> m' x = m x)"
proof
  assume s: "same_outside m m' a n"
  show "\<forall>x. n \<le> unat (x - a) \<longrightarrow> m' x = m x"
  proof (intro allI impI)
    fix x assume "n \<le> unat (x - a)"
    then have "m' (a + of_nat (unat (x - a))) = m (a + of_nat (unat (x - a)))"
      using s unat_lt_size_t [of "x - a"] unfolding same_outside_def by fastforce
    then show "m' x = m x" by simp
  qed
next
  assume s: "\<forall>x. n \<le> unat (x - a) \<longrightarrow> m' x = m x"
  have "unat (of_nat d :: uintptr_t) = d" if "d < 2 ^ 32" for d using that by (simp only: unat_of_nat) simp
  then show "same_outside m m' a n" unfolding same_outside_def using s by simp
qed

text \<open>Every instruction of the old code is seen whole.\<close>

definition all_whole :: "memory \<Rightarrow> memory \<Rightarrow> NCDecoderState list \<Rightarrow> NCDecoderState list \<Rightarrow> bool" where
  "all_whole m m' old new \<longleftrightarrow>
     list_all2 (\<lambda>i j. sees_whole m m' (maddr (inst i)) (maddr (inst j)) (unat (inst_length (inst i)))) old new"

text \<open>The two segments, with the bytes the decoder may look at past their ends, do not overlap.\<close>

definition separate :: "uintptr_t \<Rightarrow> uintptr_t \<Rightarrow> nat \<Rightarrow> bool" where
  "separate a b n \<longleftrightarrow> n + 20 < 2 ^ 32 \<and> (\<forall>i < n. \<forall>j < n + 20. a + of_nat i \<noteq> b + of_nat j)"

lemma separate_outside:
  assumes "separate a b n" and "j < n + 20"
  shows "n \<le> unat (b + of_nat j - a)"
proof (rule ccontr)
  assume "\<not> n \<le> unat (b + of_nat j - a)"
  then have "unat (b + of_nat j - a) < n" by simp
  moreover have "a + of_nat (unat (b + of_nat j - a)) = b + of_nat j" by simp
  ultimately show False using assms unfolding separate_def by metis
qed

lemma separate_suffix:
  assumes "separate a b n" and "k \<le> n"
  shows "separate (a + of_nat k) (b + of_nat k) (n - k)"
proof -
  have "a + of_nat (k + i) \<noteq> b + of_nat (k + j)" if "i < n - k" "j < n - k + 20" for i j
  proof -
    have "k + i < n" "k + j < n + 20" using that assms(2) by simp_all
    then show ?thesis using assms(1) unfolding separate_def by blast
  qed
  moreover have "n - k + 20 < 2 ^ 32" using assms(1) unfolding separate_def by linarith
  ultimately show ?thesis by (simp add: separate_def add.assoc)
qed

lemma mem_write_append:
  assumes "length xs + length ys \<le> 2 ^ 32"
  shows "mem_write (mem_write m a xs) (a + of_nat (length xs)) ys = mem_write m a (xs @ ys)"
proof (rule memory_eqI)
  fix d :: nat assume d: "d < 2 ^ 32"
  show "mem_write (mem_write m a xs) (a + of_nat (length xs)) ys (a + of_nat d) = mem_write m a (xs @ ys) (a + of_nat d)"
    using mem_write_offset [OF d, of "length xs" ys "mem_write m a xs" a] mem_write_offset [OF d, of 0 xs m a]
      mem_write_offset [OF d, of 0 "xs @ ys" m a] assms by (auto simp: nth_append)
qed

lemma mem_read_append: "mem_read m b (n + r) = mem_read m b n @ mem_read m (b + of_nat n) r"
proof (rule nth_equalityI)
  fix k assume k: "k < length (mem_read m b (n + r))"
  show "mem_read m b (n + r) ! k = (mem_read m b n @ mem_read m (b + of_nat n) r) ! k"
  proof (cases "k < n")
    case False
    then have "of_nat n + of_nat (k - n) = (of_nat k :: uintptr_t)" by (simp flip: of_nat_add)
    then show ?thesis using k False by (simp add: nth_append add.assoc)
  qed (use k in \<open>simp add: nth_append\<close>)
qed simp

lemma code_chain_mpc: "code_chain a p is a' p' \<Longrightarrow> i \<in> set is \<Longrightarrow> mpc i = maddr (inst i)"
  by (induction "is" arbitrary: a p) (auto simp: decoded_at_def)

lemma code_len_Cons: "code_len (i # is) = unat (inst_length (inst i)) + code_len is"
  by (simp add: code_len_def)

text \<open>The outcome of the copy of the instructions \<open>old\<close> by \<open>new\<close>.\<close>

definition copied_all ::
    "serial_env \<Rightarrow> uintptr_t \<Rightarrow> uintptr_t \<Rightarrow> NCDecoderState list \<Rightarrow> NCDecoderState list \<Rightarrow> memory \<times> copy_state
      \<Rightarrow> memory \<times> copy_state \<Rightarrow> bool" where
  "copied_all os a b old new s s' \<longleftrightarrow>
     (\<exists>evs. fst s' = mem_write (fst s) a (mem_read (fst s) b (code_len old)) \<and>
        copy_events (snd s') = copy_events (snd s) @ evs \<and> foldl apply_event (fst s) evs = fst s' \<and>
        (\<forall>m'. fetched (fst s) evs m' \<longrightarrow> same_outside (fst s) m' a (code_len old) \<and> all_whole (fst s) m' old new) \<and>
        serial_ok os (serial (snd s')) \<and> copy_vstate (snd s') = copy_vstate (snd s))"

text \<open>One instruction copied and then the rest: what is fetched of both together.\<close>

lemma all_whole_cong:
  assumes "all_whole m1 m' old new"
    and "\<And>i k. i \<in> set old \<Longrightarrow> k < unat (inst_length (inst i)) \<Longrightarrow> m1 (maddr (inst i) + of_nat k) = m (maddr (inst i) + of_nat k)"
    and "\<And>i j k. (i, j) \<in> set (zip old new) \<Longrightarrow> k < unat (inst_length (inst i)) \<Longrightarrow> m1 (maddr (inst j) + of_nat k) = m (maddr (inst j) + of_nat k)"
  shows "all_whole m m' old new"
proof -
  have len: "length old = length new" using assms(1) by (simp add: all_whole_def list_all2_lengthD)
  have "sees_whole m m' (maddr (inst i)) (maddr (inst j)) (unat (inst_length (inst i)))" if z: "(i, j) \<in> set (zip old new)" for i j
  proof -
    let ?n = "unat (inst_length (inst i))"
    have "i \<in> set old" using z by (rule set_zip_leftD)
    then have "mem_read m1 (maddr (inst i)) ?n = mem_read m (maddr (inst i)) ?n"
      "mem_read m1 (maddr (inst j)) ?n = mem_read m (maddr (inst j)) ?n"
      using assms(2) [of i] assms(3) [OF z] by (auto intro!: mem_read_cong)
    moreover have "sees_whole m1 m' (maddr (inst i)) (maddr (inst j)) ?n"
      using assms(1) z unfolding all_whole_def list_all2_iff by blast
    ultimately show ?thesis by (simp add: sees_whole_def)
  qed
  then show ?thesis using len by (auto simp: all_whole_def list_all2_iff)
qed

lemma all_whole_seen:
  assumes "all_whole m m1 old new"
    and "\<And>i k. i \<in> set old \<Longrightarrow> k < unat (inst_length (inst i)) \<Longrightarrow> m' (maddr (inst i) + of_nat k) = m1 (maddr (inst i) + of_nat k)"
  shows "all_whole m m' old new"
proof -
  have seen: "sees_whole m m' (maddr (inst i)) b (unat (inst_length (inst i)))"
    if "i \<in> set old" "sees_whole m m1 (maddr (inst i)) b (unat (inst_length (inst i)))" for i b
  proof -
    let ?n = "unat (inst_length (inst i))"
    have "mem_read m' (maddr (inst i)) ?n = mem_read m1 (maddr (inst i)) ?n"
      using assms(2) [OF that(1)] by (intro mem_read_cong) simp
    moreover have "m' (maddr (inst i)) = m1 (maddr (inst i))" if "0 < ?n" using assms(2) [OF \<open>i \<in> set old\<close> that] by simp
    ultimately show ?thesis using that(2) by (cases "?n = 0") (auto simp: sees_whole_def mem_read_def)
  qed
  show ?thesis using assms(1) unfolding all_whole_def by (rule list.rel_mono_strong) (rule seen)
qed

lemma copied_then_rest:
  fixes a b :: uintptr_t
  defines "ilen \<equiv> \<lambda>i. unat (inst_length (inst i))"
  assumes first: "copied os a b (ilen i) (m, cs) (Inr (m1, cs1))"
    and rest: "copied_all os (a + of_nat (ilen i)) (b + of_nat (ilen i)) old new (m1, cs1) (m2, cs2)"
    and sep: "separate a b (ilen i + code_len old)" and addr: "maddr (inst i) = a" "maddr (inst j) = b"
    and chains: "code_chain (a + of_nat (ilen i)) p old a' p'" "code_chain (b + of_nat (ilen i)) p new b' p'"
    and lens: "map (\<lambda>i. inst_length (inst i)) old = map (\<lambda>i. inst_length (inst i)) new"
  shows "copied_all os a b (i # old) (j # new) (m, cs) (m2, cs2)"
proof -
  let ?n = "ilen i" and ?r = "code_len old"
  let ?a1 = "a + of_nat (ilen i)" and ?b1 = "b + of_nat (ilen i)"
  have N: "?n + ?r + 20 < 2 ^ 32" using sep by (simp add: separate_def)
  have eq: "length old = length new" using lens by (metis length_map)
  have m1: "m1 = mem_write m a (mem_read m b ?n)" using first by (simp add: copied_def)
  obtain ev1 where e1: "copy_events cs1 = copy_events cs @ ev1" "foldl apply_event m ev1 = m1"
    "\<And>m'. fetched m ev1 m' \<Longrightarrow> same_outside m m' a ?n \<and> sees_whole m m' a b ?n"
    using first by (auto simp: copied_def)
  obtain ev2 where e2: "m2 = mem_write m1 ?a1 (mem_read m1 ?b1 ?r)" "copy_events cs2 = copy_events cs1 @ ev2"
    "foldl apply_event m1 ev2 = m2"
    "\<And>m'. fetched m1 ev2 m' \<Longrightarrow> same_outside m1 m' ?a1 ?r \<and> all_whole m1 m' old new"
    and ok2: "serial_ok os (serial cs2)" "copy_vstate cs2 = copy_vstate cs"
    using rest first by (auto simp: copied_all_def copied_def)
  have out1: "same_outside m m1 a ?n" unfolding m1 using N by (intro whole_copy(1)) simp
  have newb: "m1 (b + of_nat k) = m (b + of_nat k)" if "k < ?n + ?r + 20" for k
    using out1 separate_outside [OF sep that] unfolding same_outside_iff by simp
  have "mem_read m1 ?b1 ?r = mem_read m ?b1 ?r"
    by (rule mem_read_cong) (use newb in \<open>simp add: add.assoc flip: of_nat_add\<close>)
  then have fin: "mem_write m1 ?a1 (mem_read m1 ?b1 ?r) = mem_write m a (mem_read m b (?n + ?r))"
    using mem_write_append [of "mem_read m b ?n" "mem_read m ?b1 ?r" m a] N by (simp add: m1 mem_read_append)
  have pos: "\<exists>d. maddr (inst k) = a + of_nat (?n + d) \<and> d + ilen k \<le> ?r" if "k \<in> set old" for k
    using code_chain_offsets [OF chains(1) that] by (auto simp: lies_in_def add.assoc ilen_def)
  have tail_old: "m' (maddr (inst k) + of_nat t) = m (maddr (inst k) + of_nat t)"
    if "same_outside m m' a ?n" "k \<in> set old" "t < ilen k" for m' k t
  proof -
    obtain d where d: "maddr (inst k) = a + of_nat (?n + d)" "d + ilen k \<le> ?r" using pos [OF \<open>k \<in> set old\<close>] by blast
    have "?n + d + t < 2 ^ 32" "?n \<le> ?n + d + t" using d(2) that(3) N by simp_all
    then show ?thesis using that(1) unfolding d(1) same_outside_def by (simp add: add.assoc flip: of_nat_add)
  qed
  have tail_new: "m1 (maddr (inst k') + of_nat t) = m (maddr (inst k') + of_nat t)"
    if zip: "(k, k') \<in> set (zip old new)" and t: "t < ilen k" for k k' t
  proof -
    have "inst_length (inst k) = inst_length (inst k')"
    proof -
      obtain q where "q < length old" "k = old ! q" "k' = new ! q" using zip eq by (auto simp: in_set_zip)
      then show ?thesis using arg_cong [OF lens, of "\<lambda>xs. xs ! q"] eq by simp
    qed
    moreover obtain d where "lies_in ?b1 p (code_len new) k' d"
      using code_chain_offsets [OF chains(2) set_zip_rightD [OF zip]] by blast
    ultimately have "maddr (inst k') = b + of_nat (?n + d)" "d + t < ?r"
      using t code_len_eq [OF lens] by (auto simp: lies_in_def add.assoc ilen_def)
    then show ?thesis using newb [of "?n + d + t"] by (simp add: add.assoc)
  qed
  have vis: "same_outside m m' a (?n + ?r) \<and> all_whole m m' (i # old) (j # new)" if f: "fetched m (ev1 @ ev2) m'" for m'
  proof -
    obtain v w where vw: "fetched m ev1 v" "fetched m1 ev2 w"
      "\<forall>x. m' x = v x \<and> w x = m1 x \<or> m' x = w x \<and> v x = m1 x"
      using fetched_append [OF f] e1(2) by metis
    have v: "same_outside m v a ?n" "sees_whole m v a b ?n" and w: "same_outside m1 w ?a1 ?r" "all_whole m1 w old new"
      using e1(3) [OF vw(1)] e2(4) [OF vw(2)] by blast+
    have w_off: "w (a + of_nat d) = m1 (a + of_nat d)" if "d < ?n \<or> ?n + ?r \<le> d" "d < 2 ^ 32" for d
    proof -
      have "\<not> unat (a + of_nat d - ?a1) < ?r" using unat_offset_less(1) [OF that(2), of ?n ?r a] that(1) N by auto
      then show ?thesis using w(1) unfolding same_outside_iff by simp
    qed
    have v_off: "v (a + of_nat d) = m1 (a + of_nat d)" if "?n \<le> d" "d < 2 ^ 32" for d
      using v(1) out1 that by (simp add: same_outside_def)
    have head: "m' (a + of_nat d) = v (a + of_nat d)" if "d < ?n" for d
      using vw(3) [THEN spec, of "a + of_nat d"] w_off [of d] that N by auto
    have tail: "m' (a + of_nat d) = w (a + of_nat d)" if "?n \<le> d" "d < 2 ^ 32" for d
      using vw(3) [THEN spec, of "a + of_nat d"] v_off [OF that] by auto
    have "mem_read m' a ?n = mem_read v a ?n" using head by (intro mem_read_cong) simp
    moreover have "m' a = v a" if "0 < ?n" using head [OF that] by simp
    ultimately have "sees_whole m m' a b ?n"
      using v(2) by (cases "?n = 0") (auto simp: sees_whole_def mem_read_def)
    moreover have "all_whole m1 m' old new"
      using w(2) by (rule all_whole_seen) (use pos tail N ilen_def in \<open>fastforce simp: add.assoc simp flip: of_nat_add\<close>)
    then have "all_whole m m' old new"
      by (rule all_whole_cong) (use tail_old [OF out1] tail_new ilen_def in auto)
    moreover have "same_outside m m' a (?n + ?r)"
      using tail w_off out1 by (auto simp: same_outside_def)
    ultimately show ?thesis using addr by (simp add: all_whole_def ilen_def)
  qed
  show ?thesis
    unfolding copied_all_def code_len_Cons using e1(1,2) e2(1-3) fin vis ok2
    by (intro exI [of _ "ev1 @ ev2"]) (simp add: ilen_def)
qed

text \<open>What follows the copied instruction still decodes as before.\<close>

lemma rest_decodes:
  assumes same: "same_outside m m1 a n" and sep: "separate a b (n + code_len old)"
    and ci: "code_chain (a + of_nat n) q old a' q'" and cj: "code_chain (b + of_nat n) q new b' q'"
    and lens: "map (\<lambda>i. inst_length (inst i)) old = map (\<lambda>i. inst_length (inst i)) new"
    and k: "k \<in> set old \<union> set new" and dec: "decodes_to dt m k"
  shows "decodes_to dt m1 k"
proof (rule decodes_to_agree [OF dec])
  have N: "n + code_len old + 20 < 2 ^ 32" using sep by (simp add: separate_def)
  show "mem_agree m m1 (mpc k) 20" unfolding mem_agree_def
  proof (intro allI impI)
    fix t :: nat assume t: "t < 20"
    consider d where "mpc k = a + of_nat (n + d)" "d \<le> code_len old" | d where "mpc k = b + of_nat (n + d)" "d \<le> code_len old"
    proof (cases "k \<in> set old")
      case True
      then obtain d where "lies_in (a + of_nat n) q (code_len old) k d" using code_chain_offsets [OF ci] by blast
      then show thesis using that(1) [of d] code_chain_mpc [OF ci True] by (simp add: lies_in_def add.assoc)
    next
      case False
      then have "k \<in> set new" using k by simp
      moreover from this obtain d where "lies_in (b + of_nat n) q (code_len new) k d" using code_chain_offsets [OF cj] by blast
      ultimately show thesis using that(2) [of d] code_chain_mpc [OF cj] code_len_eq [OF lens] by (simp add: lies_in_def add.assoc)
    qed
    then show "m (mpc k + of_nat t) = m1 (mpc k + of_nat t)"
    proof cases
      case (1 d)
      have "n \<le> n + d + t" "n + d + t < 2 ^ 32" using 1(2) t N by simp_all
      then show ?thesis using same unfolding same_outside_def 1(1) by (simp add: add.assoc flip: of_nat_add)
    next
      case (2 d)
      have "n \<le> unat (b + of_nat (n + d + t) - a)"
        using separate_outside [OF sep, of "n + d + t"] 2(2) t by simp
      then show ?thesis using same unfolding same_outside_iff 2(1) by (simp add: add.assoc)
    qed
  qed
qed

text \<open>One round of the loop copies one instruction.\<close>

lemma copy_round:
  assumes ring: "ring_at dbo curo" "ring_at dbn curn"
    and at: "mpc (dbo ! curo) = a" "vpc (dbo ! curo) = p" "mpc (dbn ! curn) = b" "vpc (dbn ! curn) = p"
    and di: "decoded_at a p i" and dj: "decoded_at b p j" and lij: "inst_length (inst j) = inst_length (inst i)"
    and dec: "decodes_to dt m i" "decodes_to dt m j" and n: "n = unat (inst_length (inst i))"
    and sep: "separate a b (n + r)" and fit: "unat p + n \<le> unat vlimit"
    and ok: "serial_ok os (serial cs)" "\<not> failed (copy_vstate cs)"
  obtains io jn m1 cs1 dbo2 curo2 dbn2 curn2 where
    "pair_round copy_callbacks dt (CopyInstruction os) vlimit dbo curo dbn curn m cs io cs jn cs dbo2 curo2 dbn2 curn2 m1 cs1"
    "copied os a b n (m, cs) (Inr (m1, cs1))" "inst io = inst i" "inst jn = inst j"
proof -
  define io jn where "io = i\<lparr>dbindex := dbindex (dbo ! curo)\<rparr>" and "jn = j\<lparr>dbindex := dbindex (dbn ! curn)\<rparr>"
  have nb: "nextbyte (dbo ! curo) = mpc (dbo ! curo)" "nextbyte (dbn ! curn) = mpc (dbn ! curn)"
    using ring by (simp_all add: ring_at_def)
  have pcs: "mpc (dbo ! curo) = mpc i" "vpc (dbo ! curo) = vpc i" "mpc (dbn ! curn) = mpc j" "vpc (dbn ! curn) = vpc j"
    and vij: "vpc i = p" "vpc j = p" and addr: "maddr (inst i) = a" "maddr (inst j) = b" and n1: "1 \<le> n"
    using di dj at n by (simp_all add: decoded_at_def)
  have co: "ConsumeNextInstruction copy_callbacks dt m (dbo ! curo) cs = Inr (p + ucast (inst_length (inst i)), io, cs)"
    unfolding copy_consumes [OF dec(1) nb(1) pcs(1,2) ok(2)] io_def vij ..
  have cn: "ConsumeNextInstruction copy_callbacks dt m (dbn ! curn) cs = Inr (p + ucast (inst_length (inst i)), jn, cs)"
    unfolding copy_consumes [OF dec(2) nb(2) pcs(3,4) ok(2)] jn_def vij lij ..
  have cur: "dbo[curo := io] ! curo = io" "dbn[curn := jn] ! curn = jn" using ring by (simp_all add: ring_at_def ring_ok_def)
  have f: "inst (dbo[curo := io] ! curo) = inst i" "inst (dbn[curn := jn] ! curn) = inst j"
    unfolding cur by (simp_all add: io_def jn_def)
  have "a + of_nat d \<noteq> b + of_nat e" if "d < n" "e < n" for d e
  proof -
    have "d < n + r" "e < n + r + 20" using that by simp_all
    then show ?thesis using sep unfolding separate_def by blast
  qed
  with CopyInstruction_copied [of "dbn[curn := jn]" curn "dbo[curo := io]" curo n os cs m, unfolded f addr, OF lij n ok(1)]
  have "copied os a b n (m, cs) (CopyInstruction os (dbo[curo := io]) curo (dbn[curn := jn]) curn (m, cs))" by blast
  then obtain m1 cs1 where cp: "copied os a b n (m, cs) (Inr (m1, cs1))"
    and act: "CopyInstruction os (dbo[curo := io]) curo (dbn[curn := jn]) curn (m, cs) = Inr (m1, cs1)"
    by (auto simp: copied_def)
  obtain dbo2 curo2 dbn2 curn2 where inc: "IncrementDecodeBuffer (dbo[curo := io]) curo = (dbo2, curo2)"
    "IncrementDecodeBuffer (dbn[curn := jn]) curn = (dbn2, curn2)" by fastforce
  have u: "(ucast (inst_length (inst i)) :: u32) = of_nat n" unfolding n by (rule of_nat_unat [symmetric])
  have un: "unat (of_nat n :: u32) = n" using fit unat_lt_size_t [of vlimit] by (simp only: unat_of_nat) simp
  have "unat (p + of_nat n) = unat p + n"
    using unat_add_no_wrap [of p "of_nat n"] un fit unat_lt_size_t [of vlimit] by simp
  then have "p < vlimit" "p + of_nat n \<le> vlimit" using fit n1 by (simp_all add: word_less_nat_alt word_le_nat_alt)
  then have "pair_round copy_callbacks dt (CopyInstruction os) vlimit dbo curo dbn curn m cs io cs jn cs dbo2 curo2 dbn2 curn2 m1 cs1"
    unfolding pair_round_def u [symmetric] using at co cn act inc by simp
  then show thesis using that cp by (simp add: io_def jn_def)
qed

text \<open>
  The loop after it has copied the instructions \<open>old\<close>: it goes on from the state behind them.
\<close>

definition copied_to ::
    "serial_env \<Rightarrow> DecodeTables \<Rightarrow> NaClPcAddress \<Rightarrow> uintptr_t \<Rightarrow> uintptr_t \<Rightarrow> NCDecoderState list \<Rightarrow> NCDecoderState list
      \<Rightarrow> memory \<times> copy_state \<Rightarrow> (memory \<times> copy_state) res option \<Rightarrow> uintptr_t \<Rightarrow> uintptr_t \<Rightarrow> NaClPcAddress \<Rightarrow> bool" where
  "copied_to os dt vlimit a b old new s r a' b' q \<longleftrightarrow>
     (\<exists>dbo curo dbn curn m' cs'.
        r = decode_pair_loop copy_callbacks dt (CopyInstruction os) vlimit dbo curo dbn curn m' cs' \<and>
        ring_at dbo curo \<and> ring_at dbn curn \<and> mpc (dbo ! curo) = a' \<and> vpc (dbo ! curo) = q \<and>
        mpc (dbn ! curn) = b' \<and> vpc (dbn ! curn) = q \<and> copied_all os a b old new s (m', cs'))"

lemma copy_loop:
  assumes "ring_at dbo curo" and "ring_at dbn curn"
    and "mpc (dbo ! curo) = a" "vpc (dbo ! curo) = p" and "mpc (dbn ! curn) = b" "vpc (dbn ! curn) = p"
    and "code_chain a p old a' q" and "code_chain b p new b' q"
    and "map (\<lambda>i. inst_length (inst i)) old = map (\<lambda>i. inst_length (inst i)) new"
    and "\<forall>i \<in> set old \<union> set new. decodes_to dt m i"
    and "separate a b (code_len old)" and "unat p + code_len old \<le> unat vlimit" and "unat vlimit + 19 < 2 ^ 32"
    and "serial_ok os (serial cs)" and "\<not> failed (copy_vstate cs)"
  shows "copied_to os dt vlimit a b old new (m, cs)
           (decode_pair_loop copy_callbacks dt (CopyInstruction os) vlimit dbo curo dbn curn m cs) a' b' q"
  using assms
proof (induction old arbitrary: new dbo curo dbn curn a p b m cs)
  case Nil
  then have new: "new = []" by simp
  then have "copied_all os a b [] new (m, cs) (m, cs)" using Nil.prems(14)
    by (auto simp: copied_all_def code_len_def mem_read_def mem_write_def same_outside_def all_whole_def dest: fetched_none)
  then show ?case unfolding copied_to_def using Nil.prems(1-8) new by fastforce
next
  case (Cons i old)
  note ring = Cons.prems(1,2) and at = Cons.prems(3-6)
  obtain j new' where new: "new = j # new'" using Cons.prems(9) by (cases new) auto
  define n where "n = unat (inst_length (inst i))"
  have lij: "inst_length (inst j) = inst_length (inst i)" using Cons.prems(9) new by simp
  have u: "(ucast (inst_length (inst i)) :: u32) = of_nat n" unfolding n_def by (rule of_nat_unat [symmetric])
  have di: "decoded_at a p i" and ci: "code_chain (a + of_nat n) (p + of_nat n) old a' q"
    using Cons.prems(7) unfolding code_chain.simps u by blast+
  have dj: "decoded_at b p j" and cj: "code_chain (b + of_nat n) (p + of_nat n) new' b' q"
    using Cons.prems(8) unfolding new code_chain.simps lij u by blast+
  have sep: "separate a b (n + code_len old)" using Cons.prems(11) by (simp add: code_len_Cons n_def)
  have N: "n + code_len old + 20 < 2 ^ 32" "unat p + n + code_len old \<le> unat vlimit"
    using sep Cons.prems(12) by (simp_all add: separate_def code_len_Cons n_def)
  have dec0: "decodes_to dt m i" "decodes_to dt m j" and fit: "unat p + n \<le> unat vlimit"
    using Cons.prems(10) new N(2) by auto
  obtain io jn m1 cs1 dbo2 curo2 dbn2 curn2 where
    round: "pair_round copy_callbacks dt (CopyInstruction os) vlimit dbo curo dbn curn m cs io cs jn cs dbo2 curo2 dbn2 curn2 m1 cs1"
    and cp: "copied os a b n (m, cs) (Inr (m1, cs1))" and ij: "inst io = inst i" "inst jn = inst j"
    by (rule copy_round [OF ring at di dj lij dec0 n_def sep fit Cons.prems(14,15)])
  note pr = pair_round_progress [OF ring Cons.prems(13) round]
  have m1: "same_outside m m1 a n" "serial_ok os (serial cs1)" "\<not> failed (copy_vstate cs1)"
    using cp whole_copy(1) [of n m a b] N(1) Cons.prems(15) by (auto simp: copied_def)
  have lens: "map (\<lambda>i. inst_length (inst i)) old = map (\<lambda>i. inst_length (inst i)) new'" using Cons.prems(9) new by simp
  have "copied_to os dt vlimit (a + of_nat n) (b + of_nat n) old new' (m1, cs1)
      (decode_pair_loop copy_callbacks dt (CopyInstruction os) vlimit dbo2 curo2 dbn2 curn2 m1 cs1) a' b' q"
  proof (rule Cons.IH [OF pr(1,2) _ _ _ _ ci cj lens _ _ _ Cons.prems(13) m1(2,3)])
    show "mpc (dbo2 ! curo2) = a + of_nat n" "vpc (dbo2 ! curo2) = p + of_nat n" "mpc (dbn2 ! curn2) = b + of_nat n"
      "vpc (dbn2 ! curn2) = p + of_nat n"
      using pr(7,8,10,13) at lij ij by (simp_all add: n_def)
    show "\<forall>k \<in> set old \<union> set new'. decodes_to dt m1 k"
      using rest_decodes [OF m1(1) sep ci cj lens] Cons.prems(10) new by auto
    show "separate (a + of_nat n) (b + of_nat n) (code_len old)" using separate_suffix [OF sep, of n] by simp
    show "unat (p + of_nat n) + code_len old \<le> unat vlimit"
      using unat_add_no_wrap [of p "of_nat n"] N Cons.prems(13) by (simp add: unat_of_nat)
  qed
  moreover have "maddr (inst i) = a" "maddr (inst j) = b" using di dj by (simp_all add: decoded_at_def)
  ultimately show ?case
    using copied_then_rest [OF cp [unfolded n_def]] sep ci cj lens
    unfolding new pair_round_step [OF round] n_def copied_to_def by blast
qed

text \<open>The loop of \<open>NCCopyCode\<close> from the start of the segments.\<close>

lemma NCCopyCode_loop:
  assumes init: "NCValidateInit env vbase (vbase + sz) (ucast bsize) = Some vs0"
    and "code_chain dst vbase old a' q" and "code_chain src vbase new b' q"
    and "map (\<lambda>i. inst_length (inst i)) old = map (\<lambda>i. inst_length (inst i)) new"
    and "\<forall>i \<in> set old \<union> set new. decodes_to dt m i"
    and "code_len old \<le> unat sz" and "separate dst src (code_len old)" and stack: "\<And>k. length (stack k) = 4"
    and "unat vbase + unat sz + 32 < 2 ^ 32" and "serial_ok os ser"
  shows "\<exists>r. NCCopyCode env os dt stack dst src vbase sz bsize m ser = bind_run r (\<lambda>(m', cs). Some (Inr (0, m', cs))) \<and>
           copied_to os dt (vbase + sz) dst src old new
             (m, \<lparr>copy_vstate = Stats_NewSegment vs0, serial = ser, copy_events = []\<rparr>) r a' b' q \<and>
           \<not> failed (Stats_NewSegment vs0)"
proof -
  let ?cs = "\<lparr>copy_vstate = Stats_NewSegment vs0, serial = ser, copy_events = []\<rparr>"
  have lim: "unat (vbase + sz) = unat vbase + unat sz" by (rule unat_add_no_wrap) (use assms(9) in simp)
  obtain dbo curo where io: "InitDecodeBuffer dst vbase (stack 0) = (dbo, curo)" by fastforce
  obtain dbn curn where jn: "InitDecodeBuffer src vbase (stack 1) = (dbn, curn)" by fastforce
  note ro = InitDecodeBuffer_ring [OF stack io] and rn = InitDecodeBuffer_ring [OF stack jn]
  have nf: "\<not> failed (Stats_NewSegment vs0)" using NewSegment_ok NCValidateInit_state(5,8) [OF init] by simp
  have "copied_to os dt (vbase + sz) dst src old new (m, ?cs)
      (decode_pair_loop copy_callbacks dt (CopyInstruction os) (vbase + sz) dbo curo dbn curn m ?cs) a' b' q"
    by (rule copy_loop [OF ro(1) rn(1) ro(2,3) rn(2,3) assms(2-5,7)]) (use assms(6,9,10) lim nf in auto)
  moreover have "NCCopyCode env os dt stack dst src vbase sz bsize m ser =
      bind_run (decode_pair_loop copy_callbacks dt (CopyInstruction os) (vbase + sz) dbo curo dbn curn m ?cs)
        (\<lambda>(m', cs). Some (Inr (0, m', cs)))"
    using init io jn by (simp add: NCCopyCode_def NCDecodeSegmentPair_def copy_callbacks_def)
  ultimately show ?thesis using nf by blast
qed

lemma NCCopyCode_copies:
  assumes "NCValidateInit env vbase (vbase + sz) (ucast bsize) = Some vs0"
    and "replaces dt m dst vbase sz old new" and "code_chain src vbase new (src + sz) (vbase + sz)"
    and "\<forall>i \<in> set new. decodes_to dt m i" and "code_len new = unat sz"
    and "separate dst src (unat sz)" and "\<And>k. length (stack k) = 4" and "unat vbase + unat sz + 32 < 2 ^ 32"
    and "serial_ok os ser"
  shows "\<exists>cs. NCCopyCode env os dt stack dst src vbase sz bsize m ser =
             Some (Inr (0, mem_write m dst (mem_read m src (unat sz)), cs)) \<and>
           foldl apply_event m (copy_events cs) = mem_write m dst (mem_read m src (unat sz)) \<and>
           (\<forall>m'. fetched m (copy_events cs) m' \<longrightarrow> same_outside m m' dst (unat sz) \<and> all_whole m m' old new)"
proof -
  let ?cs = "\<lparr>copy_vstate = Stats_NewSegment vs0, serial = ser, copy_events = []\<rparr>"
  have old: "code_chain dst vbase old (dst + sz) (vbase + sz)" "\<forall>i \<in> set old \<union> set new. decodes_to dt m i"
    "map (\<lambda>i. inst_length (inst i)) old = map (\<lambda>i. inst_length (inst i)) new"
    using assms(2,4) by (auto simp: replaces_def)
  have lens: "code_len old = unat sz" using code_len_eq [OF old(3)] assms(5) by simp
  obtain r where run: "NCCopyCode env os dt stack dst src vbase sz bsize m ser = bind_run r (\<lambda>(m', cs). Some (Inr (0, m', cs)))"
    and "copied_to os dt (vbase + sz) dst src old new (m, ?cs) r (dst + sz) (src + sz) (vbase + sz)"
    using NCCopyCode_loop [where stack = stack, OF assms(1) old(1) assms(3) old(3,2) _ _ assms(7-9), unfolded lens, OF order_refl assms(6)] by blast
  then obtain dbo curo dbn curn m' cs' where
    r: "r = decode_pair_loop copy_callbacks dt (CopyInstruction os) (vbase + sz) dbo curo dbn curn m' cs'"
    and "vpc (dbo ! curo) = vbase + sz" and all: "copied_all os dst src old new (m, ?cs) (m', cs')"
    unfolding copied_to_def by blast
  then have "r = Some (Inr (m', cs'))" by (simp add: decode_pair_loop.simps)
  then show ?thesis using run all lens by (auto simp: copied_all_def)
qed

text \<open>
  When the next instructions differ in length, the loop stops there.
\<close>

lemma NCCopyCode_mismatch:
  assumes init: "NCValidateInit env vbase (vbase + sz) (ucast bsize) = Some vs0"
    and chains: "code_chain dst vbase (old @ [i]) a' q" "code_chain src vbase (new @ [j]) b' q'"
    and lens: "map (\<lambda>i. inst_length (inst i)) old = map (\<lambda>i. inst_length (inst i)) new"
    and ne: "inst_length (inst i) \<noteq> inst_length (inst j)"
    and dec: "\<forall>k \<in> set (old @ [i]) \<union> set (new @ [j]). decodes_to dt m k"
    and lt: "code_len old < unat sz" and sep: "separate dst src (code_len old)" and stack: "\<And>k. length (stack k) = 4"
    and top: "unat vbase + unat sz + 32 < 2 ^ 32" and ok: "serial_ok os ser"
  shows "\<exists>cs. NCCopyCode env os dt stack dst src vbase sz bsize m ser =
             Some (Inr (0, mem_write m dst (mem_read m src (code_len old)), cs)) \<and>
           (\<forall>m'. fetched m (copy_events cs) m' \<longrightarrow> same_outside m m' dst (code_len old) \<and> all_whole m m' old new)"
proof -
  let ?n = "code_len old" and ?cs = "\<lparr>copy_vstate = Stats_NewSegment vs0, serial = ser, copy_events = []\<rparr>"
  let ?m1 = "mem_write m dst (mem_read m src ?n)"
  have N: "?n + 20 < 2 ^ 32" using sep by (simp add: separate_def)
  have co: "code_chain dst vbase old (dst + of_nat ?n) (vbase + of_nat ?n)" "decoded_at (dst + of_nat ?n) (vbase + of_nat ?n) i"
    and cn: "code_chain src vbase new (src + of_nat ?n) (vbase + of_nat ?n)" "decoded_at (src + of_nat ?n) (vbase + of_nat ?n) j"
    using chains code_len_eq [OF lens] code_chain_end unfolding code_chain_snoc by metis+
  obtain r where run: "NCCopyCode env os dt stack dst src vbase sz bsize m ser = bind_run r (\<lambda>(m', cs). Some (Inr (0, m', cs)))"
    and nf: "\<not> failed (Stats_NewSegment vs0)"
    and "copied_to os dt (vbase + sz) dst src old new (m, ?cs) r (dst + of_nat ?n) (src + of_nat ?n) (vbase + of_nat ?n)"
    using NCCopyCode_loop [where stack = stack and dt = dt and m = m, OF init co(1) cn(1) lens _ _ sep stack top ok] dec lt by auto
  then obtain dbo curo dbn curn cs' where
    r: "r = decode_pair_loop copy_callbacks dt (CopyInstruction os) (vbase + sz) dbo curo dbn curn ?m1 cs'"
    and ring: "ring_at dbo curo" "ring_at dbn curn"
    and at: "mpc (dbo ! curo) = dst + of_nat ?n" "vpc (dbo ! curo) = vbase + of_nat ?n"
      "mpc (dbn ! curn) = src + of_nat ?n" "vpc (dbn ! curn) = vbase + of_nat ?n"
    and all: "copied_all os dst src old new (m, ?cs) (?m1, cs')"
    unfolding copied_to_def copied_all_def fst_conv by blast
  have out: "same_outside m ?m1 dst ?n" using N by (intro whole_copy(1)) simp
  have "mem_agree m ?m1 (dst + of_nat ?n) 20" "mem_agree m ?m1 (src + of_nat ?n) 20"
  proof -
    have "?m1 (dst + of_nat (?n + t)) = m (dst + of_nat (?n + t))" if "t < 20" for t
    proof -
      have "?n \<le> ?n + t \<and> ?n + t < 2 ^ 32" using that N by simp
      then show ?thesis using out unfolding same_outside_def by blast
    qed
    moreover have "?m1 (src + of_nat (?n + t)) = m (src + of_nat (?n + t))" if "t < 20" for t
      using out separate_outside [OF sep, of "?n + t"] that unfolding same_outside_iff by simp
    ultimately show "mem_agree m ?m1 (dst + of_nat ?n) 20" "mem_agree m ?m1 (src + of_nat ?n) 20"
      by (simp_all add: mem_agree_def add.assoc)
  qed
  moreover have mi: "mpc i = dst + of_nat ?n" "vpc i = vbase + of_nat ?n" "mpc j = src + of_nat ?n" "vpc j = vbase + of_nat ?n"
    using co(2) cn(2) by (simp_all add: decoded_at_def)
  ultimately have di: "decodes_to dt ?m1 i" "decodes_to dt ?m1 j"
    using dec decodes_to_agree [of dt m _ ?m1] by simp_all
  have nf': "\<not> failed (copy_vstate cs')" using all nf by (simp add: copied_all_def)
  have nb: "nextbyte (dbo ! curo) = mpc (dbo ! curo)" "nextbyte (dbn ! curn) = mpc (dbn ! curn)"
    using ring by (simp_all add: ring_at_def)
  have "vbase + of_nat ?n < vbase + sz"
    using unat_add_no_wrap [of vbase "of_nat ?n"] unat_add_no_wrap [of vbase sz] lt top N
    by (simp add: word_less_nat_alt unat_of_nat)
  moreover have "vbase + of_nat ?n + ucast (inst_length (inst i)) \<noteq> vbase + of_nat ?n + ucast (inst_length (inst j))"
    using ucast_byte_inject [of "inst_length (inst i)" "inst_length (inst j)"] ne by auto
  ultimately have "r = Some (Inr (?m1, ErrorSegmentation copy_callbacks cs'))"
    unfolding r using copy_consumes [OF di(1) nb(1) _ _ nf'] copy_consumes [OF di(2) nb(2) _ _ nf'] at mi
    by (simp add: decode_pair_loop.simps)
  moreover have "copy_events (ErrorSegmentation copy_callbacks cs') = copy_events cs'"
    by (simp add: ErrorSegmentation_def copy_callbacks_def)
  ultimately show ?thesis using run all by (auto simp: copied_all_def)
qed

text \<open>C31: Code that \<open>NaClValidateCodeReplacement\<close> accepted and left as it was, without overwriting an
  unsupported instruction, is copied completely by \<open>NaClCopyCode\<close>, which always returns and changes nothing
  outside the segment. While the copy runs, another processor may fetch each aligned 8-byte block at a moment
  of its own since it was last serialised, bytes of a store that is not atomic being mixed; whatever it
  assembles, every instruction of the segment is the whole old one, the whole new one, or one that starts
  with a halt. This rests on atomic aligned stores, on an \<open>mprotect\<close> that changes a protection serialising
  every processor and not failing, and on no processor holding blocks from before the call.\<close>

theorem NaClCopyCode_thread_safe:
  assumes "NaClValidateCodeReplacement env dt stack nap guest data_old data_new sz m = Some (Inr (LOAD_OK, m))"
    and "\<And>k. length (stack k) = 4" and "unat guest + unat sz + 32 < 2 ^ 32" and "apart data_old data_new (unat sz)"
    and "bundle_size nap < 256" and "\<And>k. length (stack' k) = 4" and "separate data_old data_new (unat sz)" and "serial_ok os ser"
  shows "\<exists>old new cs. sandboxed dt (bundle_size nap - 1) m data_new guest sz new \<and> replaces dt m data_old guest sz old new \<and>
           NaClCopyCode env os dt stack' nap guest data_old data_new sz m ser =
             Some (Inr (LOAD_OK, mem_write m data_old (mem_read m data_new (unat sz)), cs)) \<and>
           foldl apply_event m (copy_events cs) = mem_write m data_old (mem_read m data_new (unat sz)) \<and>
           (\<forall>m'. fetched m (copy_events cs) m' \<longrightarrow> same_outside m m' data_old (unat sz) \<and> all_whole m m' old new)"
proof -
  obtain old new where on: "sandboxed dt (bundle_size nap - 1) m data_new guest sz new" "replaces dt m data_old guest sz old new"
    using replacement_accepted [OF assms(1-5)] by blast
  obtain vs0 where "NCValidateInit env guest (guest + sz) (ucast (bundle_size nap)) = Some vs0"
    using assms(1) by (auto simp: NaClValidateCodeReplacement_def split: if_splits option.splits)
  from NCCopyCode_copies [where stack = stack', OF this on(2) _ _ _ assms(7,6,3,8)] on(1)
  obtain cs where cs: "NCCopyCode env os dt stack' data_old data_new guest sz (bundle_size nap) m ser =
        Some (Inr (0, mem_write m data_old (mem_read m data_new (unat sz)), cs))"
      "foldl apply_event m (copy_events cs) = mem_write m data_old (mem_read m data_new (unat sz))"
      "\<forall>m'. fetched m (copy_events cs) m' \<longrightarrow> same_outside m m' data_old (unat sz) \<and> all_whole m m' old new"
    unfolding sandboxed_def by blast
  then have "NaClCopyCode env os dt stack' nap guest data_old data_new sz m ser =
      Some (Inr (LOAD_OK, mem_write m data_old (mem_read m data_new (unat sz)), cs))"
    by (simp add: NaClCopyCode_def)
  with on cs(2,3) show ?thesis by blast
qed

definition quiet_os :: serial_env where
  "quiet_os = \<lparr>sysconf_page_size = 4096, valloc_ret = 0x100000, mprotect_rv = (\<lambda>_ _ _. 0)\<rparr>"

definition fresh_serial :: serial_state where
  "fresh_serial = \<lparr>g_squashybuffer = 0, squash_prot = PROT_NONE, squash_size = 0, host_prot = PROT_NONE\<rparr>"

lemma separate_regions:
  assumes "unat a + n \<le> unat b" and "unat b + n + 20 < 2 ^ 32"
  shows "separate a b n"
proof -
  have "a + of_nat i \<noteq> b + of_nat j" if "i < n" "j < n + 20" for i j
  proof
    assume e: "a + of_nat i = b + of_nat j"
    have "unat (a + of_nat i) = unat a + i" "unat (b + of_nat j) = unat b + j"
      using unat_add_no_wrap [of a "of_nat i"] unat_add_no_wrap [of b "of_nat j"] assms that by (simp_all add: unat_of_nat)
    then show False using arg_cong [OF e, of unat] assms(1) that by simp
  qed
  then show ?thesis using assms(2) by (simp add: separate_def)
qed

lemma quiet_serial_ok: "serial_ok quiet_os fresh_serial"
  by (simp add: serial_ok_def quiet_os_def fresh_serial_def)

lemma replace_unchanged:
  "NaClValidateCodeReplacement sample_env sample_tables (\<lambda>_. replicate 4 blank_state) sample_app 0x20000 0x1000 0x2000 2 replace_mem =
     Some (Inr (LOAD_OK, replace_mem))"
proof -
  obtain m' where r: "NaClValidateCodeReplacement sample_env sample_tables (\<lambda>_. replicate 4 blank_state) sample_app 0x20000
      0x1000 0x2000 2 replace_mem = Some (Inr (LOAD_OK, m'))"
    using replace_accepts by (auto split: option.splits sum.splits prod.splits)
  have "apart 0x1000 0x2000 (unat (2 :: u32))" by (rule apart_regions) simp_all
  from replacement_accepted [OF r _ _ this] obtain new where
    new: "sandboxed sample_tables (bundle_size sample_app - 1) replace_mem 0x2000 0x20000 2 new"
      "m' = squashed_mem (cpu sample_env) replace_mem new"
    by (auto simp: sample_app_def)
  have "replace_mem x = kNaClFullStop" if i: "i \<in> set new" and x: "unat (x - maddr (inst i)) < unat (inst_length (inst i))" for i x
  proof -
    have ch: "code_chain 0x2000 0x20000 new (0x2000 + 2) (0x20000 + 2)" and len: "code_len new = 2"
      using new(1) by (simp_all add: sandboxed_def)
    obtain k where k: "lies_in 0x2000 0x20000 (code_len new) i k" using code_chain_offsets [OF ch i] by blast
    then have "k + unat (x - maddr (inst i)) < 2" using x len by (simp add: lies_in_def)
    then obtain d where d: "d = k + unat (x - maddr (inst i))" "d < 2" by blast
    have "x = 0x2000 + of_nat d" unfolding d(1) using k by (simp add: lies_in_def)
    then have "x = 0x2000 \<or> x = 0x2001" using d(2) by (auto simp: less_2_cases_iff)
    then show ?thesis by (auto simp: replace_mem_def kNaClFullStop_def)
  qed
  then have "squashed_mem (cpu sample_env) replace_mem new = replace_mem"
    by (intro ext) (auto simp: squashed_mem_def list_ex_iff)
  then show ?thesis using r new(2) by simp
qed

theorem NaClCopyCode_thread_safe_witness:
  "\<exists>cs. NaClCopyCode sample_env quiet_os sample_tables (\<lambda>_. replicate 4 blank_state) sample_app 0x20000 0x1000 0x2000 2
          replace_mem fresh_serial = Some (Inr (LOAD_OK, mem_write replace_mem 0x1000 [0xf4, 0xf4], cs)) \<and>
        (\<forall>m'. fetched replace_mem (copy_events cs) m' \<longrightarrow> same_outside replace_mem m' 0x1000 2)"
proof -
  have 1: "apart 0x1000 0x2000 (unat (2 :: u32))" by (rule apart_regions) simp_all
  have 2: "separate 0x1000 0x2000 (unat (2 :: u32))" by (rule separate_regions) simp_all
  have "mem_read replace_mem 0x2000 (unat (2 :: u32)) = [0xf4, 0xf4]"
    by (simp add: mem_read_def replace_mem_def upt_rec)
  with NaClCopyCode_thread_safe [OF replace_unchanged _ _ 1 _ _ 2 quiet_serial_ok, of "\<lambda>_. replicate 4 blank_state"]
  show ?thesis by (auto simp: sample_app_def)
qed

text \<open>C32: \<open>NaClCopyCode\<close> reports success although it stopped in the middle. Whenever the old and the
  new code decode to instructions of the same lengths up to some point inside the segment, and there to two
  instructions of different lengths, it returns \<open>LOAD_OK\<close> having copied exactly the bytes before that point
  and nothing behind it. The validator's own overwriting of unsupported instructions with one-byte halts
  brings this about for code \<open>NaClValidateCodeReplacement\<close> has accepted.\<close>

theorem NaClCopyCode_stops_early:
  assumes "NCValidateInit env guest (guest + sz) (ucast (bundle_size nap)) \<noteq> None"
    and "code_chain data_old guest (old @ [i]) a' p" and "code_chain data_new guest (new @ [j]) b' q"
    and "map (\<lambda>k. inst_length (inst k)) old = map (\<lambda>k. inst_length (inst k)) new"
    and "inst_length (inst i) \<noteq> inst_length (inst j)"
    and "\<forall>k \<in> set (old @ [i]) \<union> set (new @ [j]). decodes_to dt m k"
    and "code_len old < unat sz" and "separate data_old data_new (code_len old)" and "\<And>k. length (stack k) = 4"
    and "unat guest + unat sz + 32 < 2 ^ 32" and "serial_ok os ser"
  shows "\<exists>cs. NaClCopyCode env os dt stack nap guest data_old data_new sz m ser =
             Some (Inr (LOAD_OK, mem_write m data_old (mem_read m data_new (code_len old)), cs)) \<and>
           (\<forall>m'. fetched m (copy_events cs) m' \<longrightarrow> same_outside m m' data_old (code_len old))"
proof -
  obtain vs0 where "NCValidateInit env guest (guest + sz) (ucast (bundle_size nap)) = Some vs0" using assms(1) by blast
  from NCCopyCode_mismatch [where stack = stack, OF this assms(2-11)] show ?thesis
    by (auto simp: NaClCopyCode_def)
qed

text \<open>
  Tables in which 0xb0 and 0xb1 take one immediate byte and 0xb0 needs MMX: replacing \<open>90 b1 00 90\<close> by
  \<open>f4 b0 00 f4\<close> on a processor without MMX. The validator accepts it and leaves four halts as the new code,
  and the copy replaces the first byte only.
\<close>

definition mmx_tables :: DecodeTables where
  "mmx_tables = sample_tables\<lparr>kDecode1ByteOp := (\<lambda>b.
     if b = 0xb0 then op_entry NACLi_MMX 0 IMM_FIXED1 0 else if b = 0xb1 then op_entry NACLi_386 0 IMM_FIXED1 0
     else sample_1byte b)\<rparr>"

definition mmx_mem :: memory where
  "mmx_mem = (\<lambda>a. if a = 0x1001 then 0xb1 else if a = 0x2001 then 0xb0 else if a = 0x1002 \<or> a = 0x2002 then 0
     else if a < 0x2000 then 0x90 else 0xf4)"

definition halted_mem :: memory where
  "halted_mem = mmx_mem(0x2001 := 0xf4, 0x2002 := 0xf4)"

definition decoded :: "memory \<Rightarrow> uintptr_t \<Rightarrow> NaClPcAddress \<Rightarrow> NCDecoderState" where
  "decoded m a p = (case ConsumeNextInstruction quiet_client mmx_tables m
     (blank_state\<lparr>mpc := a, nextbyte := a, vpc := p\<rparr>) False of Inr (_, ms, _) \<Rightarrow> ms)"

lemma halted_accepted:
  "case NaClValidateCodeReplacement sample_env mmx_tables (\<lambda>_. replicate 4 blank_state) sample_app 0x20000 0x1000 0x2000 4 mmx_mem of
     Some (Inr (rc, m')) \<Rightarrow> rc = LOAD_OK \<and> mem_read m' 0x2000 24 = mem_read halted_mem 0x2000 24 \<and>
       mem_read m' 0x1000 24 = mem_read halted_mem 0x1000 24
   | _ \<Rightarrow> False"
  by code_simp

lemma halted_decodes:
  "code_chain 0x1000 0x20000 ([decoded halted_mem 0x1000 0x20000] @ [decoded halted_mem 0x1001 0x20001]) 0x1003 0x20003"
  "code_chain 0x2000 0x20000 ([decoded halted_mem 0x2000 0x20000] @ [decoded halted_mem 0x2001 0x20001]) 0x2002 0x20002"
  "decodes_to mmx_tables halted_mem (decoded halted_mem 0x1000 0x20000)" "decodes_to mmx_tables halted_mem (decoded halted_mem 0x1001 0x20001)"
  "decodes_to mmx_tables halted_mem (decoded halted_mem 0x2000 0x20000)" "decodes_to mmx_tables halted_mem (decoded halted_mem 0x2001 0x20001)"
  "inst_length (inst (decoded halted_mem 0x1000 0x20000)) = 1" "inst_length (inst (decoded halted_mem 0x1001 0x20001)) = 2"
  "inst_length (inst (decoded halted_mem 0x2000 0x20000)) = 1" "inst_length (inst (decoded halted_mem 0x2001 0x20001)) = 1"
  by code_simp+

theorem NaClCopyCode_stops_early_witness:
  "(case NaClValidateCodeReplacement sample_env mmx_tables (\<lambda>_. replicate 4 blank_state) sample_app 0x20000 0x1000 0x2000 4 mmx_mem of
      Some (Inr (rc, m')) \<Rightarrow> rc = LOAD_OK \<and> mem_read m' 0x2000 24 = mem_read halted_mem 0x2000 24 \<and>
        mem_read m' 0x1000 24 = mem_read halted_mem 0x1000 24
    | _ \<Rightarrow> False) \<and>
   (\<exists>cs. NaClCopyCode sample_env quiet_os mmx_tables (\<lambda>_. replicate 4 blank_state) sample_app 0x20000 0x1000 0x2000 4
          halted_mem fresh_serial = Some (Inr (LOAD_OK, mem_write halted_mem 0x1000 [0xf4], cs)) \<and>
        mem_write halted_mem 0x1000 [0xf4] 0x1001 = 0xb1 \<and> halted_mem 0x2001 = 0xf4)"
proof -
  have n: "code_len [decoded halted_mem 0x1000 0x20000] = 1" by (simp add: code_len_def halted_decodes)
  have init: "NCValidateInit sample_env 0x20000 (0x20000 + 4) (ucast (bundle_size sample_app)) \<noteq> None" by code_simp
  have "separate 0x1000 0x2000 1" by (rule separate_regions) simp_all
  moreover have rd: "mem_read halted_mem 0x2000 1 = [0xf4]" by (simp add: mem_read_def halted_mem_def mmx_mem_def)
  ultimately obtain cs where "NaClCopyCode sample_env quiet_os mmx_tables (\<lambda>_. replicate 4 blank_state) sample_app 0x20000 0x1000 0x2000 4
      halted_mem fresh_serial = Some (Inr (LOAD_OK, mem_write halted_mem 0x1000 [0xf4], cs))"
    using NaClCopyCode_stops_early [where dt = mmx_tables and m = halted_mem and stack = "\<lambda>_. replicate 4 blank_state",
        OF init halted_decodes(1,2) _ _ _ _ _ _ _ quiet_serial_ok] by (auto simp: n halted_decodes)
  moreover have "mem_write halted_mem 0x1000 [0xf4] 0x1001 = 0xb1" "halted_mem 0x2001 = 0xf4"
    by (simp_all add: mem_write_def halted_mem_def mmx_mem_def)
  ultimately show ?thesis using halted_accepted by blast
qed

end
