(* ===== verification/Dyn_Regions.thy ===== *)
theory Dyn_Regions
  imports App_State
begin

text \<open>
  The table of dynamically loaded code regions of \<open>service_runtime/nacl_text.c\<close>: a sorted array in
  \<open>struct NaClApp\<close>, searched by a mixed binary and linear search, with insertion and deletion by
  shifting. \<open>num_dynamic_regions\<close> is the length of the list; entries beyond it are not modelled.
\<close>

section \<open>Searching\<close>

definition kMinDynamicRegionsAllocated :: int where "kMinDynamicRegionsAllocated = 32"
definition kBinarySearchToScanCutoff :: nat where "kBinarySearchToScanCutoff = 16"

function binary_search :: "NaClDynamicRegion list \<Rightarrow> uintptr_t \<Rightarrow> nat \<Rightarrow> nat \<Rightarrow> nat \<times> nat" where
  "binary_search rs ptr b e =
     (if b + kBinarySearchToScanCutoff + 1 < e then
        let mid = b + (e - b) div 2 in
        if dr_start (rs ! mid) \<le> ptr then binary_search rs ptr mid e else binary_search rs ptr b mid
      else (b, e))"
  by auto
termination
  by (relation "measure (\<lambda>(rs, ptr, b, e). e - b)") (auto simp: kBinarySearchToScanCutoff_def)

function linear_scan :: "NaClDynamicRegion list \<Rightarrow> uintptr_t \<Rightarrow> nat \<Rightarrow> nat \<Rightarrow> nat" where
  "linear_scan rs ptr b e =
     (if b + 1 < e \<and> dr_start (rs ! (b + 1)) \<le> ptr then linear_scan rs ptr (b + 1) e else b)"
  by auto
termination
  by (relation "measure (\<lambda>(rs, ptr, b, e). e - b)") auto

declare binary_search.simps [simp del] linear_scan.simps [simp del]

text \<open>The result is an index into the array instead of a pointer, \<open>None\<close> for NULL.\<close>

definition NaClDynamicRegionFindClosestLEQ :: "NaClApp \<Rightarrow> uintptr_t \<Rightarrow> nat option" where
  "NaClDynamicRegionFindClosestLEQ nap ptr =
     (let rs = dynamic_regions nap; n = length rs in
      if n = 0 then None
      else if dr_start (rs ! (n - 1)) \<le> ptr then Some (n - 1)
      else if ptr < dr_start (rs ! 0) then None
      else case binary_search rs ptr 0 n of (b, e) \<Rightarrow> Some (linear_scan rs ptr b e))"

definition NaClDynamicRegionFind :: "NaClApp \<Rightarrow> uintptr_t \<Rightarrow> size_t \<Rightarrow> nat option" where
  "NaClDynamicRegionFind nap ptr sz =
     (case NaClDynamicRegionFindClosestLEQ nap (ptr + sz - 1) of
        None \<Rightarrow> None
      | Some p \<Rightarrow>
          if ptr < dr_start (dynamic_regions nap ! p) + dr_size (dynamic_regions nap ! p) then Some p else None)"

section \<open>Inserting and deleting\<close>

function scroll :: "NaClDynamicRegion list \<Rightarrow> uintptr_t \<Rightarrow> nat \<Rightarrow> nat" where
  "scroll rs start i =
     (if i < length rs \<and> dr_start (rs ! i) < start then scroll rs start (i + 1) else i)"
  by auto
termination
  by (relation "measure (\<lambda>(rs, start, i). length rs - i)") auto

function shift_in :: "NaClDynamicRegion list \<Rightarrow> nat \<Rightarrow> NaClDynamicRegion \<Rightarrow> NaClDynamicRegion list" where
  "shift_in rs i item =
     (if i < length rs then shift_in (rs[i := item]) (i + 1) (rs ! i) else rs @ [item])"
  by auto
termination
  by (relation "measure (\<lambda>(rs, i, item). length rs - i)") auto

declare scroll.simps [simp del] shift_in.simps [simp del]

text \<open>\<open>realloc_ok\<close> is the answer of the allocator; a failure aborts the process.\<close>

definition NaClDynamicRegionCreate :: "bool \<Rightarrow> NaClApp \<Rightarrow> uintptr_t \<Rightarrow> size_t \<Rightarrow> (NaClApp \<times> bool) res" where
  "NaClDynamicRegionCreate realloc_ok nap start sz =
     (let item = \<lparr>dr_start = start, dr_size = sz, delete_generation = - 1\<rparr>;
          full = (dynamic_regions_allocated nap = int (length (dynamic_regions nap)));
          nap1 = (if full then nap\<lparr>dynamic_regions_allocated :=
                    max (dynamic_regions_allocated nap * 2) kMinDynamicRegionsAllocated\<rparr> else nap) in
      if full \<and> \<not> realloc_ok then Inl LogFatal
      else
        let rs = dynamic_regions nap1;
            regionp = NaClDynamicRegionFindClosestLEQ nap1 (start + sz - 1) in
        if (case regionp of None \<Rightarrow> False | Some p \<Rightarrow> start < dr_start (rs ! p) + dr_size (rs ! p))
        then Inr (nap1, False)
        else
          let i = scroll rs start (case regionp of None \<Rightarrow> 0 | Some p \<Rightarrow> p) in
          Inr (nap1\<lparr>dynamic_regions := shift_in rs i item\<rparr>, True))"

function shift_down :: "NaClDynamicRegion list \<Rightarrow> nat \<Rightarrow> NaClDynamicRegion list" where
  "shift_down rs i = (if i + 1 < length rs then shift_down (rs[i := rs ! (i + 1)]) (i + 1) else butlast rs)"
  by auto
termination
  by (relation "measure (\<lambda>(rs, i). length rs - i)") auto

declare shift_down.simps [simp del]

definition NaClDynamicRegionDelete :: "bool \<Rightarrow> NaClApp \<Rightarrow> nat \<Rightarrow> NaClApp res" where
  "NaClDynamicRegionDelete realloc_ok nap r =
     (let nap1 = nap\<lparr>dynamic_regions := shift_down (dynamic_regions nap) r\<rparr> in
      if dynamic_regions_allocated nap1 > kMinDynamicRegionsAllocated \<and>
         dynamic_regions_allocated nap1 div 4 > int (length (dynamic_regions nap1))
      then (if \<not> realloc_ok then Inl LogFatal
            else Inr (nap1\<lparr>dynamic_regions_allocated := dynamic_regions_allocated nap1 div 2\<rparr>))
      else Inr nap1)"

section \<open>The search finds the closest region\<close>

text \<open>The specification of the search: the position of the last region that starts at or below.\<close>

definition closest_below :: "NaClDynamicRegion list \<Rightarrow> uintptr_t \<Rightarrow> nat option" where
  "closest_below rs ptr =
     (let below = takeWhile (\<lambda>r. dr_start r \<le> ptr) rs in
      if below = [] then None else Some (length below - 1))"

definition ascending :: "NaClDynamicRegion list \<Rightarrow> bool" where
  "ascending rs \<longleftrightarrow> sorted_wrt (\<lambda>r s. dr_start r < dr_start s) rs"

lemma ascending_nth: "ascending rs \<Longrightarrow> i < j \<Longrightarrow> j < length rs \<Longrightarrow> dr_start (rs ! i) < dr_start (rs ! j)"
  unfolding ascending_def by (rule sorted_wrt_nth_less)

lemma ascending_nth_le: "ascending rs \<Longrightarrow> i \<le> j \<Longrightarrow> j < length rs \<Longrightarrow> dr_start (rs ! i) \<le> dr_start (rs ! j)"
  using ascending_nth [of rs i j] by (cases "i = j") auto

text \<open>\<open>b\<close> is at or below the answer and everything from \<open>e\<close> on is above it.\<close>

definition brackets :: "NaClDynamicRegion list \<Rightarrow> uintptr_t \<Rightarrow> nat \<Rightarrow> nat \<Rightarrow> bool" where
  "brackets rs ptr b e \<longleftrightarrow> b < e \<and> e \<le> length rs \<and> dr_start (rs ! b) \<le> ptr \<and>
     (\<forall>i. e \<le> i \<and> i < length rs \<longrightarrow> ptr < dr_start (rs ! i))"

lemma binary_search_brackets:
  assumes "ascending rs" and "brackets rs ptr b e" and "binary_search rs ptr b e = (b', e')"
  shows "brackets rs ptr b' e'"
  using assms
proof (induction rs ptr b e rule: binary_search.induct)
  case (1 rs ptr b e)
  show ?case
  proof (cases "b + kBinarySearchToScanCutoff + 1 < e")
    case True
    let ?mid = "b + (e - b) div 2"
    have mid: "b < ?mid" "?mid < e" using True by (simp_all add: kBinarySearchToScanCutoff_def)
    show ?thesis
    proof (cases "dr_start (rs ! ?mid) \<le> ptr")
      case le: True
      then show ?thesis
        using "1.IH"(1) [OF True refl le "1.prems"(1)] "1.prems"(2,3) True mid le
        by (simp add: binary_search.simps [of rs ptr b e] brackets_def Let_def)
    next
      case gt: False
      have "ptr < dr_start (rs ! i)" if "?mid \<le> i" "i < length rs" for i
        using ascending_nth_le [OF "1.prems"(1) that] gt by simp
      then have "brackets rs ptr b ?mid" using "1.prems"(2) mid by (simp add: brackets_def)
      then show ?thesis
        using "1.IH"(2) [OF True refl gt "1.prems"(1)] "1.prems"(3) True gt by (simp add: binary_search.simps [of rs ptr b e] Let_def)
    qed
  next
    case False
    then show ?thesis using "1.prems"(2,3) by (simp add: binary_search.simps [of rs ptr b e])
  qed
qed

lemma linear_scan_brackets:
  assumes "ascending rs" and "brackets rs ptr b e"
  shows "linear_scan rs ptr b e < length rs \<and> dr_start (rs ! linear_scan rs ptr b e) \<le> ptr \<and>
         (\<forall>i. linear_scan rs ptr b e < i \<and> i < length rs \<longrightarrow> ptr < dr_start (rs ! i))"
  using assms
proof (induction rs ptr b e rule: linear_scan.induct)
  case (1 rs ptr b e)
  show ?case
  proof (cases "b + 1 < e \<and> dr_start (rs ! (b + 1)) \<le> ptr")
    case True
    then have "brackets rs ptr (b + 1) e" using "1.prems"(2) by (simp add: brackets_def)
    from "1.IH" [OF True "1.prems"(1) this] show ?thesis using True by (simp add: linear_scan.simps [of rs ptr b e])
  next
    case False
    have "ptr < dr_start (rs ! i)" if i: "b < i" "i < length rs" for i
    proof (cases "b + 1 < e")
      case lt: True
      then have "ptr < dr_start (rs ! (b + 1))" using False by simp
      moreover have "dr_start (rs ! (b + 1)) \<le> dr_start (rs ! i)" by (rule ascending_nth_le [OF "1.prems"(1)]) (use i in simp_all)
      ultimately show ?thesis by simp
    qed (use "1.prems"(2) i in \<open>auto simp: brackets_def\<close>)
    then show ?thesis using False "1.prems"(2) by (auto simp: linear_scan.simps [of rs ptr b e] brackets_def)
  qed
qed

lemma closest_below_eq:
  assumes "ascending rs" and "p < length rs" and "dr_start (rs ! p) \<le> ptr"
    and "\<And>i. p < i \<Longrightarrow> i < length rs \<Longrightarrow> ptr < dr_start (rs ! i)"
  shows "closest_below rs ptr = Some p"
proof -
  have "takeWhile (\<lambda>r. dr_start r \<le> ptr) rs = take (Suc p) rs"
  proof (rule takeWhile_eq_take_P_nth)
    fix i assume "i < Suc p" "i < length rs"
    then have "dr_start (rs ! i) \<le> dr_start (rs ! p)" using assms(1,2) by (intro ascending_nth_le) simp_all
    then show "dr_start (rs ! i) \<le> ptr" using assms(3) by simp
  qed (use assms(4) [of "Suc p"] in auto)
  then show ?thesis using assms(2) by (auto simp: closest_below_def Let_def)
qed

lemma FindClosestLEQ_eq:
  assumes "ascending (dynamic_regions nap)"
  shows "NaClDynamicRegionFindClosestLEQ nap ptr = closest_below (dynamic_regions nap) ptr"
proof -
  let ?rs = "dynamic_regions nap" and ?n = "length (dynamic_regions nap)"
  consider "?rs = []" | "?rs \<noteq> []" "dr_start (?rs ! (?n - 1)) \<le> ptr" | "?rs \<noteq> []" "ptr < dr_start (?rs ! 0)"
    | "?rs \<noteq> []" "ptr < dr_start (?rs ! (?n - 1))" "dr_start (?rs ! 0) \<le> ptr" by fastforce
  then show ?thesis
  proof cases
    case 1
    then show ?thesis by (simp add: NaClDynamicRegionFindClosestLEQ_def closest_below_def)
  next
    case 2
    then show ?thesis
      using closest_below_eq [OF assms, of "?n - 1" ptr] by (simp add: NaClDynamicRegionFindClosestLEQ_def Let_def)
  next
    case 3
    have "\<not> dr_start (?rs ! (?n - 1)) \<le> ptr"
      using ascending_nth_le [OF assms, of 0 "?n - 1"] 3 by (auto simp: not_le intro: less_le_trans)
    moreover have "takeWhile (\<lambda>r. dr_start r \<le> ptr) ?rs = []" using 3 by (cases ?rs) auto
    ultimately show ?thesis using 3 by (simp add: NaClDynamicRegionFindClosestLEQ_def closest_below_def Let_def)
  next
    case 4
    obtain b e where be: "binary_search ?rs ptr 0 ?n = (b, e)" by fastforce
    have "brackets ?rs ptr 0 ?n" using 4 by (auto simp: brackets_def)
    from linear_scan_brackets [OF assms binary_search_brackets [OF assms this be]]
    have "closest_below ?rs ptr = Some (linear_scan ?rs ptr b e)" by (intro closest_below_eq [OF assms]) auto
    then show ?thesis using 4 be by (auto simp: NaClDynamicRegionFindClosestLEQ_def Let_def)
  qed
qed

text \<open>C33: On a sorted table the mixed search \<open>NaClDynamicRegionFindClosestLEQ\<close>, with its shortcut for the
  last region, its binary phase and its final scan, returns exactly what the obvious sequential search
  returns: the last region that starts at or below the address, NULL when there is none.\<close>

theorem NaClDynamicRegionFindClosestLEQ_correct:
  assumes "ascending (dynamic_regions nap)"
  shows "NaClDynamicRegionFindClosestLEQ nap ptr = closest_below (dynamic_regions nap) ptr"
  using assms by (rule FindClosestLEQ_eq)

definition region_at :: "u32 \<Rightarrow> size_t \<Rightarrow> NaClDynamicRegion" where
  "region_at a n = \<lparr>dr_start = a, dr_size = n, delete_generation = - 1\<rparr>"

definition forty_regions :: NaClApp where
  "forty_regions = sample_app\<lparr>dynamic_regions := map (\<lambda>k. region_at (0x40000000 + 64 * of_nat k) 32) [0..<40],
     dynamic_regions_allocated := 64\<rparr>"

lemma forty_ascending: "ascending (dynamic_regions forty_regions)"
proof -
  have "(0x40000000 :: u32) + 64 * of_nat i < 0x40000000 + 64 * of_nat j" if "i < j" "j < 40" for i j :: nat
  proof -
    have u: "unat ((0x40000000 :: u32) + 64 * of_nat k) = 0x40000000 + 64 * k" if "k < 40" for k
    proof -
      have "(0x40000000 :: u32) + 64 * of_nat k = of_nat (0x40000000 + 64 * k)" by simp
      then show ?thesis using that by (simp only: unat_of_nat) simp
    qed
    show ?thesis using that by (simp only: word_less_nat_alt u)
  qed
  then show ?thesis
    by (simp add: ascending_def forty_regions_def region_at_def sorted_wrt_map sorted_wrt_iff_nth_less)
qed

theorem NaClDynamicRegionFindClosestLEQ_correct_witness:
  "NaClDynamicRegionFindClosestLEQ forty_regions 0x40000101 = Some 4"
proof -
  have "closest_below (dynamic_regions forty_regions) 0x40000101 = Some 4" by code_simp
  then show ?thesis using NaClDynamicRegionFindClosestLEQ_correct [OF forty_ascending] by simp
qed

section \<open>The table as a set of disjoint regions\<close>

definition region_end :: "NaClDynamicRegion \<Rightarrow> nat" where
  "region_end r = unat (dr_start r) + unat (dr_size r)"

definition region_ok :: "NaClDynamicRegion \<Rightarrow> bool" where
  "region_ok r \<longleftrightarrow> 0 < unat (dr_size r) \<and> region_end r < 2 ^ 32"

definition regions_ok :: "NaClDynamicRegion list \<Rightarrow> bool" where
  "regions_ok rs \<longleftrightarrow> sorted_wrt (\<lambda>r s. region_end r \<le> unat (dr_start s)) rs \<and> (\<forall>r \<in> set rs. region_ok r)"

definition overlaps :: "NaClDynamicRegion \<Rightarrow> nat \<Rightarrow> nat \<Rightarrow> bool" where
  "overlaps r a n \<longleftrightarrow> unat (dr_start r) < a + n \<and> a < region_end r"

lemma regions_ok_ascending: "regions_ok rs \<Longrightarrow> ascending rs"
  unfolding ascending_def regions_ok_def
  by (elim conjE, erule sorted_wrt_mono_rel [rotated])
    (auto simp: region_ok_def region_end_def word_less_nat_alt)

lemma region_end_word: "region_ok r \<Longrightarrow> unat (dr_start r + dr_size r) = region_end r"
  using unat_add_no_wrap [of "dr_start r" "dr_size r"] by (simp add: region_ok_def region_end_def)

lemma last_byte_word:
  fixes a n :: u32
  assumes "0 < unat n" and "unat a + unat n < 2 ^ 32"
  shows "unat (a + n - 1) = unat a + unat n - 1"
proof -
  have e: "unat (a + n) = unat a + unat n" using unat_add_no_wrap [of a n] assms(2) by simp
  then have "1 \<le> a + n" using assms(1) by (simp add: word_le_nat_alt)
  then show ?thesis using unat_sub [of 1 "a + n"] e by simp
qed

text \<open>What the two callers of the search rely on: a region overlapping a range is the closest one to
  the last byte of the range, or it lies below the closest one.\<close>

lemma closest_below_Some:
  assumes "ascending rs" and "closest_below rs ptr = Some p"
  shows "p < length rs" and "dr_start (rs ! p) \<le> ptr" and "p < i \<Longrightarrow> i < length rs \<Longrightarrow> ptr < dr_start (rs ! i)"
proof -
  let ?P = "\<lambda>r. dr_start r \<le> ptr" and ?k = "length (takeWhile (\<lambda>r. dr_start r \<le> ptr) rs)"
  have k: "p = ?k - 1" "0 < ?k" using assms(2) by (auto simp: closest_below_def Let_def split: if_splits)
  have "?k \<le> length rs" by (rule length_takeWhile_le)
  then show "p < length rs" using k by linarith
  have "?P (rs ! p)" using k by (metis Suc_diff_1 lessI nth_mem set_takeWhileD takeWhile_nth)
  then show "dr_start (rs ! p) \<le> ptr" .
  assume i: "p < i" "i < length rs"
  have "\<not> ?P (rs ! ?k)" using i k by (intro nth_length_takeWhile) simp
  moreover have "dr_start (rs ! ?k) \<le> dr_start (rs ! i)" using i k by (intro ascending_nth_le [OF assms(1)]) simp_all
  ultimately show "ptr < dr_start (rs ! i)" by simp
qed

lemma closest_below_None:
  assumes "ascending rs" and "closest_below rs ptr = None" and "r \<in> set rs"
  shows "ptr < dr_start r"
proof -
  have "rs \<noteq> []" "\<not> dr_start (rs ! 0) \<le> ptr"
    using assms(2,3) by (cases rs; auto simp: closest_below_def Let_def split: if_splits)+
  moreover obtain i where "i < length rs" "r = rs ! i" using assms(3) by (auto simp: in_set_conv_nth)
  ultimately show ?thesis using ascending_nth_le [OF assms(1), of 0 i] by (auto simp: not_le intro: less_le_trans)
qed

lemma regions_ok_nth:
  assumes "regions_ok rs" and "i < length rs"
  shows "region_ok (rs ! i)" and "j < i \<Longrightarrow> region_end (rs ! j) \<le> unat (dr_start (rs ! i))"
proof -
  show "region_ok (rs ! i)" using assms by (simp add: regions_ok_def)
  show "region_end (rs ! j) \<le> unat (dr_start (rs ! i))" if "j < i"
    using assms that sorted_wrt_nth_less [of "\<lambda>r s. region_end r \<le> unat (dr_start s)" rs j i] by (simp add: regions_ok_def)
qed

lemma closest_overlap:
  assumes "regions_ok (dynamic_regions nap)" and "0 < unat sz" and "unat a + unat sz < 2 ^ 32"
    and "q < length (dynamic_regions nap)" and "overlaps (dynamic_regions nap ! q) (unat a) (unat sz)"
  obtains p where "NaClDynamicRegionFindClosestLEQ nap (a + sz - 1) = Some p" "q \<le> p" "p < length (dynamic_regions nap)"
    "overlaps (dynamic_regions nap ! p) (unat a) (unat sz)"
    "a < dr_start (dynamic_regions nap ! p) + dr_size (dynamic_regions nap ! p)"
proof -
  let ?rs = "dynamic_regions nap" and ?e = "a + sz - 1"
  note asc = regions_ok_ascending [OF assms(1)]
  have e: "unat ?e = unat a + unat sz - 1" by (rule last_byte_word [OF assms(2,3)])
  have le: "dr_start (?rs ! q) \<le> ?e" using assms(2,5) e unfolding overlaps_def word_le_nat_alt by linarith
  have "closest_below ?rs ?e \<noteq> None"
  proof
    assume "closest_below ?rs ?e = None"
    from closest_below_None [OF asc this nth_mem [OF assms(4)]] le show False by simp
  qed
  then obtain p where p: "closest_below ?rs ?e = Some p" by blast
  note P = closest_below_Some [OF asc p]
  have qp: "q \<le> p" using P(3) [of q] assms(4) le by (meson leD not_le_imp_less)
  have "unat (dr_start (?rs ! p)) < unat a + unat sz" using P(2) e assms(2) unfolding word_le_nat_alt by linarith
  moreover have "unat a < region_end (?rs ! p)"
  proof (cases "q = p")
    case False
    then have "region_end (?rs ! q) \<le> unat (dr_start (?rs ! p))" using regions_ok_nth(2) [OF assms(1) P(1)] qp by simp
    then show ?thesis using assms(5) by (simp add: overlaps_def region_end_def)
  qed (use assms(5) in \<open>simp add: overlaps_def\<close>)
  ultimately show ?thesis
    using that [of p] qp P(1) p FindClosestLEQ_eq [OF asc] region_end_word [OF regions_ok_nth(1) [OF assms(1) P(1)]]
    by (simp add: overlaps_def word_less_nat_alt)
qed

lemma closest_overlaps_range:
  assumes "regions_ok (dynamic_regions nap)" and "0 < unat sz" and "unat a + unat sz < 2 ^ 32"
    and "NaClDynamicRegionFindClosestLEQ nap (a + sz - 1) = Some p"
    and "a < dr_start (dynamic_regions nap ! p) + dr_size (dynamic_regions nap ! p)"
  shows "p < length (dynamic_regions nap)" and "overlaps (dynamic_regions nap ! p) (unat a) (unat sz)"
proof -
  let ?rs = "dynamic_regions nap"
  note asc = regions_ok_ascending [OF assms(1)]
  have c: "closest_below ?rs (a + sz - 1) = Some p" using assms(4) FindClosestLEQ_eq [OF asc] by simp
  note P = closest_below_Some [OF asc c]
  show "p < length ?rs" by (rule P(1))
  show "overlaps (?rs ! p) (unat a) (unat sz)"
    using P(2) assms(2,5) last_byte_word [OF assms(2,3)] region_end_word [OF regions_ok_nth(1) [OF assms(1) P(1)]]
    by (auto simp: overlaps_def nat_of_word)
qed

lemma shift_in_eq: "i \<le> length rs \<Longrightarrow> shift_in rs i item = take i rs @ item # drop i rs"
proof (induction rs i item rule: shift_in.induct)
  case (1 rs i item)
  show ?case
  proof (cases "i < length rs")
    case True
    have "shift_in (rs[i := item]) (i + 1) (rs ! i) = take (i + 1) (rs[i := item]) @ rs ! i # drop (i + 1) (rs[i := item])"
      using "1.IH" [OF True] True by simp
    also have "\<dots> = take i rs @ item # drop i rs"
      using True by (simp add: take_Suc_conv_app_nth Cons_nth_drop_Suc)
    finally show ?thesis using True by (simp add: shift_in.simps [of rs i item])
  next
    case False
    then have "shift_in rs i item = rs @ [item]" by (simp add: shift_in.simps [of rs i item])
    then show ?thesis using False "1.prems" by simp
  qed
qed

lemma shift_down_eq: "i < length rs \<Longrightarrow> shift_down rs i = take i rs @ drop (Suc i) rs"
proof (induction rs i rule: shift_down.induct)
  case (1 rs i)
  show ?case
  proof (cases "i + 1 < length rs")
    case True
    have "shift_down (rs[i := rs ! (i + 1)]) (i + 1) = take (i + 1) (rs[i := rs ! (i + 1)]) @ drop (Suc (i + 1)) rs"
      using "1.IH" [OF True] True by simp
    also have "\<dots> = take i rs @ drop (Suc i) rs"
      using True by (simp add: take_Suc_conv_app_nth Cons_nth_drop_Suc)
    finally show ?thesis using True by (simp add: shift_down.simps [of rs i])
  next
    case False
    then have "shift_down rs i = butlast rs" by (simp add: shift_down.simps [of rs i])
    moreover have "i = length rs - 1" using False "1.prems" by simp
    ultimately show ?thesis using "1.prems" by (simp add: butlast_conv_take)
  qed
qed

lemma scroll_spec:
  assumes "i \<le> length rs"
  shows "i \<le> scroll rs start i \<and> scroll rs start i \<le> length rs \<and>
         (\<forall>j. i \<le> j \<and> j < scroll rs start i \<longrightarrow> dr_start (rs ! j) < start) \<and>
         (scroll rs start i < length rs \<longrightarrow> start \<le> dr_start (rs ! scroll rs start i))"
  using assms
proof (induction rs start i rule: scroll.induct)
  case (1 rs start i)
  show ?case
  proof (cases "i < length rs \<and> dr_start (rs ! i) < start")
    case True
    then have ih: "i + 1 \<le> scroll rs start (i + 1) \<and> scroll rs start (i + 1) \<le> length rs \<and>
         (\<forall>j. i + 1 \<le> j \<and> j < scroll rs start (i + 1) \<longrightarrow> dr_start (rs ! j) < start) \<and>
         (scroll rs start (i + 1) < length rs \<longrightarrow> start \<le> dr_start (rs ! scroll rs start (i + 1)))"
      using "1.IH" by simp
    have "scroll rs start i = scroll rs start (i + 1)" using True by (simp add: scroll.simps [of rs start i])
    moreover have "dr_start (rs ! j) < start" if "i \<le> j" "j < scroll rs start (i + 1)" for j
      using ih True that by (cases "j = i") simp_all
    ultimately show ?thesis using ih by simp
  next
    case False
    then have "scroll rs start i = i" using scroll.simps [of rs start i] by (auto split: if_splits)
    then show ?thesis using False "1.prems" by (auto simp: not_less)
  qed
qed

lemma insert_region_ok:
  assumes "regions_ok rs" and "region_ok item" and "i \<le> length rs"
    and "\<And>j. j < i \<Longrightarrow> region_end (rs ! j) \<le> unat (dr_start item)"
    and "\<And>j. i \<le> j \<Longrightarrow> j < length rs \<Longrightarrow> region_end item \<le> unat (dr_start (rs ! j))"
  shows "regions_ok (take i rs @ item # drop i rs)"
proof -
  let ?R = "\<lambda>r s. region_end r \<le> unat (dr_start s)"
  have s: "sorted_wrt ?R rs" and ok: "\<forall>r \<in> set rs. region_ok r" using assms(1) by (simp_all add: regions_ok_def)
  have "sorted_wrt ?R (take i rs @ drop i rs)" using s by simp
  then have p: "sorted_wrt ?R (take i rs)" "sorted_wrt ?R (drop i rs)" "\<forall>x \<in> set (take i rs). \<forall>y \<in> set (drop i rs). ?R x y"
    unfolding sorted_wrt_append by blast+
  have t: "\<forall>x \<in> set (take i rs). ?R x item" using assms(3,4) by (auto simp: in_set_conv_nth)
  have d: "\<forall>y \<in> set (drop i rs). ?R item y" using assms(5) by (auto simp: in_set_conv_nth)
  have "region_ok r" if "r \<in> set (take i rs @ item # drop i rs)" for r
    using that ok assms(2) by (auto dest: in_set_takeD in_set_dropD)
  then show ?thesis using p t d by (auto simp: regions_ok_def sorted_wrt_append)
qed

text \<open>The effect of \<open>NaClDynamicRegionCreate\<close> on a well-formed table.\<close>

definition new_region :: "uintptr_t \<Rightarrow> size_t \<Rightarrow> NaClDynamicRegion" where
  "new_region start sz = \<lparr>dr_start = start, dr_size = sz, delete_generation = - 1\<rparr>"

definition capacity_ok :: "NaClApp \<Rightarrow> bool" where
  "capacity_ok nap \<longleftrightarrow> int (length (dynamic_regions nap)) \<le> dynamic_regions_allocated nap"

lemma Create_conflict_iff:
  assumes "regions_ok (dynamic_regions nap)" and "0 < unat sz" and "unat start + unat sz < 2 ^ 32"
  shows "(case NaClDynamicRegionFindClosestLEQ nap (start + sz - 1) of None \<Rightarrow> False
            | Some p \<Rightarrow> start < dr_start (dynamic_regions nap ! p) + dr_size (dynamic_regions nap ! p)) \<longleftrightarrow>
         (\<exists>r \<in> set (dynamic_regions nap). overlaps r (unat start) (unat sz))" (is "?found \<longleftrightarrow> ?overlap")
proof
  assume ?found
  then obtain p where p: "NaClDynamicRegionFindClosestLEQ nap (start + sz - 1) = Some p"
    "start < dr_start (dynamic_regions nap ! p) + dr_size (dynamic_regions nap ! p)" by (auto split: option.splits)
  from closest_overlaps_range [OF assms p] show ?overlap by auto
next
  assume ?overlap
  then obtain q where "q < length (dynamic_regions nap)" "overlaps (dynamic_regions nap ! q) (unat start) (unat sz)"
    by (auto simp: in_set_conv_nth)
  then obtain p where "NaClDynamicRegionFindClosestLEQ nap (start + sz - 1) = Some p"
    "start < dr_start (dynamic_regions nap ! p) + dr_size (dynamic_regions nap ! p)"
    by (rule closest_overlap [OF assms])
  then show ?found by simp
qed

lemma Create_position:
  fixes start sz :: u32
  defines "item \<equiv> new_region start sz"
  assumes ok: "regions_ok (dynamic_regions nap)" and sz: "0 < unat sz" and nw: "unat start + unat sz < 2 ^ 32"
    and free: "\<not> (\<exists>r \<in> set (dynamic_regions nap). overlaps r (unat start) (unat sz))"
    and i: "i = scroll (dynamic_regions nap) start (case NaClDynamicRegionFindClosestLEQ nap (start + sz - 1) of None \<Rightarrow> 0 | Some p \<Rightarrow> p)"
  shows "i \<le> length (dynamic_regions nap)"
    and "regions_ok (take i (dynamic_regions nap) @ item # drop i (dynamic_regions nap))"
proof -
  let ?rs = "dynamic_regions nap"
  let ?i0 = "case NaClDynamicRegionFindClosestLEQ nap (start + sz - 1) of None \<Rightarrow> 0 | Some p \<Rightarrow> p"
  note asc = regions_ok_ascending [OF ok]
  have cl: "NaClDynamicRegionFindClosestLEQ nap (start + sz - 1) = closest_below ?rs (start + sz - 1)"
    by (rule FindClosestLEQ_eq [OF asc])
  have i0: "?i0 \<le> length ?rs" "\<And>j. j < ?i0 \<Longrightarrow> dr_start (?rs ! j) < dr_start (?rs ! ?i0) \<and> ?i0 < length ?rs"
    using closest_below_Some(1) [OF asc] ascending_nth [OF asc] by (auto simp: cl split: option.splits intro: less_imp_le)
  note S = scroll_spec [OF i0(1), of start, folded i]
  show "i \<le> length ?rs" using S by simp
  have item: "region_ok item" "region_end item = unat start + unat sz" "unat (dr_start item) = unat start"
    using sz nw by (simp_all add: item_def new_region_def region_ok_def region_end_def)
  have apart: "region_end r \<le> unat start \<or> unat start + unat sz \<le> unat (dr_start r)" if "r \<in> set ?rs" for r
    using free that by (auto simp: overlaps_def not_less)
  have below: "region_end (?rs ! j) \<le> unat start" if j: "j < i" for j
  proof -
    have len: "j < length ?rs" using j S by linarith
    have "dr_start (?rs ! j) \<le> start + sz - 1"
    proof (cases "j < ?i0")
      case True
      then obtain p where p: "closest_below ?rs (start + sz - 1) = Some p" "j < p" by (auto simp: cl split: option.splits)
      then have "dr_start (?rs ! j) \<le> dr_start (?rs ! p)"
        using ascending_nth_le [OF asc, of j p] closest_below_Some(1) [OF asc p(1)] by simp
      also have "\<dots> \<le> start + sz - 1" by (rule closest_below_Some(2) [OF asc p(1)])
      finally show ?thesis .
    next
      case False
      then have "dr_start (?rs ! j) < start" using S j by simp
      then show ?thesis using last_byte_word [OF sz nw] sz unfolding nat_of_word by linarith
    qed
    then have "unat (dr_start (?rs ! j)) < unat start + unat sz"
      using last_byte_word [OF sz nw] sz unfolding nat_of_word by linarith
    then show ?thesis using apart [OF nth_mem [OF len]] by linarith
  qed
  have above: "unat start + unat sz \<le> unat (dr_start (?rs ! j))" if "i \<le> j" "j < length ?rs" for j
  proof -
    have "start \<le> dr_start (?rs ! i)" using S that by simp
    also have "\<dots> \<le> dr_start (?rs ! j)" by (rule ascending_nth_le [OF asc]) (use that in simp_all)
    finally have "unat start \<le> unat (dr_start (?rs ! j))" by (simp add: word_le_nat_alt)
    moreover have "0 < unat (dr_size (?rs ! j))" using regions_ok_nth(1) [OF ok that(2)] by (simp add: region_ok_def)
    ultimately show ?thesis using apart [OF nth_mem [OF that(2)]] unfolding region_end_def by linarith
  qed
  show "regions_ok (take i ?rs @ item # drop i ?rs)"
    by (rule insert_region_ok [OF ok item(1)]) (use S item below above in auto)
qed

lemma Create_cases:
  assumes ok: "regions_ok (dynamic_regions nap)" and cap: "capacity_ok nap" and sz: "0 < unat sz" and nw: "unat start + unat sz < 2 ^ 32"
  shows "\<exists>rs' alloc ok. NaClDynamicRegionCreate True nap start sz =
             Inr (nap\<lparr>dynamic_regions := rs', dynamic_regions_allocated := alloc\<rparr>, ok) \<and>
           (ok \<longleftrightarrow> \<not> (\<exists>r \<in> set (dynamic_regions nap). overlaps r (unat start) (unat sz))) \<and>
           regions_ok rs' \<and> int (length rs') \<le> alloc \<and>
           set rs' = (if ok then insert (new_region start sz) (set (dynamic_regions nap)) else set (dynamic_regions nap))"
proof -
  let ?rs = "dynamic_regions nap"
  let ?full = "dynamic_regions_allocated nap = int (length ?rs)"
  define alloc where "alloc = (if ?full then max (dynamic_regions_allocated nap * 2) kMinDynamicRegionsAllocated
      else dynamic_regions_allocated nap)"
  define nap1 where "nap1 = nap\<lparr>dynamic_regions_allocated := alloc\<rparr>"
  have room: "int (length ?rs) < alloc"
    using cap by (auto simp: alloc_def capacity_ok_def kMinDynamicRegionsAllocated_def)
  have rs1: "dynamic_regions nap1 = ?rs" by (simp add: nap1_def)
  define i where "i = scroll ?rs start (case NaClDynamicRegionFindClosestLEQ nap1 (start + sz - 1) of None \<Rightarrow> 0 | Some p \<Rightarrow> p)"
  let ?conflict = "\<exists>r \<in> set ?rs. overlaps r (unat start) (unat sz)"
  note C = Create_conflict_iff [of nap1, unfolded rs1, OF ok sz nw]
  have run: "NaClDynamicRegionCreate True nap start sz =
      (if ?conflict then Inr (nap1, False)
       else Inr (nap1\<lparr>dynamic_regions := shift_in ?rs i (new_region start sz)\<rparr>, True))"
  proof -
    have n1: "(if ?full then nap\<lparr>dynamic_regions_allocated :=
        max (dynamic_regions_allocated nap * 2) kMinDynamicRegionsAllocated\<rparr> else nap) = nap1"
      by (simp add: nap1_def alloc_def)
    show ?thesis unfolding NaClDynamicRegionCreate_def Let_def n1 rs1 C by (simp add: i_def new_region_def)
  qed
  show ?thesis
  proof (cases ?conflict)
    case True
    then show ?thesis using run ok room
      by (intro exI [of _ ?rs] exI [of _ alloc] exI [of _ False]) (simp add: nap1_def)
  next
    case False
    note P = Create_position [of nap1, unfolded rs1, OF ok sz nw False i_def]
    have sh: "shift_in ?rs i (new_region start sz) = take i ?rs @ new_region start sz # drop i ?rs" by (rule shift_in_eq [OF P(1)])
    have "set (take i ?rs @ new_region start sz # drop i ?rs) = insert (new_region start sz) (set ?rs)"
      using set_append [of "take i ?rs" "drop i ?rs"] by auto
    then show ?thesis using run False P room
      by (intro exI [of _ "take i ?rs @ new_region start sz # drop i ?rs"] exI [of _ alloc] exI [of _ True]) (simp add: nap1_def sh)
  qed
qed

text \<open>C34: \<open>NaClDynamicRegionCreate\<close> registers a region exactly when no registered region overlaps it; either
  way the table stays sorted and disjoint, fits its buffer, keeps every other region, and no other part
  of the application changes.\<close>

theorem NaClDynamicRegionCreate_correct:
  assumes "regions_ok (dynamic_regions nap)" and "capacity_ok nap" and "0 < unat sz" and "unat start + unat sz < 2 ^ 32"
  shows "\<exists>rs' alloc ok. NaClDynamicRegionCreate True nap start sz =
             Inr (nap\<lparr>dynamic_regions := rs', dynamic_regions_allocated := alloc\<rparr>, ok) \<and>
           (ok \<longleftrightarrow> \<not> (\<exists>r \<in> set (dynamic_regions nap). overlaps r (unat start) (unat sz))) \<and>
           regions_ok rs' \<and> int (length rs') \<le> alloc \<and>
           set rs' = (if ok then insert (new_region start sz) (set (dynamic_regions nap)) else set (dynamic_regions nap))"
  using assms by (rule Create_cases)

definition one_region :: NaClApp where
  "one_region = sample_app\<lparr>dynamic_regions := [region_at 0x40020000 64], dynamic_regions_allocated := 32\<rparr>"

lemma one_region_ok: "regions_ok (dynamic_regions one_region)" "capacity_ok one_region"
  by (simp_all add: one_region_def regions_ok_def region_at_def region_ok_def region_end_def capacity_ok_def)

theorem NaClDynamicRegionCreate_correct_witness:
  "\<exists>nap'. NaClDynamicRegionCreate True one_region 0x40020020 32 = Inr (nap', False)"
  using NaClDynamicRegionCreate_correct [OF one_region_ok, of 32 "0x40020020"]
  by (auto simp: one_region_def region_at_def overlaps_def region_end_def)

section \<open>Finding and deleting\<close>

lemma Find_overlapping:
  assumes "regions_ok (dynamic_regions nap)" and "0 < unat sz" and "unat a + unat sz < 2 ^ 32"
  shows "NaClDynamicRegionFind nap a sz = None \<longleftrightarrow> \<not> (\<exists>r \<in> set (dynamic_regions nap). overlaps r (unat a) (unat sz))"
    and "NaClDynamicRegionFind nap a sz = Some p \<Longrightarrow>
           p < length (dynamic_regions nap) \<and> overlaps (dynamic_regions nap ! p) (unat a) (unat sz)"
proof -
  show "NaClDynamicRegionFind nap a sz = None \<longleftrightarrow> \<not> (\<exists>r \<in> set (dynamic_regions nap). overlaps r (unat a) (unat sz))"
    unfolding Create_conflict_iff [OF assms, symmetric] by (auto simp: NaClDynamicRegionFind_def split: option.splits)
  assume "NaClDynamicRegionFind nap a sz = Some p"
  then have "NaClDynamicRegionFindClosestLEQ nap (a + sz - 1) = Some p"
    "a < dr_start (dynamic_regions nap ! p) + dr_size (dynamic_regions nap ! p)"
    by (auto simp: NaClDynamicRegionFind_def split: option.splits if_splits)
  from closest_overlaps_range [OF assms this]
  show "p < length (dynamic_regions nap) \<and> overlaps (dynamic_regions nap ! p) (unat a) (unat sz)" by simp
qed

lemma overlapping_disjoint:
  assumes "regions_ok rs" and "i < length rs" and "j < length rs" and "overlaps (rs ! i) a n" and "overlaps (rs ! j) a n"
    and "unat (dr_start (rs ! i)) \<le> a" and "a + n \<le> region_end (rs ! i)"
  shows "j = i"
proof -
  have "\<not> i < j" using regions_ok_nth(2) [OF assms(1,3), of i] assms(5,7) unfolding overlaps_def by linarith
  moreover have "\<not> j < i" using regions_ok_nth(2) [OF assms(1,2), of j] assms(5,6) unfolding overlaps_def by linarith
  ultimately show ?thesis by linarith
qed

lemma Find_exact:
  assumes ok: "regions_ok (dynamic_regions nap)" and p: "p < length (dynamic_regions nap)" and sz: "0 < unat sz"
    and inside: "unat (dr_start (dynamic_regions nap ! p)) \<le> unat a" "unat a + unat sz \<le> region_end (dynamic_regions nap ! p)"
  shows "NaClDynamicRegionFind nap a sz = Some p"
proof -
  let ?rs = "dynamic_regions nap"
  have nw: "unat a + unat sz < 2 ^ 32" using regions_ok_nth(1) [OF ok p] inside(2) by (simp add: region_ok_def)
  have o: "overlaps (?rs ! p) (unat a) (unat sz)" using inside sz by (simp add: overlaps_def)
  then have "NaClDynamicRegionFind nap a sz \<noteq> None"
    using Find_overlapping(1) [OF ok sz nw] nth_mem [OF p] by blast
  then obtain q where q: "NaClDynamicRegionFind nap a sz = Some q" by blast
  then have "q = p" using Find_overlapping(2) [OF ok sz nw q] overlapping_disjoint [OF ok p _ o _ inside, of q] by blast
  with q show ?thesis by simp
qed

lemma delete_region_ok:
  assumes "regions_ok rs" and "i < length rs"
  shows "regions_ok (take i rs @ drop (Suc i) rs)" and "set (take i rs @ drop (Suc i) rs) = set rs - {rs ! i}"
proof -
  let ?R = "\<lambda>r s. region_end r \<le> unat (dr_start s)"
  have split: "rs = take i rs @ rs ! i # drop (Suc i) rs" using assms(2) by (rule id_take_nth_drop)
  have s: "sorted_wrt ?R (take i rs @ rs ! i # drop (Suc i) rs)"
    using assms(1) unfolding regions_ok_def by (subst split [symmetric]) simp
  then have "sorted_wrt ?R (take i rs @ drop (Suc i) rs)" by (simp add: sorted_wrt_append)
  moreover have "set (take i rs @ drop (Suc i) rs) \<subseteq> set rs" by (auto dest: in_set_takeD in_set_dropD)
  ultimately show "regions_ok (take i rs @ drop (Suc i) rs)" using assms(1) by (auto simp: regions_ok_def)
  have distinct: "rs ! j \<noteq> rs ! i" if "j < length rs" "j \<noteq> i" for j
    using regions_ok_nth(1) [OF assms(1) that(1)] regions_ok_nth(2) [OF assms(1) that(1), of i]
      regions_ok_nth(1) [OF assms] regions_ok_nth(2) [OF assms, of j] that(2)
    by (cases "i < j") (auto simp: region_ok_def region_end_def)
  have "rs ! i \<notin> set (take i rs @ drop (Suc i) rs)"
    using distinct assms(2) by (auto simp: in_set_conv_nth)
  moreover have "set rs = insert (rs ! i) (set (take i rs @ drop (Suc i) rs))"
    by (subst split) simp
  ultimately show "set (take i rs @ drop (Suc i) rs) = set rs - {rs ! i}" by blast
qed

lemma Delete_cases:
  assumes "regions_ok (dynamic_regions nap)" and "capacity_ok nap" and "i < length (dynamic_regions nap)"
  shows "\<exists>rs' alloc. NaClDynamicRegionDelete True nap i = Inr (nap\<lparr>dynamic_regions := rs', dynamic_regions_allocated := alloc\<rparr>) \<and>
           regions_ok rs' \<and> int (length rs') \<le> alloc \<and> set rs' = set (dynamic_regions nap) - {dynamic_regions nap ! i}"
proof -
  let ?rs = "dynamic_regions nap"
  define rs' where "rs' = take i ?rs @ drop (Suc i) ?rs"
  define alloc where "alloc = (if dynamic_regions_allocated nap > kMinDynamicRegionsAllocated \<and>
      dynamic_regions_allocated nap div 4 > int (length rs') then dynamic_regions_allocated nap div 2 else dynamic_regions_allocated nap)"
  have "NaClDynamicRegionDelete True nap i = Inr (nap\<lparr>dynamic_regions := rs', dynamic_regions_allocated := alloc\<rparr>)"
    using assms(3) by (simp add: NaClDynamicRegionDelete_def Let_def shift_down_eq rs'_def alloc_def)
  moreover have "int (length rs') \<le> alloc"
    using assms(2,3) by (auto simp: alloc_def rs'_def capacity_ok_def)
  ultimately show ?thesis using delete_region_ok [OF assms(1,3)] unfolding rs'_def [symmetric] by blast
qed

section \<open>The interface of the table\<close>

text \<open>
  What the dynamic code calls rely on: regions are disjoint, a region is added exactly when it meets no
  other, and removing one frees its span.
\<close>

locale region_table =
  fixes ok :: "'t \<Rightarrow> bool" and regions :: "'t \<Rightarrow> 'r set" and span :: "'r \<Rightarrow> nat set" and legal :: "'r \<Rightarrow> bool"
    and create :: "'r \<Rightarrow> 't \<Rightarrow> 't option" and remove :: "'r \<Rightarrow> 't \<Rightarrow> 't"
  assumes disjoint: "ok t \<Longrightarrow> r \<in> regions t \<Longrightarrow> s \<in> regions t \<Longrightarrow> r \<noteq> s \<Longrightarrow> span r \<inter> span s = {}"
    and create_None: "ok t \<Longrightarrow> legal r \<Longrightarrow> create r t = None \<longleftrightarrow> (\<exists>s \<in> regions t. span r \<inter> span s \<noteq> {})"
    and create_Some: "ok t \<Longrightarrow> legal r \<Longrightarrow> create r t = Some t' \<Longrightarrow> ok t' \<and> regions t' = insert r (regions t)"
    and remove_ok: "ok t \<Longrightarrow> r \<in> regions t \<Longrightarrow> ok (remove r t) \<and> regions (remove r t) = regions t - {r}"
begin

lemma one_region_per_byte:
  "ok t \<Longrightarrow> r \<in> regions t \<Longrightarrow> s \<in> regions t \<Longrightarrow> a \<in> span r \<Longrightarrow> a \<in> span s \<Longrightarrow> r = s"
  using disjoint by blast

text \<open>A region that was deleted can be loaded again at once.\<close>

lemma reuse:
  assumes "ok t" and "r \<in> regions t" and "legal r"
  obtains t' where "create r (remove r t) = Some t'" "regions t' = regions t"
proof -
  note rm = remove_ok [OF assms(1,2)]
  have "span r \<inter> span s = {}" if "s \<in> regions (remove r t)" for s
    using rm disjoint [OF assms(1,2), of s] that by auto
  then have "create r (remove r t) \<noteq> None" using create_None [of "remove r t" r] rm assms(3) by blast
  then obtain t' where t': "create r (remove r t) = Some t'" by blast
  then have "regions t' = insert r (regions t - {r})" using create_Some [of "remove r t" r t'] rm assms(3) by simp
  then show ?thesis using that t' assms(2) by (simp add: insert_absorb)
qed

text \<open>A load that is followed by its deletion leaves the regions as they were.\<close>

lemma load_unload:
  assumes "ok t" and "legal r" and "create r t = Some t'" and "span r \<noteq> {}"
  shows "regions (remove r t') = regions t"
proof -
  have "r \<notin> regions t"
  proof
    assume "r \<in> regions t"
    then have "create r t = None" using create_None [OF assms(1,2)] assms(4) by blast
    then show False using assms(3) by simp
  qed
  moreover have "ok t'" "regions t' = insert r (regions t)" using create_Some [OF assms(1-3)] by simp_all
  ultimately show ?thesis using remove_ok [of t' r] by simp
qed

end

definition region_span :: "NaClDynamicRegion \<Rightarrow> nat set" where
  "region_span r = {unat (dr_start r)..<region_end r}"

definition table_create :: "NaClDynamicRegion \<Rightarrow> NaClApp \<Rightarrow> NaClApp option" where
  "table_create r nap =
     (case NaClDynamicRegionCreate True nap (dr_start r) (dr_size r) of
        Inr (nap', True) \<Rightarrow> Some nap' | _ \<Rightarrow> None)"

definition table_remove :: "NaClDynamicRegion \<Rightarrow> NaClApp \<Rightarrow> NaClApp" where
  "table_remove r nap =
     (case NaClDynamicRegionFind nap (dr_start r) (dr_size r) of
        None \<Rightarrow> nap
      | Some i \<Rightarrow> (case NaClDynamicRegionDelete True nap i of Inr nap' \<Rightarrow> nap' | Inl _ \<Rightarrow> nap))"

definition table_ok :: "NaClApp \<Rightarrow> bool" where
  "table_ok nap \<longleftrightarrow> regions_ok (dynamic_regions nap) \<and> capacity_ok nap"

lemma overlaps_span: "overlaps r a n \<and> 0 < n \<and> 0 < unat (dr_size r) \<longleftrightarrow> region_span r \<inter> {a..<a + n} \<noteq> {} \<and> 0 < n \<and> 0 < unat (dr_size r)"
  by (auto simp: overlaps_def region_span_def region_end_def)

lemma Find_self:
  assumes "table_ok nap" and "r \<in> set (dynamic_regions nap)"
  obtains i where "i < length (dynamic_regions nap)" "r = dynamic_regions nap ! i"
    "NaClDynamicRegionFind nap (dr_start r) (dr_size r) = Some i"
proof -
  obtain i where i: "i < length (dynamic_regions nap)" "r = dynamic_regions nap ! i" using assms(2) by (auto simp: in_set_conv_nth)
  have ok: "regions_ok (dynamic_regions nap)" using assms(1) by (simp add: table_ok_def)
  have "0 < unat (dr_size r)" using regions_ok_nth(1) [OF ok i(1)] i(2) by (simp add: region_ok_def)
  then have "NaClDynamicRegionFind nap (dr_start r) (dr_size r) = Some i"
    by (intro Find_exact [OF ok i(1)]) (simp_all add: i(2) region_end_def)
  then show ?thesis using that i by blast
qed

interpretation rt: region_table table_ok "\<lambda>nap. set (dynamic_regions nap)" region_span
    "\<lambda>r. region_ok r \<and> delete_generation r = - 1" table_create table_remove
proof
  fix nap r s assume ok: "table_ok nap" and r: "r \<in> set (dynamic_regions nap)" and s: "s \<in> set (dynamic_regions nap)" and ne: "r \<noteq> s"
  obtain i j where ij: "i < length (dynamic_regions nap)" "r = dynamic_regions nap ! i" "j < length (dynamic_regions nap)"
    "s = dynamic_regions nap ! j" using r s by (auto simp: in_set_conv_nth)
  have R: "regions_ok (dynamic_regions nap)" using ok by (simp add: table_ok_def)
  have "i < j \<or> j < i" using ij ne by (metis linorder_neqE_nat)
  then show "region_span r \<inter> region_span s = {}"
    using regions_ok_nth(2) [OF R ij(1), of j] regions_ok_nth(2) [OF R ij(3), of i] ij(2,4) by (auto simp: region_span_def)
next
  fix nap and r :: NaClDynamicRegion
  assume ok: "table_ok nap" and legal: "region_ok r \<and> delete_generation r = - 1"
  have rr: "new_region (dr_start r) (dr_size r) = r" using legal by (simp add: new_region_def)
  obtain rs' alloc b where c: "NaClDynamicRegionCreate True nap (dr_start r) (dr_size r) =
        Inr (nap\<lparr>dynamic_regions := rs', dynamic_regions_allocated := alloc\<rparr>, b)"
      "b \<longleftrightarrow> \<not> (\<exists>s \<in> set (dynamic_regions nap). overlaps s (unat (dr_start r)) (unat (dr_size r)))"
      "regions_ok rs'" "int (length rs') \<le> alloc"
      "set rs' = (if b then insert r (set (dynamic_regions nap)) else set (dynamic_regions nap))"
    using Create_cases [of nap "dr_size r" "dr_start r"] ok legal rr by (auto simp: table_ok_def region_ok_def region_end_def)
  have "overlaps s (unat (dr_start r)) (unat (dr_size r)) \<longleftrightarrow> region_span r \<inter> region_span s \<noteq> {}" if "s \<in> set (dynamic_regions nap)" for s
    using overlaps_span [of s "unat (dr_start r)" "unat (dr_size r)"] that ok legal
    by (auto simp: table_ok_def regions_ok_def region_ok_def region_span_def region_end_def overlaps_def)
  then show "table_create r nap = None \<longleftrightarrow> (\<exists>s \<in> set (dynamic_regions nap). region_span r \<inter> region_span s \<noteq> {})"
    using c(1,2) by (auto simp: table_create_def split: bool.splits)
  show "table_ok nap' \<and> set (dynamic_regions nap') = insert r (set (dynamic_regions nap))" if "table_create r nap = Some nap'" for nap'
    using that c by (auto simp: table_create_def table_ok_def capacity_ok_def split: bool.splits)
next
  fix nap r assume ok: "table_ok nap" and r: "r \<in> set (dynamic_regions nap)"
  obtain i where i: "i < length (dynamic_regions nap)" "r = dynamic_regions nap ! i"
    "NaClDynamicRegionFind nap (dr_start r) (dr_size r) = Some i" by (rule Find_self [OF ok r])
  from Delete_cases [OF _ _ i(1)] ok obtain rs' alloc where d:
    "NaClDynamicRegionDelete True nap i = Inr (nap\<lparr>dynamic_regions := rs', dynamic_regions_allocated := alloc\<rparr>)"
    "regions_ok rs'" "int (length rs') \<le> alloc" "set rs' = set (dynamic_regions nap) - {r}"
    using i(2) by (auto simp: table_ok_def)
  then show "table_ok (table_remove r nap) \<and> set (dynamic_regions (table_remove r nap)) = set (dynamic_regions nap) - {r}"
    using i(3) by (simp add: table_remove_def table_ok_def capacity_ok_def)
qed

text \<open>C35: Registering a region and deleting it again (found by \<open>NaClDynamicRegionFind\<close>, as the delete call
  does) brings back the same set of regions, and the same address range can then be registered again.\<close>

theorem dynamic_region_reuse:
  assumes "table_ok nap" and "region_ok r" and "delete_generation r = - 1" and "table_create r nap = Some nap'"
  shows "set (dynamic_regions (table_remove r nap')) = set (dynamic_regions nap) \<and> table_create r (table_remove r nap') \<noteq> None"
proof -
  have legal: "region_ok r \<and> delete_generation r = - 1" using assms(2,3) by simp
  have ne: "region_span r \<noteq> {}" using assms(2) by (auto simp: region_span_def region_ok_def region_end_def)
  have n': "table_ok nap'" "r \<in> set (dynamic_regions nap')" using rt.create_Some [OF assms(1) legal assms(4)] by simp_all
  obtain t where "table_create r (table_remove r nap') = Some t" by (rule rt.reuse [OF n' legal])
  then show ?thesis using rt.load_unload [OF assms(1) legal assms(4) ne] by simp
qed

theorem dynamic_region_reuse_witness:
  "\<exists>nap'. table_create (region_at 0x40030000 32) one_region = Some nap' \<and>
     set (dynamic_regions (table_remove (region_at 0x40030000 32) nap')) = {region_at 0x40020000 64}"
proof -
  let ?r = "region_at 0x40030000 32"
  have r: "region_ok ?r" "delete_generation ?r = - 1" by (simp_all add: region_at_def region_ok_def region_end_def)
  have t: "table_ok one_region" using one_region_ok by (simp add: table_ok_def)
  have "table_create ?r one_region \<noteq> None"
    using rt.create_None [OF t conjI [OF r]] by (auto simp: one_region_def region_at_def region_span_def region_end_def)
  then obtain nap' where c: "table_create ?r one_region = Some nap'" by blast
  from dynamic_region_reuse [OF t r c] c show ?thesis by (auto simp: one_region_def)
qed

end
