(* ===== verification/Code_Install.thy ===== *)
theory Code_Install
  imports Copy_Code
begin

text \<open>
  Installing and removing code in the dynamic text of a running program, \<open>CopyBundleTails\<close>,
  \<open>CopyBundleHeads\<close>, \<open>ReplaceBundleHeadsWithHalts\<close> and \<open>CopyCodeSafelyInitial\<close> of
  \<open>service_runtime/nacl_text.c\<close>. The word stores, each atomic because its address is a multiple of 4, become
  visible in program order: that is what \<open>NaClWriteMemoryBarrier\<close> secures, so it has no effect of its own
  in the model.
\<close>

section \<open>The loops\<close>

definition NACL_HALT_WORD :: "u8 list" where "NACL_HALT_WORD = [0xf4, 0xf4, 0xf4, 0xf4]"

type_synonym store_run = "memory \<times> code_event list"

fun issue :: "store_run \<Rightarrow> code_event list \<Rightarrow> store_run" where
  "issue (m, evs) es = (foldl apply_event m es, evs @ es)"

text \<open>A loop of word stores from \<open>p\<close> to \<open>endp\<close>; \<open>body\<close> gives the stores of one round. \<open>None\<close> is a
  pointer that wraps around for ever.\<close>

partial_function (option) stride_loop ::
    "u32 \<Rightarrow> (memory \<Rightarrow> uintptr_t \<Rightarrow> code_event list) \<Rightarrow> uintptr_t \<Rightarrow> uintptr_t \<Rightarrow> store_run \<Rightarrow> store_run option" where
  "stride_loop stride body endp p s =
     (if p < endp then stride_loop stride body endp (p + stride) (issue s (body (fst s) p)) else Some s)"

declare stride_loop.simps [code]

definition tail_store :: "u32 \<Rightarrow> uintptr_t \<Rightarrow> uintptr_t \<Rightarrow> memory \<Rightarrow> uintptr_t \<Rightarrow> code_event list" where
  "tail_store bundle_mask dest src m dest_ptr =
     (if dest_ptr AND bundle_mask \<noteq> 0 then [Store dest_ptr (mem_read m (src + (dest_ptr - dest)) 4)] else [])"

definition CopyBundleTails :: "uintptr_t \<Rightarrow> uintptr_t \<Rightarrow> u32 \<Rightarrow> u32 \<Rightarrow> store_run \<Rightarrow> store_run res option" where
  "CopyBundleTails dest src sz bsize s =
     (let bundle_mask = bsize - 1 in
      if dest AND 3 \<noteq> 0 then Some (Inl CheckFailed)
      else map_option Inr (stride_loop 4 (tail_store bundle_mask dest src) (dest + sz) dest s))"

definition head_store :: "uintptr_t \<Rightarrow> uintptr_t \<Rightarrow> memory \<Rightarrow> uintptr_t \<Rightarrow> code_event list" where
  "head_store dest src m dest_ptr = [Store dest_ptr (mem_read m (src + (dest_ptr - dest)) 4)]"

definition CopyBundleHeads :: "uintptr_t \<Rightarrow> uintptr_t \<Rightarrow> u32 \<Rightarrow> u32 \<Rightarrow> store_run \<Rightarrow> store_run res option" where
  "CopyBundleHeads dest src sz bsize s =
     (if dest AND 3 \<noteq> 0 then Some (Inl CheckFailed)
      else map_option Inr (stride_loop bsize (head_store dest src) (dest + sz) dest s))"

definition halt_store :: "memory \<Rightarrow> uintptr_t \<Rightarrow> code_event list" where
  "halt_store m dest_ptr = [Store dest_ptr NACL_HALT_WORD]"

definition ReplaceBundleHeadsWithHalts :: "uintptr_t \<Rightarrow> u32 \<Rightarrow> u32 \<Rightarrow> store_run \<Rightarrow> store_run option" where
  "ReplaceBundleHeadsWithHalts dest sz bsize s =
     stride_loop (bsize div 4 * 4) halt_store (dest + sz) dest s"

definition CopyCodeSafelyInitial :: "uintptr_t \<Rightarrow> uintptr_t \<Rightarrow> u32 \<Rightarrow> u32 \<Rightarrow> store_run \<Rightarrow> store_run res option" where
  "CopyCodeSafelyInitial dest src sz bsize s =
     bind_run (CopyBundleTails dest src sz bsize s) (CopyBundleHeads dest src sz bsize)"

section \<open>What a loop does\<close>

lemma stride_loop_rounds:
  assumes "unat p + unat stride * n < 2 ^ 32" and "0 < unat stride" and "endp = p + stride * of_nat n"
  shows "stride_loop stride body endp p s =
           Some (foldl (\<lambda>s k. issue s (body (fst s) (p + stride * of_nat k))) s [0..<n])"
  using assms
proof (induction n arbitrary: p s)
  case 0
  then show ?case by (simp add: stride_loop.simps)
next
  case (Suc n)
  have st: "unat (p + stride) = unat p + unat stride"
    using unat_add_no_wrap [of p stride] Suc.prems(1) by simp
  have "unat endp = unat p + unat stride * Suc n"
  proof -
    have "endp = of_nat (unat p + unat stride * Suc n)" unfolding Suc.prems(3) by (simp add: algebra_simps)
    then show ?thesis using Suc.prems(1) by (simp only: unat_of_nat) simp
  qed
  then have "p < endp" using Suc.prems(2) by (simp add: word_less_nat_alt)
  moreover have "stride_loop stride body endp (p + stride) s' =
      Some (foldl (\<lambda>s k. issue s (body (fst s) (p + stride + stride * of_nat k))) s' [0..<n])" for s'
    by (rule Suc.IH) (use Suc.prems st in \<open>simp_all add: algebra_simps\<close>)
  moreover have "[0..<Suc n] = 0 # map Suc [0..<n]" by (simp add: upt_conv_Cons map_Suc_upt)
  ultimately show ?case
    by (simp add: stride_loop.simps [of stride body endp p s] foldl_map algebra_simps)
qed

text \<open>When the stores do not disturb what the body reads, the rounds can be read off the first memory.\<close>

lemma stride_rounds_const:
  assumes "\<And>k m'. k < n \<Longrightarrow> (\<And>x. x \<in> X \<Longrightarrow> m' x = m x) \<Longrightarrow> body m' (q k) = body m (q k)"
    and "\<And>k m' x. k < n \<Longrightarrow> x \<in> X \<Longrightarrow> foldl apply_event m' (body m (q k)) x = m' x"
    and "\<And>x. x \<in> X \<Longrightarrow> m0 x = m x"
  shows "foldl (\<lambda>s k. issue s (body (fst s) (q k))) (m0, evs) [0..<n] =
           (foldl apply_event m0 (concat (map (\<lambda>k. body m (q k)) [0..<n])), evs @ concat (map (\<lambda>k. body m (q k)) [0..<n])) \<and>
         (\<forall>x \<in> X. foldl apply_event m0 (concat (map (\<lambda>k. body m (q k)) [0..<n])) x = m x)"
  using assms(1,2)
proof (induction n)
  case (Suc n)
  let ?es = "concat (map (\<lambda>k. body m (q k)) [0..<n])"
  let ?m1 = "foldl apply_event m0 ?es"
  have ih: "foldl (\<lambda>s k. issue s (body (fst s) (q k))) (m0, evs) [0..<n] = (?m1, evs @ ?es)" "\<forall>x \<in> X. ?m1 x = m x"
  proof -
    have "foldl (\<lambda>s k. issue s (body (fst s) (q k))) (m0, evs) [0..<n] = (?m1, evs @ ?es) \<and> (\<forall>x \<in> X. ?m1 x = m x)"
      by (rule Suc.IH) (use Suc.prems in \<open>blast intro: less_SucI\<close>)+
    then show "foldl (\<lambda>s k. issue s (body (fst s) (q k))) (m0, evs) [0..<n] = (?m1, evs @ ?es)" "\<forall>x \<in> X. ?m1 x = m x"
      by blast+
  qed
  have "body ?m1 (q n) = body m (q n)" using Suc.prems(1) [OF lessI, of ?m1] ih(2) by blast
  moreover have "foldl apply_event ?m1 (body m (q n)) x = m x" if "x \<in> X" for x
    using Suc.prems(2) [OF lessI that, of ?m1] ih(2) that by simp
  ultimately show ?case using ih by simp
qed (use assms(3) in simp)

section \<open>Which memories other threads can see\<close>

lemma rounds_visible:
  assumes "M 0 = m"
    and "\<And>k. k < n \<Longrightarrow> f k = [] \<and> M (Suc k) = M k \<or> (\<exists>a bs. f k = [Store a bs] \<and> store_atomic a (length bs) \<and> M (Suc k) = mem_write (M k) a bs)"
  shows "foldl apply_event m (concat (map f [0..<n])) = M n"
    and "visible m (concat (map f [0..<n])) m' \<Longrightarrow> \<exists>j \<le> n. m' = M j"
proof -
  have "foldl apply_event m (concat (map f [0..<n])) = M n \<and>
      (visible m (concat (map f [0..<n])) m' \<longrightarrow> (\<exists>j \<le> n. m' = M j))"
    using assms
  proof (induction n)
    case (Suc n)
    let ?es = "concat (map f [0..<n])"
    have ih: "foldl apply_event m ?es = M n" "visible m ?es m' \<Longrightarrow> \<exists>j \<le> n. m' = M j"
      using Suc.IH [OF Suc.prems(1)] Suc.prems(2) by (simp_all add: less_SucI)
    have "\<exists>j \<le> Suc n. m' = M j" if v: "visible m (?es @ f n) m'"
    proof -
      consider "visible m ?es m'" | "m' = M n" | "m' = M (Suc n)"
        using v ih(1) Suc.prems(2) [OF lessI] by (auto simp: visible_append)
      then show ?thesis using ih(2) by cases (blast intro: le_SucI le_refl)+
    qed
    then show ?case using ih(1) Suc.prems(2) [OF lessI] by auto
  qed simp
  then show "foldl apply_event m (concat (map f [0..<n])) = M n"
    "visible m (concat (map f [0..<n])) m' \<Longrightarrow> \<exists>j \<le> n. m' = M j" by blast+
qed

text \<open>Word stores at multiples of 4 from an aligned address are atomic.\<close>

lemma word_store_atomic:
  fixes dest :: uintptr_t
  assumes "4 dvd unat dest" and "4 dvd d" and "unat dest + d < 2 ^ 32"
  shows "store_atomic (dest + of_nat d) 4"
proof -
  have "unat (dest + of_nat d) = unat dest + d"
    using unat_add_no_wrap [of dest "of_nat d"] assms(3) by (simp add: unat_of_nat)
  then show ?thesis using assms(1,2) by (simp add: store_atomic_def)
qed

text \<open>Memory in which the bytes at the offsets of \<open>D\<close> from \<open>a\<close> come from the block at \<open>b\<close>.\<close>

definition overlay :: "memory \<Rightarrow> uintptr_t \<Rightarrow> (nat \<Rightarrow> bool) \<Rightarrow> (nat \<Rightarrow> u8) \<Rightarrow> memory" where
  "overlay m a D v = (\<lambda>x. if D (unat (x - a)) then v (unat (x - a)) else m x)"

lemma overlay_at: "d < 2 ^ 32 \<Longrightarrow> overlay m a D v (a + of_nat d) = (if D d then v d else m (a + of_nat d))"
proof -
  assume d: "d < 2 ^ 32"
  have "unat (a + of_nat d - a) = d" using unat_offset_less(2) [OF d, of 0 0 a] by simp
  then show ?thesis by (simp add: overlay_def)
qed

lemma overlay_store:
  assumes "k + length bs \<le> 2 ^ 32" and "\<And>i. i < length bs \<Longrightarrow> bs ! i = v (k + i)"
    and "\<And>d. D' d \<longleftrightarrow> D d \<or> k \<le> d \<and> d < k + length bs"
  shows "mem_write (overlay m a D v) (a + of_nat k) bs = overlay m a D' v"
proof (rule memory_eqI)
  fix d :: nat assume d: "d < 2 ^ 32"
  show "mem_write (overlay m a D v) (a + of_nat k) bs (a + of_nat d) = overlay m a D' v (a + of_nat d)"
    using mem_write_offset [OF d assms(1), of "overlay m a D v" a] overlay_at [OF d] assms(2) [of "d - k"] assms(3) [of d] by auto
qed

lemma overlay_write: "n \<le> 2 ^ 32 \<Longrightarrow> overlay m a (\<lambda>d. d < n) (\<lambda>d. m (b + of_nat d)) = mem_write m a (mem_read m b n)"
proof (rule memory_eqI)
  fix d :: nat assume n: "n \<le> 2 ^ 32" and d: "d < 2 ^ 32"
  show "overlay m a (\<lambda>d. d < n) (\<lambda>d. m (b + of_nat d)) (a + of_nat d) = mem_write m a (mem_read m b n) (a + of_nat d)"
    using mem_write_offset [OF d, of 0 "mem_read m b n" m a] overlay_at [OF d] n by simp
qed

lemma overlay_outside: "(\<And>d. D d \<Longrightarrow> d < n) \<Longrightarrow> same_outside m (overlay m a D v) a n"
  unfolding same_outside_def using overlay_at by (metis leD)

section \<open>Bundles\<close>

definition bundled :: "uintptr_t \<Rightarrow> u32 \<Rightarrow> u32 \<Rightarrow> bool" where
  "bundled dest sz bsize \<longleftrightarrow> (bsize = 16 \<or> bsize = 32) \<and> dest AND (bsize - 1) = 0 \<and> sz AND (bsize - 1) = 0 \<and>
     unat dest + unat sz < 2 ^ 32"

lemma bundled_shift:
  assumes "bundled dest sz bsize"
  obtains n where "n = 4 \<or> n = 5" "bsize = 2 ^ n"
  using assms that [of 4] that [of 5] by (auto simp: bundled_def)

lemma bundled_nat:
  assumes "bundled dest sz bsize"
  shows "unat bsize = 16 \<or> unat bsize = 32" and "unat dest mod unat bsize = 0" and "unat sz mod unat bsize = 0"
    and "unat dest mod 4 = 0" and "unat sz mod 4 = 0" and "dest AND 3 = 0" and "bsize div 4 * 4 = bsize"
proof -
  obtain n where n: "n = 4 \<or> n = 5" "bsize = 2 ^ n" by (rule bundled_shift [OF assms])
  have b: "unat bsize = 2 ^ n" using n by auto
  show "unat bsize = 16 \<or> unat bsize = 32" using n b by auto
  have "bsize - 1 = mask n" using n(2) by (simp add: mask_eq_exp_minus_1)
  then have d: "dest AND mask n = 0" "sz AND mask n = 0" using assms by (simp_all add: bundled_def)
  show dm: "unat dest mod unat bsize = 0" "unat sz mod unat bsize = 0"
    unfolding b unat_and_mask_mod [symmetric] d by simp_all
  have "4 dvd unat bsize" using n b by auto
  then show "unat dest mod 4 = 0" "unat sz mod 4 = 0" using dm by (meson dvd_eq_mod_eq_0 dvd_trans)+
  then have "unat (dest AND mask 2) = 0" unfolding unat_and_mask_mod by simp
  then show "dest AND 3 = 0" by (simp add: mask_eq_exp_minus_1 unat_eq_zero)
  show "bsize div 4 * 4 = bsize" using n by auto
qed

lemma bundle_offset_zero:
  assumes "bundled dest sz bsize" and "d < unat sz"
  shows "(dest + of_nat d) AND (bsize - 1) = 0 \<longleftrightarrow> d mod unat bsize = 0"
proof -
  obtain n where n: "n = 4 \<or> n = 5" "bsize = 2 ^ n" by (rule bundled_shift [OF assms(1)])
  have b: "unat bsize = 2 ^ n" using n by auto
  have m: "bsize - 1 = mask n" using n(2) by (simp add: mask_eq_exp_minus_1)
  have u: "unat (dest + of_nat d) = unat dest + d"
  proof -
    have lt: "unat dest + d < 2 ^ 32" using assms by (simp add: bundled_def)
    then have "unat (of_nat d :: u32) = d" by (simp only: unat_of_nat) simp
    then show ?thesis using unat_add_no_wrap [of dest "of_nat d"] lt by simp
  qed
  have "(dest + of_nat d) AND mask n = 0 \<longleftrightarrow> unat ((dest + of_nat d) AND mask n) = 0" by (simp add: unat_eq_zero)
  also have "\<dots> \<longleftrightarrow> (unat dest + d) mod unat bsize = 0" unfolding unat_and_mask_mod u b ..
  also have "\<dots> \<longleftrightarrow> d mod unat bsize = 0" using bundled_nat(2) [OF assms(1)] by (metis add.left_neutral mod_add_left_eq)
  finally show ?thesis unfolding m .
qed

section \<open>Installing code\<close>

lemma of_nat_diff_dest: "(dest + of_nat d) - dest = (of_nat d :: u32)"
  by simp

lemma read_shifted:
  assumes "\<And>i. i < n \<Longrightarrow> i < s \<Longrightarrow> m' (src + of_nat i) = m (src + of_nat i)" and "k + 4 \<le> n" and "k + 4 \<le> s"
  shows "mem_read m' (src + of_nat k) 4 = mem_read m (src + of_nat k) 4"
  by (rule mem_read_cong) (use assms in \<open>simp add: add.assoc flip: of_nat_add\<close>)

text \<open>The offsets a loop has copied after \<open>k\<close> rounds.\<close>

definition tails_done :: "nat \<Rightarrow> nat \<Rightarrow> nat \<Rightarrow> bool" where
  "tails_done B k d \<longleftrightarrow> d < 4 * k \<and> 4 \<le> d mod B"

definition heads_done :: "nat \<Rightarrow> nat \<Rightarrow> nat \<Rightarrow> nat \<Rightarrow> bool" where
  "heads_done B n k d \<longleftrightarrow> d < n \<and> (4 \<le> d mod B \<or> d div B < k)"

lemma word_in_bundle:
  fixes k d B :: nat
  assumes "B = 16 \<or> B = 32" and "4 * k \<le> d" and "d < 4 * k + 4"
  shows "(4 * k) mod B = 0 \<longleftrightarrow> d mod B < 4"
proof -
  obtain c where c: "B = 4 * c" "0 < c" using assms(1) that [of 4] that [of 8] by auto
  obtain e where e: "d = 4 * k + e" "e < 4" using assms(2,3) by (metis le_add_diff_inverse nat_add_left_cancel_less)
  have r: "(4 * k) mod B = 4 * (k mod c)" unfolding c(1) by (rule mult_mod_right [symmetric])
  have "4 * (k mod c) + e < B" using c mod_less_divisor [OF c(2), of k] e(2) by linarith
  then have "d mod B = 4 * (k mod c) + e"
    unfolding e(1) r [symmetric] by (metis mod_add_left_eq mod_less)
  then show ?thesis using r e(2) by auto
qed

lemma head_in_bundle:
  fixes k d B :: nat
  assumes "B = 16 \<or> B = 32"
  shows "B * k \<le> d \<and> d < B * k + 4 \<longleftrightarrow> d div B = k \<and> d mod B < 4"
proof
  assume l: "B * k \<le> d \<and> d < B * k + 4"
  then obtain e where e: "d = B * k + e" "e < 4" by (metis le_add_diff_inverse nat_add_left_cancel_less)
  moreover have "e < B" "0 < B" using e(2) assms by auto
  ultimately show "d div B = k \<and> d mod B < 4" by simp
next
  assume "d div B = k \<and> d mod B < 4"
  then show "B * k \<le> d \<and> d < B * k + 4" using mult_div_mod_eq [of B d] by auto
qed

definition no_overlap :: "uintptr_t \<Rightarrow> uintptr_t \<Rightarrow> nat \<Rightarrow> bool" where
  "no_overlap a b n \<longleftrightarrow> (\<forall>i < n. \<forall>j < n. a + of_nat i \<noteq> b + of_nat j)"

lemma store_outside_src:
  assumes "no_overlap dest src n" and "k + length bs \<le> n" and "i < n"
  shows "mem_write m (dest + of_nat k) bs (src + of_nat i) = m (src + of_nat i)"
proof (rule mem_write_outside, rule ccontr)
  let ?d = "unat (src + of_nat i - (dest + of_nat k))"
  assume "\<not> length bs \<le> ?d"
  then have "k + ?d < n" using assms(2) by simp
  moreover have "dest + of_nat (k + ?d) = src + of_nat i" by (simp add: algebra_simps)
  ultimately show False using assms(1,3) unfolding no_overlap_def by metis
qed

lemma src_in_overlay:
  assumes "no_overlap dest src n" and "\<And>d. D d \<Longrightarrow> d < n" and "i < n"
  shows "overlay m dest D v (src + of_nat i) = m (src + of_nat i)"
proof -
  let ?d = "unat (src + of_nat i - dest)"
  have "\<not> D ?d"
  proof
    assume "D ?d"
    then have "?d < n" by (rule assms(2))
    moreover have "dest + of_nat ?d = src + of_nat i" by simp
    ultimately show False using assms(1,3) unfolding no_overlap_def by metis
  qed
  then show ?thesis by (simp add: overlay_def)
qed

text \<open>A loop of word stores that copies from the block at \<open>src\<close>: the memory after \<open>k\<close> rounds is an
  overlay, and those are all the memories another thread can see.\<close>

lemma copy_loop_overlay:
  fixes dest src stride :: u32
  defines "q \<equiv> \<lambda>k. dest + stride * of_nat k" and "V \<equiv> \<lambda>m d. m (src + of_nat d)"
  assumes dis: "no_overlap dest src n" and top: "unat dest + n < 2 ^ 32" and st: "4 \<le> unat stride" "unat stride * r = n"
    and body: "\<And>k m'. k < r \<Longrightarrow>
         body m' (q k) = (if G k then [Store (q k) (mem_read m' (src + of_nat (unat stride * k)) 4)] else [])"
    and D: "\<And>k d. k < r \<Longrightarrow> D (Suc k) d \<longleftrightarrow> D k d \<or> G k \<and> unat stride * k \<le> d \<and> d < unat stride * k + 4"
    and al: "4 dvd unat dest" "4 dvd unat stride"
    and D0: "\<And>k d. k \<le> r \<Longrightarrow> D k d \<Longrightarrow> d < n" and m1: "m1 = overlay m dest (D 0) (V m)"
  shows "\<exists>es. stride_loop stride body (dest + stride * of_nat r) dest (m1, evs) = Some (overlay m dest (D r) (V m), evs @ es) \<and>
           foldl apply_event m1 es = overlay m dest (D r) (V m) \<and>
           (\<forall>m'. visible m1 es m' \<longrightarrow> (\<exists>j \<le> r. m' = overlay m dest (D j) (V m)))"
proof -
  let ?S = "unat stride" and ?X = "{src + of_nat i | i. i < n}"
  let ?es = "concat (map (\<lambda>k. body m (q k)) [0..<r])"
  have qk: "q k = dest + of_nat (?S * k)" for k by (simp add: q_def)
  have kn: "?S * k + 4 \<le> n" if "k < r" for k
  proof -
    have "?S * Suc k \<le> ?S * r" using that by (intro mult_le_mono2) simp
    then show ?thesis using st by simp
  qed
  have rd: "mem_read m' (src + of_nat (?S * k)) 4 = mem_read m (src + of_nat (?S * k)) 4"
    if "k < r" "\<And>x. x \<in> ?X \<Longrightarrow> m' x = m x" for k m'
  proof (rule mem_read_cong)
    fix t :: nat assume t: "t < 4"
    have "?S * k + t < n" using kn [OF that(1)] t by simp
    then have "src + of_nat (?S * k + t) \<in> ?X" by blast
    from that(2) [OF this] show "m' (src + of_nat (?S * k) + of_nat t) = m (src + of_nat (?S * k) + of_nat t)"
      by (simp add: add.assoc)
  qed
  have bod: "body m' (q k) = body m (q k)" if "k < r" "\<And>x. x \<in> ?X \<Longrightarrow> m' x = m x" for k m'
    using body [OF that(1), of m'] body [OF that(1), of m] rd [OF that] by simp
  have keep: "foldl apply_event m' (body m (q k)) x = m' x" if k: "k < r" and x: "x \<in> ?X" for k m' x
  proof -
    obtain i where i: "x = src + of_nat i" "i < n" using x by blast
    show ?thesis
      using body [OF k, of m] store_outside_src [OF dis, of "?S * k" "mem_read m (src + of_nat (?S * k)) 4" i m'] kn [OF k] i
      by (simp add: qk)
  qed
  have start: "m1 x = m x" if x: "x \<in> ?X" for x
  proof -
    obtain i where i: "x = src + of_nat i" "i < n" using x by blast
    have d0: "\<And>d. D 0 d \<Longrightarrow> d < n" using D0 [of 0] by simp
    show ?thesis unfolding m1 i(1) by (rule src_in_overlay [OF dis d0 i(2)])
  qed
  have run: "stride_loop stride body (dest + stride * of_nat r) dest (m1, evs) = Some (foldl apply_event m1 ?es, evs @ ?es)"
  proof -
    have "foldl (\<lambda>s k. issue s (body (fst s) (q k))) (m1, evs) [0..<r] = (foldl apply_event m1 ?es, evs @ ?es) \<and>
        (\<forall>x \<in> ?X. foldl apply_event m1 ?es x = m x)"
    proof (rule stride_rounds_const)
      show "body m' (q k) = body m (q k)" if "k < r" "\<And>x. x \<in> ?X \<Longrightarrow> m' x = m x" for k m' by (rule bod [OF that])
      show "foldl apply_event m' (body m (q k)) x = m' x" if "k < r" "x \<in> ?X" for k m' x by (rule keep [OF that])
      show "m1 x = m x" if "x \<in> ?X" for x by (rule start [OF that])
    qed
    moreover have "stride_loop stride body (dest + stride * of_nat r) dest (m1, evs) =
        Some (foldl (\<lambda>s k. issue s (body (fst s) (q k))) (m1, evs) [0..<r])"
      unfolding q_def by (rule stride_loop_rounds) (use top st in simp_all)
    ultimately show ?thesis by simp
  qed
  have step: "body m (q k) = [] \<and> overlay m dest (D (Suc k)) (V m) = overlay m dest (D k) (V m) \<or>
      (\<exists>a bs. body m (q k) = [Store a bs] \<and> store_atomic a (length bs) \<and> overlay m dest (D (Suc k)) (V m) = mem_write (overlay m dest (D k) (V m)) a bs)"
    if k: "k < r" for k
  proof (cases "G k")
    case True
    let ?bs = "mem_read m (src + of_nat (?S * k)) 4"
    have "mem_write (overlay m dest (D k) (V m)) (dest + of_nat (?S * k)) ?bs = overlay m dest (D (Suc k)) (V m)"
      by (rule overlay_store) (use kn [OF k] top D [OF k] True in \<open>simp_all add: V_def add.assoc\<close>)
    moreover have "store_atomic (q k) (length ?bs)"
      unfolding qk using word_store_atomic [of dest "?S * k"] al kn [OF k] top by simp
    ultimately show ?thesis using body [OF k, of m] True by (auto simp: qk)
  next
    case False
    then have "D (Suc k) = D k" using D [OF k] by (intro ext) simp
    then show ?thesis using body [OF k, of m] False by simp
  qed
  note R = rounds_visible [where M = "\<lambda>k. overlay m dest (D k) (V m)" and m = m1 and f = "\<lambda>k. body m (q k)" and n = r, OF m1 [symmetric]]
  have "foldl apply_event m1 ?es = overlay m dest (D r) (V m)" by (rule R(1)) (rule step)
  moreover have "\<exists>j \<le> r. m' = overlay m dest (D j) (V m)" if "visible m1 ?es m'" for m' by (rule R(2)) (rule step, assumption, rule that)
  ultimately show ?thesis using run by (intro exI [of _ ?es] conjI allI impI) simp_all
qed

lemma CopyBundleTails_phase:
  fixes dest src sz bsize :: u32 and m :: memory
  defines "V \<equiv> \<lambda>d. m (src + of_nat d)" and "T \<equiv> \<lambda>k. overlay m dest (tails_done (unat bsize) k) (\<lambda>d. m (src + of_nat d))"
  assumes b: "bundled dest sz bsize" and dis: "no_overlap dest src (unat sz)"
  shows "\<exists>es. CopyBundleTails dest src sz bsize (m, evs) = Some (Inr (T (unat sz div 4), evs @ es)) \<and>
           foldl apply_event m es = T (unat sz div 4) \<and> (\<forall>m'. visible m es m' \<longrightarrow> (\<exists>j \<le> unat sz div 4. m' = T j))"
proof -
  let ?B = "unat bsize" and ?r = "unat sz div 4"
  note bn = bundled_nat [OF b]
  have top: "unat dest + unat sz < 2 ^ 32" using b by (simp add: bundled_def)
  have r4: "4 * ?r = unat sz" using bn(5) mult_div_mod_eq [of 4 "unat sz"] by linarith
  have sz4: "sz = 4 * of_nat ?r"
  proof -
    have "(4 * of_nat ?r :: u32) = of_nat (4 * ?r)" by simp
    then show ?thesis unfolding r4 by simp
  qed
  have "\<exists>es. stride_loop 4 (tail_store (bsize - 1) dest src) (dest + 4 * of_nat ?r) dest (m, evs) =
        Some (overlay m dest (tails_done ?B ?r) (\<lambda>d. m (src + of_nat d)), evs @ es) \<and>
      foldl apply_event m es = overlay m dest (tails_done ?B ?r) (\<lambda>d. m (src + of_nat d)) \<and>
      (\<forall>m'. visible m es m' \<longrightarrow> (\<exists>j \<le> ?r. m' = overlay m dest (tails_done ?B j) (\<lambda>d. m (src + of_nat d))))"
  proof (rule copy_loop_overlay [where G = "\<lambda>k. (4 * k) mod ?B \<noteq> 0" and n = "unat sz"])
    show "no_overlap dest src (unat sz)" "unat dest + unat sz < 2 ^ 32" "4 \<le> unat (4 :: u32)" "unat (4 :: u32) * ?r = unat sz"
      using dis top r4 by simp_all
    show "4 dvd unat dest" "4 dvd unat (4 :: u32)" using bn(4) by (simp_all add: dvd_eq_mod_eq_0)
    show "tail_store (bsize - 1) dest src m' (dest + 4 * of_nat k) =
        (if (4 * k) mod ?B \<noteq> 0 then [Store (dest + 4 * of_nat k) (mem_read m' (src + of_nat (unat (4 :: u32) * k)) 4)] else [])"
      if "k < ?r" for k m'
    proof -
      have "4 * k < unat sz" using that r4 by linarith
      from bundle_offset_zero [OF b this] show ?thesis by (simp add: tail_store_def)
    qed
    show "tails_done ?B (Suc k) d \<longleftrightarrow> tails_done ?B k d \<or> (4 * k) mod ?B \<noteq> 0 \<and> unat (4 :: u32) * k \<le> d \<and> d < unat (4 :: u32) * k + 4"
      if "k < ?r" for k d
    proof (cases "4 * k \<le> d \<and> d < 4 * k + 4")
      case True
      then show ?thesis using word_in_bundle [OF bn(1), of k d] by (auto simp: tails_done_def)
    qed (auto simp: tails_done_def)
    show "d < unat sz" if "k \<le> ?r" "tails_done ?B k d" for k d
    proof -
      have "4 * k \<le> 4 * ?r" using that(1) by (rule mult_le_mono2)
      then show ?thesis using that(2) r4 by (simp add: tails_done_def)
    qed
    show "m = overlay m dest (tails_done ?B 0) (\<lambda>d. m (src + of_nat d))" by (simp add: overlay_def tails_done_def)
  qed
  then show ?thesis unfolding T_def CopyBundleTails_def Let_def sz4 [symmetric] using bn(6) by auto
qed

lemma CopyBundleHeads_phase:
  fixes dest src sz bsize :: u32 and m :: memory
  defines "H \<equiv> \<lambda>k. overlay m dest (heads_done (unat bsize) (unat sz) k) (\<lambda>d. m (src + of_nat d))"
  assumes b: "bundled dest sz bsize" and dis: "no_overlap dest src (unat sz)"
  shows "\<exists>es. CopyBundleHeads dest src sz bsize (H 0, evs) = Some (Inr (H (unat sz div unat bsize), evs @ es)) \<and>
           foldl apply_event (H 0) es = H (unat sz div unat bsize) \<and>
           (\<forall>m'. visible (H 0) es m' \<longrightarrow> (\<exists>j \<le> unat sz div unat bsize. m' = H j))"
proof -
  let ?B = "unat bsize" and ?r = "unat sz div unat bsize"
  note bn = bundled_nat [OF b]
  have top: "unat dest + unat sz < 2 ^ 32" using b by (simp add: bundled_def)
  have rB: "?B * ?r = unat sz" using bn(3) mult_div_mod_eq [of ?B "unat sz"] by linarith
  have szB: "sz = bsize * of_nat ?r"
  proof -
    have "(bsize * of_nat ?r :: u32) = of_nat (?B * ?r)" by simp
    then show ?thesis unfolding rB by simp
  qed
  have "\<exists>es. stride_loop bsize (head_store dest src) (dest + bsize * of_nat ?r) dest (H 0, evs) =
        Some (overlay m dest (heads_done ?B (unat sz) ?r) (\<lambda>d. m (src + of_nat d)), evs @ es) \<and>
      foldl apply_event (H 0) es = overlay m dest (heads_done ?B (unat sz) ?r) (\<lambda>d. m (src + of_nat d)) \<and>
      (\<forall>m'. visible (H 0) es m' \<longrightarrow> (\<exists>j \<le> ?r. m' = overlay m dest (heads_done ?B (unat sz) j) (\<lambda>d. m (src + of_nat d))))"
  proof (rule copy_loop_overlay [where G = "\<lambda>k. True" and n = "unat sz"])
    show "no_overlap dest src (unat sz)" "unat dest + unat sz < 2 ^ 32" "4 \<le> ?B" "?B * ?r = unat sz"
      using dis top rB bn(1) by auto
    show "4 dvd unat dest" "4 dvd ?B" using bn(1,4) by (auto simp: dvd_eq_mod_eq_0)
    show "head_store dest src m' (dest + bsize * of_nat k) =
        (if True then [Store (dest + bsize * of_nat k) (mem_read m' (src + of_nat (?B * k)) 4)] else [])" for k m'
      by (simp add: head_store_def)
    show "heads_done ?B (unat sz) (Suc k) d \<longleftrightarrow> heads_done ?B (unat sz) k d \<or> True \<and> ?B * k \<le> d \<and> d < ?B * k + 4" if "k < ?r" for k d
    proof -
      have "?B * Suc k \<le> ?B * ?r" using that by (intro mult_le_mono2) simp
      then have "?B * k + 4 \<le> unat sz" using rB bn(1) by auto
      then show ?thesis using head_in_bundle [OF bn(1), of k d] by (auto simp: heads_done_def less_Suc_eq)
    qed
    show "d < unat sz" if "heads_done ?B (unat sz) k d" for k d using that by (simp add: heads_done_def)
    show "H 0 = overlay m dest (heads_done ?B (unat sz) 0) (\<lambda>d. m (src + of_nat d))" by (simp add: H_def)
  qed
  then show ?thesis unfolding H_def CopyBundleHeads_def szB [symmetric] using bn(6) by auto
qed

text \<open>A bundle is entered at its head: it still has its old first word, or all of it is new.\<close>

definition bundle_safe :: "memory \<Rightarrow> memory \<Rightarrow> uintptr_t \<Rightarrow> uintptr_t \<Rightarrow> nat \<Rightarrow> nat \<Rightarrow> bool" where
  "bundle_safe m m' dest src B k \<longleftrightarrow>
     mem_read m' (dest + of_nat (B * k)) 4 = mem_read m (dest + of_nat (B * k)) 4 \<or>
     mem_read m' (dest + of_nat (B * k)) B = mem_read m (src + of_nat (B * k)) B"

lemma overlay_bundle:
  assumes "B = 16 \<or> B = 32" and "B * Suc k \<le> n" and "n < 2 ^ 32"
    and "(\<forall>d. d div B = k \<and> d mod B < 4 \<longrightarrow> \<not> D d) \<or> (\<forall>d. d div B = k \<longrightarrow> D d)"
  shows "bundle_safe m (overlay m dest D (\<lambda>d. m (src + of_nat d))) dest src B k"
proof -
  let ?m' = "overlay m dest D (\<lambda>d. m (src + of_nat d))"
  have at: "?m' (dest + of_nat (B * k) + of_nat t) = (if D (B * k + t) then m (src + of_nat (B * k) + of_nat t) else m (dest + of_nat (B * k) + of_nat t))"
    if "t < B" for t
    using overlay_at [of "B * k + t" m dest D "\<lambda>d. m (src + of_nat d)"] that assms(2,3) by (simp add: add.assoc)
  have dm: "(B * k + t) div B = k" "(B * k + t) mod B = t" if "t < B" for t using that by simp_all
  from assms(4) show ?thesis
  proof
    assume n: "\<forall>d. d div B = k \<and> d mod B < 4 \<longrightarrow> \<not> D d"
    have "mem_read ?m' (dest + of_nat (B * k)) 4 = mem_read m (dest + of_nat (B * k)) 4"
    proof (rule mem_read_cong)
      fix t :: nat assume t: "t < 4"
      then have "t < B" using assms(1) by auto
      then have "\<not> D (B * k + t)" using n dm t by simp
      then show "?m' (dest + of_nat (B * k) + of_nat t) = m (dest + of_nat (B * k) + of_nat t)" using at [OF \<open>t < B\<close>] by simp
    qed
    then show ?thesis by (simp add: bundle_safe_def)
  next
    assume y: "\<forall>d. d div B = k \<longrightarrow> D d"
    have "mem_read ?m' (dest + of_nat (B * k)) B = mem_read m (src + of_nat (B * k)) B"
      using at y dm by (simp add: mem_read_def)
    then show ?thesis by (simp add: bundle_safe_def)
  qed
qed

lemma CopyCodeSafelyInitial_installs:
  assumes b: "bundled dest sz bsize" and dis: "no_overlap dest src (unat sz)"
  shows "\<exists>es. CopyCodeSafelyInitial dest src sz bsize (m, evs) =
             Some (Inr (mem_write m dest (mem_read m src (unat sz)), evs @ es)) \<and>
           foldl apply_event m es = mem_write m dest (mem_read m src (unat sz)) \<and>
           (\<forall>m'. visible m es m' \<longrightarrow> same_outside m m' dest (unat sz) \<and>
              (\<forall>k < unat sz div unat bsize. bundle_safe m m' dest src (unat bsize) k))"
proof -
  let ?B = "unat bsize" and ?n = "unat sz" and ?V = "\<lambda>d. m (src + of_nat d)"
  let ?T = "\<lambda>k. overlay m dest (tails_done ?B k) ?V" and ?H = "\<lambda>k. overlay m dest (heads_done ?B ?n k) ?V"
  note bn = bundled_nat [OF b]
  have n: "?n < 2 ^ 32" using unat_lt_size_t [of sz] by simp
  have r4: "4 * (?n div 4) = ?n" "?B * (?n div ?B) = ?n"
    using bn(3,5) mult_div_mod_eq [of 4 ?n] mult_div_mod_eq [of ?B ?n] by linarith+
  obtain e1 where e1: "CopyBundleTails dest src sz bsize (m, evs) = Some (Inr (?T (?n div 4), evs @ e1))"
    "foldl apply_event m e1 = ?T (?n div 4)" "\<And>m'. visible m e1 m' \<Longrightarrow> \<exists>j \<le> ?n div 4. m' = ?T j"
    using CopyBundleTails_phase [OF b dis, of m evs] by blast
  have mid: "?T (?n div 4) = ?H 0"
  proof -
    have "tails_done ?B (?n div 4) = heads_done ?B ?n 0" by (intro ext) (auto simp: tails_done_def heads_done_def r4)
    then show ?thesis by simp
  qed
  obtain e2 where e2: "CopyBundleHeads dest src sz bsize (?H 0, evs @ e1) = Some (Inr (?H (?n div ?B), (evs @ e1) @ e2))"
    "foldl apply_event (?H 0) e2 = ?H (?n div ?B)" "\<And>m'. visible (?H 0) e2 m' \<Longrightarrow> \<exists>j \<le> ?n div ?B. m' = ?H j"
    using CopyBundleHeads_phase [OF b dis, of m "evs @ e1"] by blast
  have fin: "?H (?n div ?B) = mem_write m dest (mem_read m src ?n)"
  proof -
    have "heads_done ?B ?n (?n div ?B) = (\<lambda>d. d < ?n)"
    proof
      fix d
      have "d div ?B < ?n div ?B" if "d < ?n"
      proof -
        have "0 < ?B" using bn(1) by auto
        then show ?thesis using that r4(2) by (metis div_mult_self1_is_m less_mult_imp_div_less mult.commute)
      qed
      then show "heads_done ?B ?n (?n div ?B) d \<longleftrightarrow> d < ?n" by (auto simp: heads_done_def)
    qed
    then show ?thesis using overlay_write [of ?n m dest src] n by simp
  qed
  have vis: "same_outside m m' dest ?n \<and> (\<forall>k < ?n div ?B. bundle_safe m m' dest src ?B k)" if v: "visible m (e1 @ e2) m'" for m'
  proof -
    have full: "?B * Suc k \<le> ?n" if "k < ?n div ?B" for k
    proof -
      have "?B * Suc k \<le> ?B * (?n div ?B)" using that by (intro mult_le_mono2) simp
      then show ?thesis using r4(2) by simp
    qed
    have inn: "d < ?n" if "d div ?B = k" "k < ?n div ?B" for d k
      using that full [OF that(2)] bn(1) mult_div_mod_eq [of ?B d] mod_less_divisor [of ?B d] by auto
    consider j where "j \<le> ?n div 4" "m' = ?T j" | j where "m' = ?H j"
      using v e1(3) e2(3) unfolding visible_append e1(2) mid by blast
    then show ?thesis
    proof cases
      case (1 j)
      have lt: "d < ?n" if "tails_done ?B j d" for d
      proof -
        have "4 * j \<le> 4 * (?n div 4)" using 1(1) by (rule mult_le_mono2)
        then show ?thesis using that r4(1) by (simp add: tails_done_def)
      qed
      have "bundle_safe m m' dest src ?B k" if "k < ?n div ?B" for k
        unfolding 1(2) by (rule overlay_bundle [OF bn(1) full [OF that] n]) (simp add: tails_done_def)
      then show ?thesis using overlay_outside [OF lt] 1(2) by simp
    next
      case (2 j)
      have "bundle_safe m m' dest src ?B k" if k: "k < ?n div ?B" for k
      proof -
        have "(\<forall>d. d div ?B = k \<and> d mod ?B < 4 \<longrightarrow> \<not> heads_done ?B ?n j d) \<or> (\<forall>d. d div ?B = k \<longrightarrow> heads_done ?B ?n j d)"
          using inn k by (cases "k < j") (auto simp: heads_done_def)
        then show ?thesis unfolding 2 by (rule overlay_bundle [OF bn(1) full [OF k] n])
      qed
      moreover have "same_outside m m' dest ?n" unfolding 2 by (rule overlay_outside) (simp add: heads_done_def)
      ultimately show ?thesis by blast
    qed
  qed
  have "CopyCodeSafelyInitial dest src sz bsize (m, evs) = Some (Inr (mem_write m dest (mem_read m src ?n), evs @ e1 @ e2))"
    using e1(1) e2(1) by (simp add: CopyCodeSafelyInitial_def mid fin)
  moreover have "foldl apply_event m (e1 @ e2) = mem_write m dest (mem_read m src ?n)" using e1(2) e2(2) mid fin by simp
  ultimately show ?thesis using vis by blast
qed

text \<open>C36: \<open>CopyCodeSafelyInitial\<close> always returns and writes exactly the new code; and in every memory another
  thread can see while it runs, each bundle either still has its old first word, which is a halt in unused
  dynamic text, or is completely new. So a thread that jumps into the region executes a halt or a whole
  validated bundle, never a mixture.\<close>

theorem CopyCodeSafelyInitial_ordered:
  assumes "bundled dest sz bsize" and "no_overlap dest src (unat sz)"
  shows "\<exists>es. CopyCodeSafelyInitial dest src sz bsize (m, evs) =
             Some (Inr (mem_write m dest (mem_read m src (unat sz)), evs @ es)) \<and>
           foldl apply_event m es = mem_write m dest (mem_read m src (unat sz)) \<and>
           (\<forall>m'. visible m es m' \<longrightarrow> same_outside m m' dest (unat sz) \<and>
              (\<forall>k < unat sz div unat bsize. bundle_safe m m' dest src (unat bsize) k))"
  using assms by (rule CopyCodeSafelyInitial_installs)

lemma no_overlap_regions:
  assumes "unat a + n \<le> unat b" and "unat b + n < 2 ^ 32"
  shows "no_overlap a b n"
  unfolding no_overlap_def
proof (intro allI impI notI)
  fix i j :: nat assume ij: "i < n" "j < n" and e: "a + of_nat i = b + of_nat j"
  have "unat (a + of_nat i) = unat a + i" "unat (b + of_nat j) = unat b + j"
    using unat_add_no_wrap [of a "of_nat i"] unat_add_no_wrap [of b "of_nat j"] assms ij by (simp_all add: unat_of_nat)
  then show False using arg_cong [OF e, of unat] assms(1) ij by simp
qed

theorem CopyCodeSafelyInitial_ordered_witness:
  "\<exists>es. CopyCodeSafelyInitial 0x40040000 0x50000000 64 32 (\<lambda>a. if a < 0x50000000 then 0xf4 else 0x90, []) =
     Some (Inr (mem_write (\<lambda>a. if a < 0x50000000 then 0xf4 else 0x90) 0x40040000
       (mem_read (\<lambda>a. if a < 0x50000000 then 0xf4 else 0x90) 0x50000000 64), es))"
proof -
  have "bundled 0x40040000 64 32" by (simp add: bundled_def)
  moreover have "no_overlap 0x40040000 0x50000000 (unat (64 :: u32))" by (rule no_overlap_regions) simp_all
  ultimately show ?thesis
    using CopyCodeSafelyInitial_ordered [of "0x40040000" 64 32 "0x50000000" "\<lambda>a. if a < 0x50000000 then 0xf4 else 0x90" "[]"]
    by auto
qed

section \<open>Removing code\<close>

definition heads_halted :: "nat \<Rightarrow> nat \<Rightarrow> nat \<Rightarrow> bool" where
  "heads_halted B k d \<longleftrightarrow> d div B < k \<and> d mod B < 4"

lemma ReplaceBundleHeads_result:
  assumes "bundled dest sz bsize"
  shows "\<exists>es. ReplaceBundleHeadsWithHalts dest sz bsize (m, evs) =
             Some (overlay m dest (heads_halted (unat bsize) (unat sz div unat bsize)) (\<lambda>_. 0xf4), evs @ es) \<and>
           (\<forall>m'. visible m es m' \<longrightarrow>
              (\<exists>j \<le> unat sz div unat bsize. m' = overlay m dest (heads_halted (unat bsize) j) (\<lambda>_. 0xf4)))"
proof -
  let ?B = "unat bsize" and ?r = "unat sz div unat bsize"
  let ?M = "\<lambda>k. overlay m dest (heads_halted ?B k) (\<lambda>_. 0xf4)"
  let ?es = "concat (map (\<lambda>k. halt_store m (dest + bsize * of_nat k)) [0..<?r])"
  note bn = bundled_nat [OF assms]
  have top: "unat dest + unat sz < 2 ^ 32" using assms by (simp add: bundled_def)
  have rB: "?B * ?r = unat sz" using bn(3) mult_div_mod_eq [of ?B "unat sz"] by linarith
  have szB: "sz = bsize * of_nat ?r"
  proof -
    have "(bsize * of_nat ?r :: u32) = of_nat (?B * ?r)" by simp
    then show ?thesis unfolding rB by simp
  qed
  have "stride_loop bsize halt_store (dest + bsize * of_nat ?r) dest (m, evs) =
      Some (foldl (\<lambda>s k. issue s (halt_store (fst s) (dest + bsize * of_nat k))) (m, evs) [0..<?r])"
    by (rule stride_loop_rounds) (use top rB bn(1) in auto)
  moreover have "foldl (\<lambda>s k. issue s (halt_store (fst s) (dest + bsize * of_nat k))) (m, evs) [0..<?r] =
      (foldl apply_event m ?es, evs @ ?es)"
    using stride_rounds_const [of ?r "{}" m halt_store "\<lambda>k. dest + bsize * of_nat k" m evs] by (simp add: halt_store_def)
  moreover have step: "halt_store m (dest + bsize * of_nat k) = [] \<and> ?M (Suc k) = ?M k \<or>
      (\<exists>a bs. halt_store m (dest + bsize * of_nat k) = [Store a bs] \<and> store_atomic a (length bs) \<and> ?M (Suc k) = mem_write (?M k) a bs)" if k: "k < ?r" for k
  proof -
    have "?B * Suc k \<le> ?B * ?r" using k by (intro mult_le_mono2) simp
    then have le: "?B * k + 4 \<le> 2 ^ 32" using rB bn(1) top by auto
    have "mem_write (?M k) (dest + of_nat (?B * k)) NACL_HALT_WORD = ?M (Suc k)"
    proof (rule overlay_store)
      show "?B * k + length NACL_HALT_WORD \<le> 2 ^ 32" using le by (simp add: NACL_HALT_WORD_def)
      show "NACL_HALT_WORD ! i = 0xf4" if "i < length NACL_HALT_WORD" for i
        using that by (auto simp: NACL_HALT_WORD_def less_Suc_eq numeral_2_eq_2 numeral_3_eq_3)
      show "heads_halted ?B (Suc k) d \<longleftrightarrow> heads_halted ?B k d \<or> ?B * k \<le> d \<and> d < ?B * k + length NACL_HALT_WORD" for d
        using head_in_bundle [OF bn(1), of k d] by (auto simp: heads_halted_def NACL_HALT_WORD_def less_Suc_eq)
    qed
    moreover have "4 dvd unat dest" "4 dvd ?B" using bn(1,4) by (auto simp: dvd_eq_mod_eq_0)
    then have "store_atomic (dest + of_nat (?B * k)) 4"
      using \<open>?B * Suc k \<le> ?B * ?r\<close> rB bn(1) top by (intro word_store_atomic) auto
    then have "store_atomic (dest + of_nat (?B * k)) (length NACL_HALT_WORD)"
      by (simp add: NACL_HALT_WORD_def numeral_eq_Suc)
    ultimately show ?thesis by (simp add: halt_store_def)
  qed
  moreover note R = rounds_visible [where M = ?M and m = m and f = "\<lambda>k. halt_store m (dest + bsize * of_nat k)" and n = ?r]
  have M0: "?M 0 = m" by (simp add: overlay_def heads_halted_def)
  have "foldl apply_event m ?es = ?M ?r" by (rule R(1) [OF M0]) (rule step)
  moreover have "\<exists>j \<le> ?r. m' = ?M j" if "visible m ?es m'" for m'
    by (rule R(2) [OF M0]) (rule step, assumption, rule that)
  ultimately show ?thesis
    unfolding ReplaceBundleHeadsWithHalts_def bn(7) by (subst szB) (intro exI [of _ ?es], simp)
qed

text \<open>C37: \<open>ReplaceBundleHeadsWithHalts\<close> always returns; it puts a halt word at the head of every bundle of the
  region, changes nothing else, and in every memory another thread can see on the way each bundle is
  untouched or halted at its head.\<close>

theorem ReplaceBundleHeadsWithHalts_closes:
  assumes "bundled dest sz bsize"
  shows "\<exists>es. ReplaceBundleHeadsWithHalts dest sz bsize (m, evs) =
             Some (overlay m dest (heads_halted (unat bsize) (unat sz div unat bsize)) (\<lambda>_. 0xf4), evs @ es) \<and>
           (\<forall>m'. visible m es m' \<longrightarrow>
              (\<exists>j \<le> unat sz div unat bsize. m' = overlay m dest (heads_halted (unat bsize) j) (\<lambda>_. 0xf4)))"
  using assms by (rule ReplaceBundleHeads_result)

theorem ReplaceBundleHeadsWithHalts_closes_witness:
  "\<exists>es. ReplaceBundleHeadsWithHalts 0x40040000 64 32 (\<lambda>_. 0x90, []) =
     Some (overlay (\<lambda>_. 0x90) 0x40040000 (heads_halted 32 2) (\<lambda>_. 0xf4), es)"
  using ReplaceBundleHeadsWithHalts_closes [of "0x40040000" 64 32 "\<lambda>_. 0x90" "[]"] by (auto simp: bundled_def)

end
