(* ===== verification/Imc_Shm.thy ===== *)
theory Imc_Shm
  imports App_State
begin

text \<open>
  Shared memory descriptors, \<open>desc/nacl_desc_imc_shm.c\<close>, and the address space they are mapped into.

  A shared memory object is an array of bytes named by its IMC handle. The address space records for
  every address that a shared object is mapped at the handle, the offset and the protection; all other
  addresses are private memory. Several addresses can show the same byte of an object, which is how
  the loader writes to code it has mapped read-only.

  \<open>NaClFindAddressSpace\<close> of \<open>platform/linux/nacl_find_addrsp.c\<close> and \<open>NaClMap\<close> and \<open>NaClUnmap\<close> of
  \<open>shared/imc\<close> are single calls of the host's \<open>mmap\<close> and \<open>munmap\<close>. What the host answers, success
  or failure and at which address, is the parameter \<open>host_os\<close>, and may depend on the number of calls
  made so far; so is the handle \<open>NaClCreateMemoryObject\<close> returns.
\<close>

section \<open>The address space\<close>

record shm_space =
  sp_map :: "uintptr_t \<Rightarrow> (int \<times> u32 \<times> int) option"
  sp_shm :: "int \<Rightarrow> u32 \<Rightarrow> u8"
  sp_calls :: nat

text \<open>
  The host: where an anonymous private \<open>mmap\<close> of so many bytes is placed, what a shared \<open>mmap\<close>
  with \<open>MAP_FIXED\<close> at an address returns, whether \<open>munmap\<close> succeeds, and the handle of a new memory
  object; \<open>None\<close> is \<open>MAP_FAILED\<close>.
\<close>

record host_os =
  os_find_space :: "nat \<Rightarrow> size_t \<Rightarrow> uintptr_t option"
  os_map :: "nat \<Rightarrow> uintptr_t \<Rightarrow> uintptr_t option"
  os_unmap :: "nat \<Rightarrow> uintptr_t \<Rightarrow> bool"
  os_create :: "size_t \<Rightarrow> bool \<Rightarrow> int"

text \<open>What the process reads at an address, given its private memory.\<close>

definition view :: "shm_space \<Rightarrow> memory \<Rightarrow> memory" where
  "view sp m x = (case sp_map sp x of None \<Rightarrow> m x | Some (h, off, _) \<Rightarrow> sp_shm sp h off)"

definition map_range :: "uintptr_t \<Rightarrow> size_t \<Rightarrow> int \<Rightarrow> u32 \<Rightarrow> int \<Rightarrow> shm_space \<Rightarrow> shm_space" where
  "map_range a n h off pr sp =
     sp\<lparr>sp_map := \<lambda>x. if x - a < n then Some (h, off + (x - a), pr) else sp_map sp x\<rparr>"

definition unmap_range :: "uintptr_t \<Rightarrow> size_t \<Rightarrow> shm_space \<Rightarrow> shm_space" where
  "unmap_range a n sp = sp\<lparr>sp_map := \<lambda>x. if x - a < n then None else sp_map sp x\<rparr>"

definition host_called :: "shm_space \<Rightarrow> shm_space" where
  "host_called sp = sp\<lparr>sp_calls := sp_calls sp + 1\<rparr>"

text \<open>
  \<open>NaClFindAddressSpace\<close>: the address the anonymous mapping was placed at; \<open>None\<close> is the result 0.
\<close>

definition NaClFindAddressSpace :: "host_os \<Rightarrow> size_t \<Rightarrow> shm_space \<Rightarrow> uintptr_t option \<times> shm_space" where
  "NaClFindAddressSpace os memory_size sp = (os_find_space os (sp_calls sp) memory_size, host_called sp)"

text \<open>
  \<open>NaClMap\<close> with \<open>NACL_MAP_SHARED | NACL_MAP_FIXED\<close>; \<open>None\<close> is \<open>NACL_MAP_FAILED\<close>, and then nothing is
  mapped. The table \<open>kPosixProt\<close> that translates the protection is the identity on Linux.
\<close>

definition NaClMap ::
    "host_os \<Rightarrow> uintptr_t \<Rightarrow> size_t \<Rightarrow> int \<Rightarrow> int \<Rightarrow> u32 \<Rightarrow> shm_space \<Rightarrow> uintptr_t option \<times> shm_space" where
  "NaClMap os start n pr h off sp =
     (case os_map os (sp_calls sp) start of
        None \<Rightarrow> (None, host_called sp)
      | Some a \<Rightarrow> (Some a, host_called (map_range a n h off pr sp)))"

text \<open>\<open>NaClUnmap\<close>, one \<open>munmap\<close>; the result says whether it succeeded.\<close>

definition NaClUnmap :: "host_os \<Rightarrow> uintptr_t \<Rightarrow> size_t \<Rightarrow> shm_space \<Rightarrow> bool \<times> shm_space" where
  "NaClUnmap os start n sp =
     (if os_unmap os (sp_calls sp) start then (True, host_called (unmap_range start n sp))
      else (False, host_called sp))"

text \<open>\<open>NaCl_page_free\<close> of \<open>linux/sel_memory.c\<close> ignores the result of \<open>munmap\<close>.\<close>

definition NaCl_page_free :: "host_os \<Rightarrow> uintptr_t \<Rightarrow> size_t \<Rightarrow> shm_space \<Rightarrow> shm_space" where
  "NaCl_page_free os p n sp = (if p = 0 \<or> n = 0 then sp else snd (NaClUnmap os p n sp))"

section \<open>Error numbers\<close>

definition NACL_ABI_EIO :: int where "NACL_ABI_EIO = 5"
definition NACL_ABI_EAGAIN :: int where "NACL_ABI_EAGAIN = 11"
definition NACL_ABI_ENOMEM :: int where "NACL_ABI_ENOMEM = 12"
definition NACL_ABI_EFAULT :: int where "NACL_ABI_EFAULT = 14"
definition NACL_ABI_EINVAL :: int where "NACL_ABI_EINVAL = 22"
definition NACL_ABI_EOVERFLOW :: int where "NACL_ABI_EOVERFLOW = 139"
definition NACL_ABI_E_MOVE_ADDRESS_SPACE :: int where "NACL_ABI_E_MOVE_ADDRESS_SPACE = 0x40000000"

definition NACL_ABI_MAP_SHARED :: int where "NACL_ABI_MAP_SHARED = 1"
definition NACL_ABI_MAP_SHARING_MASK :: int where "NACL_ABI_MAP_SHARING_MASK = 3"
definition NACL_ABI_MAP_FIXED :: int where "NACL_ABI_MAP_FIXED = 0x10"

definition neg_errno :: "int \<Rightarrow> uintptr_t" where "neg_errno e = of_int (- e)"

definition NaClPtrIsNegErrno :: "uintptr_t \<Rightarrow> bool" where
  "NaClPtrIsNegErrno val \<longleftrightarrow> val AND NOT 0xffff = NOT 0xffff"

section \<open>Construction\<close>

record NaClDescImcShm =
  shm_h :: int
  shm_size :: u64

definition NACL_INVALID_HANDLE :: int where "NACL_INVALID_HANDLE = - 1"

text \<open>\<open>size < 0 || SIZE_T_MAX < (uint64_t) size\<close> for a signed 64-bit size.\<close>

definition size_unfit :: "u64 \<Rightarrow> bool" where
  "size_unfit sz \<longleftrightarrow> sint sz < 0 \<or> 0xFFFFFFFF < sz"

text \<open>\<open>base_ok\<close> is the result of \<open>NaClDescCtor\<close>.\<close>

definition NaClDescImcShmCtor :: "bool \<Rightarrow> int \<Rightarrow> u64 \<Rightarrow> NaClDescImcShm option" where
  "NaClDescImcShmCtor base_ok h sz =
     (if size_unfit sz then None
      else if \<not> base_ok then None
      else Some \<lparr>shm_h = h, shm_size = sz\<rparr>)"

definition NaClDescImcShmAllocCtor :: "host_os \<Rightarrow> bool \<Rightarrow> u64 \<Rightarrow> bool \<Rightarrow> NaClDescImcShm option" where
  "NaClDescImcShmAllocCtor os base_ok sz executable =
     (if size_unfit sz then None
      else let h = os_create os (ucast sz) executable in
        if h = NACL_INVALID_HANDLE then None
        else NaClDescImcShmCtor base_ok h sz)"

definition NaClDescImcShmDtor :: "NaClDescImcShm \<Rightarrow> NaClDescImcShm" where
  "NaClDescImcShmDtor self = self\<lparr>shm_h := NACL_INVALID_HANDLE\<rparr>"

section \<open>Mapping and unmapping\<close>

text \<open>
  The effector's \<open>UnmapMemory\<close> is a parameter of \<open>Map\<close>, as it is in the code. \<open>None\<close> is a loop that
  runs for ever because the address wraps around.
\<close>

type_synonym unmap_memory = "uintptr_t \<Rightarrow> size_t \<Rightarrow> shm_space \<Rightarrow> shm_space \<times> int"

definition map_page ::
    "host_os \<Rightarrow> unmap_memory \<Rightarrow> int \<Rightarrow> int \<Rightarrow> bool \<Rightarrow> uintptr_t \<Rightarrow> u32 \<Rightarrow> shm_space \<Rightarrow> (bool \<times> shm_space) res" where
  "map_page os unmap h imc_prot fixed addr off sp =
     (let (sp1, rv) = unmap addr NACL_MAP_PAGESIZE sp in
      if 0 \<noteq> rv then Inl LogFatal
      else case NaClMap os addr NACL_MAP_PAGESIZE imc_prot h off sp1 of
          (None, sp2) \<Rightarrow> Inr (False, sp2)
        | (Some result, sp2) \<Rightarrow> if fixed \<and> result \<noteq> addr then Inl LogFatal else Inr (True, sp2))"

partial_function (option) map_pages ::
    "host_os \<Rightarrow> unmap_memory \<Rightarrow> int \<Rightarrow> int \<Rightarrow> bool \<Rightarrow> uintptr_t \<Rightarrow> uintptr_t \<Rightarrow> u32 \<Rightarrow> shm_space
      \<Rightarrow> (bool \<times> shm_space) res option" where
  "map_pages os unmap h imc_prot fixed end_addr addr off sp =
     (if addr < end_addr then
        case map_page os unmap h imc_prot fixed addr off sp of
          Inl e \<Rightarrow> Some (Inl e)
        | Inr (ok, sp1) \<Rightarrow>
            if ok then map_pages os unmap h imc_prot fixed end_addr (addr + NACL_MAP_PAGESIZE) (off + NACL_MAP_PAGESIZE) sp1
            else Some (Inr (False, sp1))
      else Some (Inr (True, sp)))"

declare map_pages.simps [code]

definition imc_prot_of :: "int \<Rightarrow> int" where
  "imc_prot_of pr =
     (if PROT_READ AND pr \<noteq> 0 then 1 else 0) OR (if PROT_WRITE AND pr \<noteq> 0 then 2 else 0) OR
     (if PROT_EXEC AND pr \<noteq> 0 then 4 else 0)"

definition NaClDescImcShmMap ::
    "host_os \<Rightarrow> NaClDescImcShm \<Rightarrow> unmap_memory \<Rightarrow> uintptr_t \<Rightarrow> size_t \<Rightarrow> int \<Rightarrow> int \<Rightarrow> u64 \<Rightarrow> shm_space
      \<Rightarrow> (uintptr_t \<times> shm_space) res option" where
  "NaClDescImcShmMap os self unmap start_addr n pr flags offset sp =
     (if flags AND NACL_ABI_MAP_SHARING_MASK \<noteq> NACL_ABI_MAP_SHARED then Some (Inr (neg_errno NACL_ABI_EINVAL, sp))
      else if pr = PROT_NONE then Some (Inr (neg_errno NACL_ABI_EINVAL, sp))
      else if NOT (PROT_READ OR PROT_WRITE OR PROT_EXEC) AND pr \<noteq> 0 then Some (Inr (neg_errno NACL_ABI_EINVAL, sp))
      else
        let imc_prot = imc_prot_of pr;
            fixed = (NACL_ABI_MAP_FIXED AND flags \<noteq> 0);
            place = (if fixed then (Some start_addr, sp)
                     else NaClFindAddressSpace os n sp) in
        case place of
          (None, sp1) \<Rightarrow> Some (Inr (neg_errno NACL_ABI_ENOMEM, sp1))
        | (Some start, sp1) \<Rightarrow>
            if sint ((offset + ucast n + 0xFFFF) AND NOT (0xFFFF :: u64)) > 0x7FFFFFFF
            then Some (Inr (neg_errno NACL_ABI_EOVERFLOW, sp1))
            else
              (case map_pages os unmap (shm_h self) imc_prot fixed (start + n) start (ucast offset) sp1 of
                 None \<Rightarrow> None
               | Some (Inl e) \<Rightarrow> Some (Inl e)
               | Some (Inr (ok, sp2)) \<Rightarrow>
                   Some (Inr (if ok then start else neg_errno NACL_ABI_E_MOVE_ADDRESS_SPACE, sp2))))"

type_synonym map_anonymous = "uintptr_t \<Rightarrow> size_t \<Rightarrow> int \<Rightarrow> shm_space \<Rightarrow> (shm_space \<times> uintptr_t) res"

definition unmap_page ::
    "host_os \<Rightarrow> map_anonymous \<Rightarrow> bool \<Rightarrow> uintptr_t \<Rightarrow> shm_space \<Rightarrow> (bool \<times> shm_space) res" where
  "unmap_page os map_anon safe_mode addr sp =
     (let (unmapped, sp1) = (if safe_mode then (True, sp) else NaClUnmap os addr NACL_MAP_PAGESIZE sp) in
      if \<not> unmapped then Inl LogFatal
      else if safe_mode then
        bind_res (map_anon addr NACL_MAP_PAGESIZE PROT_NONE sp1) (\<lambda>(sp2, result).
          Inr (\<not> NaClPtrIsNegErrno result, sp2))
      else Inr (True, sp1))"

partial_function (option) unmap_pages ::
    "host_os \<Rightarrow> map_anonymous \<Rightarrow> bool \<Rightarrow> uintptr_t \<Rightarrow> uintptr_t \<Rightarrow> shm_space \<Rightarrow> (int \<times> shm_space) res option" where
  "unmap_pages os map_anon safe_mode end_addr addr sp =
     (if addr < end_addr then
        case unmap_page os map_anon safe_mode addr sp of
          Inl e \<Rightarrow> Some (Inl e)
        | Inr (ok, sp1) \<Rightarrow>
            if ok then unmap_pages os map_anon safe_mode end_addr (addr + NACL_MAP_PAGESIZE) sp1
            else Some (Inr (- NACL_ABI_E_MOVE_ADDRESS_SPACE, sp1))
      else Some (Inr (0, sp)))"

declare unmap_pages.simps [code]

definition NaClDescImcShmUnmapCommon ::
    "host_os \<Rightarrow> map_anonymous \<Rightarrow> uintptr_t \<Rightarrow> size_t \<Rightarrow> bool \<Rightarrow> shm_space \<Rightarrow> (int \<times> shm_space) res option" where
  "NaClDescImcShmUnmapCommon os map_anon start_addr n safe_mode sp =
     unmap_pages os map_anon safe_mode (start_addr + n) start_addr sp"

definition NaClDescImcShmUnmapUnsafe ::
    "host_os \<Rightarrow> map_anonymous \<Rightarrow> uintptr_t \<Rightarrow> size_t \<Rightarrow> shm_space \<Rightarrow> (int \<times> shm_space) res option" where
  "NaClDescImcShmUnmapUnsafe os map_anon start_addr n sp = NaClDescImcShmUnmapCommon os map_anon start_addr n False sp"

definition NaClDescImcShmUnmap ::
    "host_os \<Rightarrow> map_anonymous \<Rightarrow> uintptr_t \<Rightarrow> size_t \<Rightarrow> shm_space \<Rightarrow> (int \<times> shm_space) res option" where
  "NaClDescImcShmUnmap os map_anon start_addr n sp = NaClDescImcShmUnmapCommon os map_anon start_addr n True sp"

section \<open>Status and transfer\<close>

record nacl_abi_stat =
  st_dev :: int
  st_ino :: int
  st_mode :: int
  st_nlink :: int
  st_uid :: int
  st_gid :: int
  st_rdev :: int
  st_size :: int
  st_blksize :: int
  st_blocks :: int
  st_atime :: int
  st_mtime :: int
  st_ctime :: int

definition NACL_ABI_S_IFSHM :: int where "NACL_ABI_S_IFSHM = 0x14000"
definition NACL_ABI_S_IRUSR :: int where "NACL_ABI_S_IRUSR = 0x100"
definition NACL_ABI_S_IWUSR :: int where "NACL_ABI_S_IWUSR = 0x80"

definition NaClDescImcShmFstat :: "NaClDescImcShm \<Rightarrow> int + nacl_abi_stat" where
  "NaClDescImcShmFstat self =
     (if sint (shm_size self) > 0x7FFFFFFF then Inl (- NACL_ABI_EOVERFLOW)
      else Inr \<lparr>st_dev = 0, st_ino = 0x6c43614e,
                st_mode = NACL_ABI_S_IFSHM OR NACL_ABI_S_IRUSR OR NACL_ABI_S_IWUSR,
                st_nlink = 1, st_uid = - 1, st_gid = - 1, st_rdev = 0, st_size = sint (shm_size self),
                st_blksize = 0, st_blocks = 0, st_atime = 0, st_mtime = 0, st_ctime = 0\<rparr>)"

text \<open>
  A transfer buffer: the bytes and handles of the message, and the positions of the next ones. The
  \<open>_end\<close> pointers are the ends of the lists.
\<close>

record NaClDescXferState =
  byte_buffer :: "u8 list"
  next_byte :: nat
  handle_buffer :: "int list"
  next_handle :: nat

text \<open>The bytes of a \<open>nacl_off64_t\<close>, least significant first, and back.\<close>

definition off64_bytes :: "u64 \<Rightarrow> u8 list" where
  "off64_bytes w = map (\<lambda>i. ucast (drop_bit (8 * i) w)) [0..<8]"

definition off64_of :: "u8 list \<Rightarrow> u64" where
  "off64_of bs = foldr (\<lambda>b acc. ucast b OR push_bit 8 acc) bs 0"

definition NaClDescImcShmExternalizeSize :: "NaClDescImcShm \<Rightarrow> nat \<times> nat" where
  "NaClDescImcShmExternalizeSize self = (8, 1)"

definition put_bytes :: "u8 list \<Rightarrow> NaClDescXferState \<Rightarrow> NaClDescXferState res" where
  "put_bytes bs xfer =
     (if next_byte xfer + length bs \<le> length (byte_buffer xfer)
      then Inr (xfer\<lparr>byte_buffer := take (next_byte xfer) (byte_buffer xfer) @ bs @
                                   drop (next_byte xfer + length bs) (byte_buffer xfer),
                     next_byte := next_byte xfer + length bs\<rparr>)
      else Inl OutOfBounds)"

definition NaClDescImcShmExternalize :: "NaClDescImcShm \<Rightarrow> NaClDescXferState \<Rightarrow> NaClDescXferState res" where
  "NaClDescImcShmExternalize self xfer =
     bind_res (store (handle_buffer xfer) (next_handle xfer) (shm_h self)) (\<lambda>hs.
     put_bytes (off64_bytes (shm_size self)) (xfer\<lparr>handle_buffer := hs, next_handle := next_handle xfer + 1\<rparr>))"

definition NaClDescImcShmInternalize ::
    "bool \<Rightarrow> bool \<Rightarrow> NaClDescXferState \<Rightarrow> (int + NaClDescImcShm) \<times> NaClDescXferState" where
  "NaClDescImcShmInternalize malloc_ok base_ok xfer =
     (if next_handle xfer = length (handle_buffer xfer) then (Inl (- NACL_ABI_EIO), xfer)
      else if next_byte xfer + 8 > length (byte_buffer xfer) then (Inl (- NACL_ABI_EIO), xfer)
      else if \<not> malloc_ok then (Inl (- NACL_ABI_ENOMEM), xfer)
      else
        let h = handle_buffer xfer ! next_handle xfer;
            hsize = off64_of (take 8 (drop (next_byte xfer) (byte_buffer xfer)));
            xfer1 = xfer\<lparr>handle_buffer := (handle_buffer xfer)[next_handle xfer := NACL_INVALID_HANDLE],
                         next_handle := next_handle xfer + 1, next_byte := next_byte xfer + 8\<rparr> in
        case NaClDescImcShmCtor base_ok h hsize of
          None \<Rightarrow> (Inl (- NACL_ABI_EIO), xfer1)
        | Some ndisp \<Rightarrow> (Inr ndisp, xfer1))"

section \<open>What mapping does\<close>

lemma page_size [simp]: "NACL_MAP_PAGESIZE = 0x10000"
  by (simp add: page_consts)

lemma unat_pages:
  assumes "65536 * n < (2 :: nat) ^ 32"
  shows "unat (0x10000 * of_nat n :: u32) = 65536 * n"
proof -
  have "(0x10000 * of_nat n :: u32) = of_nat (65536 * n)" by simp
  then show ?thesis using assms by (simp only: unat_of_nat) simp
qed

lemma in_first_or_rest:
  fixes d :: u32
  assumes "65536 * Suc n < (2 :: nat) ^ 32"
  shows "d < 0x10000 * of_nat (Suc n) \<longleftrightarrow> d < 0x10000 \<or> d - 0x10000 < 0x10000 * of_nat n"
proof -
  note u = unat_pages [OF assms]
  have v: "unat (0x10000 * of_nat n :: u32) = 65536 * n" using assms by (intro unat_pages) simp
  show ?thesis
  proof (cases "d < 0x10000")
    case True
    then have "unat d < 65536" by (simp add: word_less_nat_alt)
    then have "d < 0x10000 * of_nat (Suc n)" unfolding word_less_nat_alt u by simp
    with True show ?thesis by simp
  next
    case False
    then have "0x10000 \<le> d" by simp
    from unat_sub [OF this] have s: "unat (d - 0x10000) = unat d - 65536" by simp
    have "65536 \<le> unat d" using \<open>0x10000 \<le> d\<close> by (simp add: word_le_nat_alt)
    then show ?thesis unfolding word_less_nat_alt u v s by auto
  qed
qed

text \<open>A host that honours \<open>NACL_MAP_FIXED\<close>: it maps at the address asked for or fails.\<close>

definition fixed_maps :: "host_os \<Rightarrow> bool" where
  "fixed_maps os \<longleftrightarrow> (\<forall>n a r. os_map os n a = Some r \<longrightarrow> r = a)"

text \<open>A host that has the memory for every mapping, and one that can undo every mapping.\<close>

definition maps_succeed :: "host_os \<Rightarrow> bool" where
  "maps_succeed os \<longleftrightarrow> (\<forall>n a. os_map os n a \<noteq> None)"

definition unmaps_succeed :: "host_os \<Rightarrow> bool" where
  "unmaps_succeed os \<longleftrightarrow> (\<forall>n a. os_unmap os n a)"

text \<open>\<open>n\<close> bytes from \<open>a\<close> show the object \<open>h\<close> from \<open>off\<close> on; everything else is as in \<open>sp\<close>.\<close>

definition mapped_over :: "uintptr_t \<Rightarrow> size_t \<Rightarrow> int \<Rightarrow> u32 \<Rightarrow> int \<Rightarrow> shm_space \<Rightarrow> shm_space \<Rightarrow> bool" where
  "mapped_over a n h off pr sp sp' \<longleftrightarrow>
     sp_shm sp' = sp_shm sp \<and>
     (\<forall>x. sp_map sp' x = (if x - a < n then Some (h, off + (x - a), pr) else sp_map sp x))"

definition same_beyond :: "uintptr_t \<Rightarrow> size_t \<Rightarrow> shm_space \<Rightarrow> shm_space \<Rightarrow> bool" where
  "same_beyond a n sp sp' \<longleftrightarrow>
     sp_shm sp' = sp_shm sp \<and> (\<forall>x. \<not> x - a < n \<longrightarrow> sp_map sp' x = sp_map sp x)"

text \<open>What \<open>Map\<close> relies on in the effector it is given.\<close>

locale effector =
  fixes unmap :: unmap_memory
  assumes unmap_law: "snd (unmap a n sp) = 0 \<and> same_beyond a n sp (fst (unmap a n sp))"
begin

lemma map_page_result:
  assumes "fixed_maps os"
  shows "\<exists>ok sp'. map_page os unmap h pr fixed a off sp = Inr (ok, sp') \<and> same_beyond a 0x10000 sp sp' \<and>
           (ok \<longrightarrow> mapped_over a 0x10000 h off pr sp sp') \<and> (maps_succeed os \<longrightarrow> ok)"
proof -
  obtain sp1 rv where u: "unmap a 0x10000 sp = (sp1, rv)" by (cases "unmap a 0x10000 sp")
  have s1: "rv = 0" "same_beyond a 0x10000 sp sp1"
    using unmap_law [of a "0x10000" sp] by (simp_all add: u)
  show ?thesis
  proof (cases "os_map os (sp_calls sp1) a")
    case None
    then have "map_page os unmap h pr fixed a off sp = Inr (False, host_called sp1)"
      using s1 by (simp add: map_page_def u NaClMap_def)
    moreover have "same_beyond a 0x10000 sp (host_called sp1)"
      using s1(2) by (simp add: same_beyond_def host_called_def)
    moreover have "\<not> maps_succeed os" using None unfolding maps_succeed_def by blast
    ultimately show ?thesis by blast
  next
    case (Some r)
    then have "r = a" using assms unfolding fixed_maps_def by blast
    then show ?thesis
      using s1 Some
      by (auto simp: map_page_def u NaClMap_def host_called_def same_beyond_def mapped_over_def map_range_def)
  qed
qed

lemma map_pages_result:
  assumes "fixed_maps os" and "unat a + 65536 * n < 2 ^ 32"
  shows "\<exists>ok sp'. map_pages os unmap h pr fixed (a + 0x10000 * of_nat n) a off sp = Some (Inr (ok, sp')) \<and>
           same_beyond a (0x10000 * of_nat n) sp sp' \<and>
           (ok \<longrightarrow> mapped_over a (0x10000 * of_nat n) h off pr sp sp') \<and> (maps_succeed os \<longrightarrow> ok)"
  using assms(2)
proof (induction n arbitrary: a off sp)
  case 0
  then show ?case by (auto simp: map_pages.simps same_beyond_def mapped_over_def)
next
  case (Suc n)
  let ?N = "0x10000 * of_nat (Suc n) :: u32"
  have big: "65536 * Suc n < (2 :: nat) ^ 32" using Suc.prems by simp
  have "unat (a + ?N) = unat a + 65536 * Suc n"
    using unat_add_no_wrap [of a ?N] unat_pages [OF big] Suc.prems by simp
  then have lt: "a < a + ?N" by (simp add: word_less_nat_alt)
  have up: "unat (a + 0x10000) = unat a + 65536"
    using unat_add_no_wrap [of a "0x10000"] Suc.prems by simp
  have e: "a + ?N = a + 0x10000 + 0x10000 * of_nat n" by (simp add: algebra_simps)
  note split = in_first_or_rest [OF big]
  obtain ok sp1 where p: "map_page os unmap h pr fixed a off sp = Inr (ok, sp1)"
    and b: "same_beyond a 0x10000 sp sp1" and mo: "ok \<longrightarrow> mapped_over a 0x10000 h off pr sp sp1"
    and su: "maps_succeed os \<longrightarrow> ok"
    using map_page_result [OF assms(1)] by blast
  show ?case
  proof (cases ok)
    case False
    then have "map_pages os unmap h pr fixed (a + ?N) a off sp = Some (Inr (False, sp1))"
      using lt p by (simp add: map_pages.simps)
    moreover have "same_beyond a ?N sp sp1"
      using b unfolding same_beyond_def split by simp
    ultimately show ?thesis using su False by blast
  next
    case True
    have "unat (a + 0x10000) + 65536 * n < 2 ^ 32" using Suc.prems up by simp
    from Suc.IH [OF this, of "off + 0x10000" sp1] obtain ok' sp' where
      r: "map_pages os unmap h pr fixed (a + ?N) (a + 0x10000) (off + 0x10000) sp1 = Some (Inr (ok', sp'))"
      and b': "same_beyond (a + 0x10000) (0x10000 * of_nat n) sp1 sp'"
      and mo': "ok' \<longrightarrow> mapped_over (a + 0x10000) (0x10000 * of_nat n) h (off + 0x10000) pr sp1 sp'"
      and su': "maps_succeed os \<longrightarrow> ok'"
      unfolding e by blast
    have run: "map_pages os unmap h pr fixed (a + ?N) a off sp = Some (Inr (ok', sp'))"
      using lt p True r by (subst map_pages.simps) simp
    have d: "x - (a + 0x10000) = x - a - 0x10000" for x :: u32 by simp
    have "same_beyond a ?N sp sp'"
      using b b' unfolding same_beyond_def split d by simp
    moreover have "mapped_over a ?N h off pr sp sp'" if "ok'"
    proof -
      from that mo' have q: "mapped_over (a + 0x10000) (0x10000 * of_nat n) h (off + 0x10000) pr sp1 sp'" by simp
      from True mo have q1: "mapped_over a 0x10000 h off pr sp sp1" by simp
      show ?thesis using q q1 unfolding mapped_over_def split d by (auto simp: algebra_simps)
    qed
    ultimately show ?thesis using run su' by blast
  qed
qed

end

text \<open>Unmapping whole pages in unsafe mode.\<close>

definition unmapped_over :: "uintptr_t \<Rightarrow> size_t \<Rightarrow> shm_space \<Rightarrow> shm_space \<Rightarrow> bool" where
  "unmapped_over a n sp sp' \<longleftrightarrow>
     sp_shm sp' = sp_shm sp \<and> (\<forall>x. sp_map sp' x = (if x - a < n then None else sp_map sp x))"

lemma unmap_pages_result:
  assumes "unmaps_succeed os" and "unat a + 65536 * n < 2 ^ 32"
  shows "\<exists>sp'. unmap_pages os map_anon False (a + 0x10000 * of_nat n) a sp = Some (Inr (0, sp')) \<and>
           unmapped_over a (0x10000 * of_nat n) sp sp'"
  using assms(2)
proof (induction n arbitrary: a sp)
  case 0
  then show ?case by (auto simp: unmap_pages.simps unmapped_over_def)
next
  case (Suc n)
  let ?N = "0x10000 * of_nat (Suc n) :: u32"
  have big: "65536 * Suc n < (2 :: nat) ^ 32" using Suc.prems by simp
  have "unat (a + ?N) = unat a + 65536 * Suc n"
    using unat_add_no_wrap [of a ?N] unat_pages [OF big] Suc.prems by simp
  then have lt: "a < a + ?N" by (simp add: word_less_nat_alt)
  have up: "unat (a + 0x10000) = unat a + 65536"
    using unat_add_no_wrap [of a "0x10000"] Suc.prems by simp
  have e: "a + ?N = a + 0x10000 + 0x10000 * of_nat n" by (simp add: algebra_simps)
  note split = in_first_or_rest [OF big]
  let ?sp1 = "host_called (unmap_range a 0x10000 sp)"
  have p: "unmap_page os map_anon False a sp = Inr (True, ?sp1)"
    using assms(1) by (simp add: unmap_page_def NaClUnmap_def unmaps_succeed_def)
  have "unat (a + 0x10000) + 65536 * n < 2 ^ 32" using Suc.prems up by simp
  from Suc.IH [OF this, of ?sp1] obtain sp' where
    r: "unmap_pages os map_anon False (a + ?N) (a + 0x10000) ?sp1 = Some (Inr (0, sp'))"
    and u: "unmapped_over (a + 0x10000) (0x10000 * of_nat n) ?sp1 sp'"
    unfolding e by blast
  have "unmap_pages os map_anon False (a + ?N) a sp = Some (Inr (0, sp'))"
    using lt p r by (subst unmap_pages.simps) simp
  moreover have d: "x - (a + 0x10000) = x - a - 0x10000" for x :: u32 by simp
  have "unmapped_over a ?N sp sp'"
    using u unfolding unmapped_over_def split d by (auto simp: host_called_def unmap_range_def)
  ultimately show ?case by blast
qed

lemma imc_prot_same:
  "pr \<in> {1, 2, 3, 4, 5, 6, 7} \<Longrightarrow> imc_prot_of pr = pr"
  by (auto simp: imc_prot_of_def PROT_READ_def PROT_WRITE_def PROT_EXEC_def)

lemma signed_take_bit_small: "0 \<le> k \<Longrightarrow> k < 2 ^ 31 \<Longrightarrow> signed_take_bit 63 k = (k :: int)"
  by (rule signed_take_bit_int_eq_self) simp_all

text \<open>The end of a range that fits below 2 GiB.\<close>

lemma offset_fits:
  fixes off n :: u32
  assumes "unat off + unat n + 65536 < 2 ^ 31"
  shows "\<not> sint ((ucast off + ucast n + 0xFFFF) AND NOT (0xFFFF :: u64)) > 0x7FFFFFFF"
proof -
  let ?w = "ucast off + ucast n + 0xFFFF :: u64"
  have o: "unat (ucast off :: u64) = unat off" "unat (ucast n :: u64) = unat n"
    using unat_lt_size_t [of off] unat_lt_size_t [of n] by (simp_all add: unsigned_ucast_eq take_bit_nat_eq_self)
  have a: "unat (ucast off + ucast n :: u64) = unat off + unat n"
    using unat_add_no_wrap [of "ucast off :: u64" "ucast n"] assms o by simp
  have "unat ?w = unat off + unat n + 65535"
    using unat_add_no_wrap [of "ucast off + ucast n :: u64" "0xFFFF"] assms a by simp
  then have "unat ?w < 2 ^ 31" using assms by simp
  moreover have "?w AND NOT 0xFFFF \<le> ?w" by (rule word_and_le2)
  ultimately have lt: "unat (?w AND NOT 0xFFFF) < 2 ^ 31" by (simp add: word_le_nat_alt)
  have "int (unat (?w AND NOT 0xFFFF)) < int (2 ^ 31)"
    using lt by (simp only: of_nat_less_iff)
  then have u: "uint (?w AND NOT 0xFFFF) < 2 ^ 31" by (simp only: uint_nat of_nat_power of_nat_numeral)
  have "sint (?w AND NOT 0xFFFF) = uint (?w AND NOT 0xFFFF)"
    unfolding sint_uint using signed_take_bit_small [OF unsigned_greater_eq u] by simp
  then show ?thesis using u by simp
qed

section \<open>The effector of \<open>nacl_text.c\<close>\<close>

text \<open>Its \<open>UnmapMemory\<close> frees the pages, its \<open>MapAnonymousMemory\<close> must never be called.\<close>

definition NaClDescEffectorShmUnmapMemory :: "host_os \<Rightarrow> unmap_memory" where
  "NaClDescEffectorShmUnmapMemory os sysaddr nbytes sp = (NaCl_page_free os sysaddr nbytes sp, 0)"

definition NaClDescEffectorShmMapAnonymousMemory :: map_anonymous where
  "NaClDescEffectorShmMapAnonymousMemory sysaddr nbytes pr sp = Inl LogFatal"

interpretation se: effector "NaClDescEffectorShmUnmapMemory os" for os
  by unfold_locales
    (simp add: NaClDescEffectorShmUnmapMemory_def NaCl_page_free_def NaClUnmap_def same_beyond_def
      host_called_def unmap_range_def)

text \<open>The requests of \<open>nacl_text.c\<close>: shared, with a valid protection, inside the first 2 GiB.\<close>

lemma ShmMap_request:
  assumes "fixed_maps os" and "pr \<in> {1, 2, 3, 4, 5, 6, 7}" and "unat a + 65536 * n < 2 ^ 32"
    and "unat off + 65536 * n + 65536 < 2 ^ 31"
    and "flags = 0x11 \<and> a = start \<and> sp1 = sp \<or>
         flags = 1 \<and> os_find_space os (sp_calls sp) (0x10000 * of_nat n) = Some a \<and> sp1 = host_called sp"
  shows "\<exists>ok sp'. NaClDescImcShmMap os self (NaClDescEffectorShmUnmapMemory os) start (0x10000 * of_nat n) pr flags
             (ucast off) sp
           = Some (Inr (if ok then a else neg_errno NACL_ABI_E_MOVE_ADDRESS_SPACE, sp')) \<and>
           same_beyond a (0x10000 * of_nat n) sp1 sp' \<and>
           (ok \<longrightarrow> mapped_over a (0x10000 * of_nat n) (shm_h self) off pr sp1 sp') \<and> (maps_succeed os \<longrightarrow> ok)"
proof -
  have "unat (0x10000 * of_nat n :: u32) = 65536 * n" using assms(3) by (intro unat_pages) simp
  then have fits: "\<not> sint ((ucast off + ucast (0x10000 * of_nat n :: u32) + 0xFFFF) AND NOT (0xFFFF :: u64)) > 0x7FFFFFFF"
    using assms(4) by (intro offset_fits) simp
  obtain ok sp' where r: "map_pages os (NaClDescEffectorShmUnmapMemory os) (shm_h self) pr (flags = 0x11)
      (a + 0x10000 * of_nat n) a off sp1 = Some (Inr (ok, sp'))"
    and b: "same_beyond a (0x10000 * of_nat n) sp1 sp'"
    and m: "ok \<longrightarrow> mapped_over a (0x10000 * of_nat n) (shm_h self) off pr sp1 sp'" "maps_succeed os \<longrightarrow> ok"
    using se.map_pages_result [OF assms(1,3)] by blast
  have c: "(ucast (ucast off :: u64) :: u32) = off" by (simp add: bit_eq_iff bit_simps)
  have p: "imc_prot_of pr = pr" "pr \<noteq> PROT_NONE" "NOT (PROT_READ OR PROT_WRITE OR PROT_EXEC) AND pr = 0"
    using imc_prot_same [OF assms(2)] assms(2)
    by (auto simp: PROT_NONE_def PROT_READ_def PROT_WRITE_def PROT_EXEC_def)
  have "NaClDescImcShmMap os self (NaClDescEffectorShmUnmapMemory os) start (0x10000 * of_nat n) pr flags (ucast off) sp
         = Some (Inr (if ok then a else neg_errno NACL_ABI_E_MOVE_ADDRESS_SPACE, sp'))"
    using assms(5)
  proof (elim disjE conjE)
    assume f: "flags = 0x11" and a: "a = start" "sp1 = sp"
    show ?thesis
      using fits p r a unfolding f
      by (simp add: NaClDescImcShmMap_def NACL_ABI_MAP_SHARING_MASK_def NACL_ABI_MAP_SHARED_def
          NACL_ABI_MAP_FIXED_def c)
  next
    assume f: "flags = 1" and a: "os_find_space os (sp_calls sp) (0x10000 * of_nat n) = Some a" "sp1 = host_called sp"
    show ?thesis
      using fits p r a unfolding f
      by (simp add: NaClDescImcShmMap_def NaClFindAddressSpace_def NACL_ABI_MAP_SHARING_MASK_def NACL_ABI_MAP_SHARED_def
          NACL_ABI_MAP_FIXED_def c)
  qed
  with b m show ?thesis by blast
qed

lemma ShmMap_nowhere:
  assumes "pr \<in> {1, 2, 3, 4, 5, 6, 7}" and "os_find_space os (sp_calls sp) n = None"
  shows "NaClDescImcShmMap os self unmap start n pr 1 off sp = Some (Inr (neg_errno NACL_ABI_ENOMEM, host_called sp))"
proof -
  have "pr \<noteq> PROT_NONE" "NOT (PROT_READ OR PROT_WRITE OR PROT_EXEC) AND pr = 0"
    using assms(1) by (auto simp: PROT_NONE_def PROT_READ_def PROT_WRITE_def PROT_EXEC_def)
  then show ?thesis
    using assms(2)
    by (simp add: NaClDescImcShmMap_def NaClFindAddressSpace_def NACL_ABI_MAP_SHARING_MASK_def NACL_ABI_MAP_SHARED_def
        NACL_ABI_MAP_FIXED_def)
qed

text \<open>The state in which nothing is mapped yet, on a host whose calls succeed.\<close>

definition good_host :: host_os where
  "good_host = \<lparr>os_find_space = \<lambda>_ _. Some 0x80000000, os_map = \<lambda>_ a. Some a, os_unmap = \<lambda>_ _. True,
     os_create = \<lambda>_ _. 7\<rparr>"

definition empty_space :: shm_space where
  "empty_space = \<lparr>sp_map = \<lambda>_. None, sp_shm = \<lambda>_ _. 0, sp_calls = 0\<rparr>"

lemma good_host_fixed: "fixed_maps good_host"
  by (simp add: fixed_maps_def good_host_def)

text \<open>C38: Mapping whole 64 KiB pages of a shared memory object at a fixed address always returns. When
  it returns the address, every byte of the range shows the object at the offset asked for, with the
  protection asked for, and the rest of the address space is unchanged; otherwise it returns
  \<open>-NACL_ABI_E_MOVE_ADDRESS_SPACE\<close> and still leaves everything outside the range alone. The bytes of
  the objects are never touched.\<close>

theorem NaClDescImcShmMap_fixed_correct:
  assumes "fixed_maps os" and "pr \<in> {1, 2, 3, 4, 5, 6, 7}" and "unat a + 65536 * n < 2 ^ 32"
    and "unat off + 65536 * n + 65536 < 2 ^ 31"
  shows "\<exists>r sp'. NaClDescImcShmMap os self (NaClDescEffectorShmUnmapMemory os) a (0x10000 * of_nat n) pr
             (NACL_ABI_MAP_SHARED OR NACL_ABI_MAP_FIXED) (ucast off) sp = Some (Inr (r, sp')) \<and>
           (r = a \<or> r = neg_errno NACL_ABI_E_MOVE_ADDRESS_SPACE) \<and>
           sp_shm sp' = sp_shm sp \<and>
           (\<forall>x. \<not> x - a < 0x10000 * of_nat n \<longrightarrow> sp_map sp' x = sp_map sp x) \<and>
           (r = a \<and> a \<noteq> neg_errno NACL_ABI_E_MOVE_ADDRESS_SPACE \<longrightarrow>
              (\<forall>x. x - a < 0x10000 * of_nat n \<longrightarrow> sp_map sp' x = Some (shm_h self, off + (x - a), pr)))"
proof -
  have f: "NACL_ABI_MAP_SHARED OR NACL_ABI_MAP_FIXED = 0x11"
    by (simp add: NACL_ABI_MAP_SHARED_def NACL_ABI_MAP_FIXED_def)
  obtain ok sp' where r: "NaClDescImcShmMap os self (NaClDescEffectorShmUnmapMemory os) a (0x10000 * of_nat n) pr
        0x11 (ucast off) sp = Some (Inr (if ok then a else neg_errno NACL_ABI_E_MOVE_ADDRESS_SPACE, sp'))"
    and b: "same_beyond a (0x10000 * of_nat n) sp sp'"
    and m: "ok \<longrightarrow> mapped_over a (0x10000 * of_nat n) (shm_h self) off pr sp sp'"
    using ShmMap_request [OF assms, of "0x11" a sp sp] by blast
  show ?thesis
    unfolding f r using b m by (cases ok) (auto simp: same_beyond_def mapped_over_def)
qed

theorem NaClDescImcShmMap_fixed_correct_witness:
  "\<exists>r sp'. NaClDescImcShmMap good_host \<lparr>shm_h = 7, shm_size = 0x20000\<rparr> (NaClDescEffectorShmUnmapMemory good_host)
     0x40030000 (0x10000 * of_nat 2) 3 (NACL_ABI_MAP_SHARED OR NACL_ABI_MAP_FIXED) (ucast (0x10000 :: u32)) empty_space
     = Some (Inr (r, sp')) \<and> sp_shm sp' = (\<lambda>_ _. 0)"
  using NaClDescImcShmMap_fixed_correct [OF good_host_fixed, of 3 "0x40030000" 2 "0x10000"
      "\<lparr>shm_h = 7, shm_size = 0x20000\<rparr>" empty_space]
  by (auto simp: empty_space_def)

section \<open>Transfer\<close>

lemma off64_of_bytes:
  "foldr (\<lambda>b acc. ucast b OR push_bit 8 acc) (map (\<lambda>i. ucast (drop_bit (8 * i) w) :: u8) [k..<k + n]) 0
     = take_bit (8 * n) (drop_bit (8 * k) (w :: u64))"
proof (induction n arbitrary: k)
  case 0
  then show ?case by simp
next
  case (Suc n)
  have "[k..<k + Suc n] = k # [Suc k..<Suc k + n]" by (simp add: upt_conv_Cons)
  then have "foldr (\<lambda>b acc. ucast b OR push_bit 8 acc) (map (\<lambda>i. ucast (drop_bit (8 * i) w) :: u8) [k..<k + Suc n]) 0
      = ucast (ucast (drop_bit (8 * k) w) :: u8) OR push_bit 8 (take_bit (8 * n) (drop_bit (8 * Suc k) w))"
    by (simp only: list.map foldr.simps comp_apply Suc.IH)
  also have "\<dots> = take_bit (8 * Suc n) (drop_bit (8 * k) w)"
  proof (rule bit_word_eqI)
    fix i
    assume "i < LENGTH(64)"
    show "bit (ucast (ucast (drop_bit (8 * k) w) :: u8) OR push_bit 8 (take_bit (8 * n) (drop_bit (8 * Suc k) w))) i
        = bit (take_bit (8 * Suc n) (drop_bit (8 * k) w)) i"
    proof (cases "i < 8")
      case True
      then show ?thesis by (auto simp: bit_simps)
    next
      case False
      then obtain j where "i = 8 + j" by (metis le_add_diff_inverse not_less)
      then show ?thesis using \<open>i < LENGTH(64)\<close> by (auto simp: bit_simps ac_simps)
    qed
  qed
  finally show ?case .
qed

lemma off64_roundtrip: "off64_of (off64_bytes w) = w"
  using off64_of_bytes [of w 0 8] by (simp add: off64_of_def off64_bytes_def take_bit_word_eq_self)

text \<open>C39: A shared memory descriptor written into a message by \<open>Externalize\<close>, into buffers with the room
  \<open>ExternalizeSize\<close> asks for, and read back by \<open>Internalize\<close> from the same positions is the descriptor
  again: same handle, same size. Reading takes the handle out of the message and leaves the cursors
  exactly where writing left them.\<close>

theorem NaClDescImcShm_transfer_roundtrip:
  assumes "\<not> size_unfit (shm_size self)"
    and "NaClDescImcShmExternalizeSize self = (nb, nh)"
    and "next_byte xfer + nb \<le> length (byte_buffer xfer)"
    and "next_handle xfer + nh \<le> length (handle_buffer xfer)"
  shows "\<exists>sent. NaClDescImcShmExternalize self xfer = Inr sent \<and>
           (\<exists>rcvd. NaClDescImcShmInternalize True True
                (sent\<lparr>next_byte := next_byte xfer, next_handle := next_handle xfer\<rparr>) = (Inr self, rcvd) \<and>
              next_byte rcvd = next_byte sent \<and> next_handle rcvd = next_handle sent \<and>
              handle_buffer rcvd ! next_handle xfer = NACL_INVALID_HANDLE)"
proof -
  have len: "length (off64_bytes (shm_size self)) = 8" by (simp add: off64_bytes_def)
  have b: "next_byte xfer + 8 \<le> length (byte_buffer xfer)" "next_handle xfer < length (handle_buffer xfer)"
    using assms(2-4) by (auto simp: NaClDescImcShmExternalizeSize_def)
  show ?thesis
    using assms(1) b
    by (auto simp: NaClDescImcShmExternalize_def put_bytes_def NaClDescImcShmInternalize_def len
        off64_roundtrip NaClDescImcShmCtor_def Let_def)
qed

theorem NaClDescImcShm_transfer_roundtrip_witness:
  "\<exists>sent. NaClDescImcShmExternalize \<lparr>shm_h = 7, shm_size = 0x20000\<rparr>
       \<lparr>byte_buffer = replicate 9 0, next_byte = 1, handle_buffer = [3, 4], next_handle = 1\<rparr> = Inr sent"
  using NaClDescImcShm_transfer_roundtrip [of "\<lparr>shm_h = 7, shm_size = 0x20000\<rparr>" 8 1
      "\<lparr>byte_buffer = replicate 9 0, next_byte = 1, handle_buffer = [3, 4], next_handle = 1\<rparr>"]
  by (auto simp: size_unfit_def NaClDescImcShmExternalizeSize_def)

end
