(* ===== verification/Dyn_Text.thy ===== *)
theory Dyn_Text
  imports Code_Install Dyn_Regions Imc_Shm
begin

text \<open>
  Dynamic code, the rest of \<open>service_runtime/nacl_text.c\<close>: making the dynamic text a shared memory object
  filled with HLT, the cached writable mapping of it, the deletion generations of the threads, and the
  system calls \<open>dyncode_create\<close>, \<open>dyncode_modify\<close> and \<open>dyncode_delete\<close>.

  The private memory of the process is \<open>app_mem\<close>; what the process sees is \<open>view\<close> of it through the
  mappings. The calls run with \<open>dynamic_load_mutex\<close> held, so each is one step. The outcome is \<open>None\<close> when
  a loop never ends, \<open>Inl\<close> when the process aborts, and otherwise the result with the new state.
\<close>

section \<open>The state\<close>

record dyn_state =
  ds_app :: NaClApp
  ds_space :: shm_space
  ds_text :: NaClDescImcShm     \<comment> \<open>the object \<open>nap->text_shm\<close> points to\<close>
  ds_threads :: thread_table
  ds_gen :: "nat \<Rightarrow> int"        \<comment> \<open>\<open>dynamic_delete_generation\<close> of the thread at an address\<close>
  ds_serial :: serial_state

record dyn_env =
  de_os :: host_os
  de_valid :: valid_env
  de_tables :: DecodeTables
  de_stack :: "nat \<Rightarrow> NCDecoderState list"
  de_serial :: serial_env
  de_malloc :: "size_t \<Rightarrow> uintptr_t option"
  de_stack_buf :: uintptr_t     \<comment> \<open>the address of \<open>code_copy_buf\<close>\<close>
  de_realloc_ok :: bool
  de_desc_ok :: bool            \<comment> \<open>the result of \<open>NaClDescCtor\<close>\<close>

type_synonym 'a outcome = "('a \<times> dyn_state) res option"

abbreviation run_ok :: "'a \<Rightarrow> dyn_state \<Rightarrow> 'a outcome" where
  "run_ok r st \<equiv> Some (Inr (r, st))"

definition proc_mem :: "dyn_state \<Rightarrow> memory" where
  "proc_mem st = view (ds_space st) (app_mem (ds_app st))"

text \<open>
  Writes by the process: to private memory, and through the writable window of \<open>n\<close> bytes at \<open>a\<close> to the
  object \<open>h\<close> at \<open>off\<close>, as far as the window is mapped.
\<close>

definition set_private :: "memory \<Rightarrow> dyn_state \<Rightarrow> dyn_state" where
  "set_private m' st =
     (let nap = ds_app st in
      st\<lparr>ds_app := nap\<lparr>app_mem := \<lambda>x. if sp_map (ds_space st) x = None then m' x else app_mem nap x\<rparr>\<rparr>)"

definition set_window :: "uintptr_t \<Rightarrow> size_t \<Rightarrow> u32 \<Rightarrow> int \<Rightarrow> memory \<Rightarrow> shm_space \<Rightarrow> shm_space" where
  "set_window a n off h m' sp =
     sp\<lparr>sp_shm := (sp_shm sp)(h := \<lambda>k.
       let x = a + (k - off) in
       if k - off < n \<and> map_option (\<lambda>(h', k', _). (h', k')) (sp_map sp x) = Some (h, k) then m' x
       else sp_shm sp h k)\<rparr>"

definition write_text :: "memory \<Rightarrow> dyn_state \<Rightarrow> dyn_state" where
  "write_text m' st =
     (let nap = ds_app st in
      (set_private m' st)\<lparr>ds_space :=
        set_window (dynamic_mapcache_ret nap) (dynamic_mapcache_size nap) (dynamic_mapcache_offset nap)
          (shm_h (ds_text st)) m' (ds_space st)\<rparr>)"

section \<open>Sharing the dynamic text\<close>

definition NaClFillMemoryRegionWithHalt :: "uintptr_t \<Rightarrow> size_t \<Rightarrow> memory \<Rightarrow> memory res" where
  "NaClFillMemoryRegionWithHalt start n m =
     check_res (n mod NACL_HALT_LEN = 0) (Inr (\<lambda>x. if x - start < n then NACL_HALT_OPCODE else m x))"

definition share_page ::
    "dyn_env \<Rightarrow> NaClDescImcShm \<Rightarrow> NaClApp \<Rightarrow> uintptr_t \<Rightarrow> u32 \<Rightarrow> shm_space \<Rightarrow> shm_space res option" where
  "share_page env shm nap shm_vaddr_base shm_offset sp =
     (let os = de_os env; eff = NaClDescEffectorShmUnmapMemory os in
      bind_run (Some (NaClUserToSys nap (shm_vaddr_base + shm_offset))) (\<lambda>text_sysaddr.
      bind_run (NaClDescImcShmMap os shm eff text_sysaddr NACL_MAP_PAGESIZE (PROT_READ OR PROT_WRITE)
                  (NACL_ABI_MAP_SHARED OR NACL_ABI_MAP_FIXED) (ucast shm_offset) sp) (\<lambda>(mmap_ret, sp1).
      if text_sysaddr \<noteq> mmap_ret then Some (Inl LogFatal)
      else
      bind_run (Some (NaClFillMemoryRegionWithHalt text_sysaddr NACL_MAP_PAGESIZE (view sp1 (app_mem nap)))) (\<lambda>m'.
        let sp2 = set_window text_sysaddr NACL_MAP_PAGESIZE shm_offset (shm_h shm) m' sp1 in
      bind_run (NaClDescImcShmUnmapUnsafe os NaClDescEffectorShmMapAnonymousMemory text_sysaddr NACL_MAP_PAGESIZE sp2)
        (\<lambda>(rv, sp3).
      if rv = - 1 then Some (Inl LogFatal)
      else
      bind_run (NaClDescImcShmMap os shm eff text_sysaddr NACL_MAP_PAGESIZE (PROT_READ OR PROT_EXEC)
                  (NACL_ABI_MAP_SHARED OR NACL_ABI_MAP_FIXED) (ucast shm_offset) sp3) (\<lambda>(mmap_ret2, sp4).
      if text_sysaddr \<noteq> mmap_ret2 then Some (Inl LogFatal) else Some (Inr sp4)))))))"

partial_function (option) share_pages ::
    "dyn_env \<Rightarrow> NaClDescImcShm \<Rightarrow> NaClApp \<Rightarrow> uintptr_t \<Rightarrow> uintptr_t \<Rightarrow> u32 \<Rightarrow> shm_space \<Rightarrow> shm_space res option" where
  "share_pages env shm nap shm_vaddr_base dynamic_text_size shm_offset sp =
     (if shm_offset < dynamic_text_size then
        case share_page env shm nap shm_vaddr_base shm_offset sp of
          None \<Rightarrow> None
        | Some r \<Rightarrow> (case r of Inl e \<Rightarrow> Some (Inl e)
            | Inr sp1 \<Rightarrow> share_pages env shm nap shm_vaddr_base dynamic_text_size (shm_offset + NACL_MAP_PAGESIZE) sp1)
      else Some (Inr sp))"

declare share_pages.simps [code]

text \<open>\<open>shm_ptr\<close> is the address \<open>malloc\<close> gives the descriptor.\<close>

definition NaClMakeDynamicTextShared :: "dyn_env \<Rightarrow> nat option \<Rightarrow> dyn_state \<Rightarrow> NaClErrorCode outcome" where
  "NaClMakeDynamicTextShared env shm_ptr st =
     (let nap = ds_app st;
          shm_vaddr_base = NaClRoundAllocPage (NaClEndOfStaticText nap) in
      if \<not> use_shm_for_dynamic_text nap then
        run_ok LOAD_OK (st\<lparr>ds_app := nap\<lparr>dynamic_text_start := shm_vaddr_base, dynamic_text_end := shm_vaddr_base\<rparr>\<rparr>)
      else
        let b1 = rodata_start nap;
            b2 = (if 0 = b1 then data_start nap else b1);
            shm_upper_bound = (if 0 = b2 then shm_vaddr_base else b2);
            nap1 = nap\<lparr>dynamic_text_start := shm_vaddr_base, dynamic_text_end := shm_upper_bound\<rparr>;
            st1 = st\<lparr>ds_app := nap1\<rparr>;
            dynamic_text_size = shm_upper_bound - shm_vaddr_base in
        if 0 = dynamic_text_size then run_ok LOAD_OK st1
        else case shm_ptr of
          None \<Rightarrow> run_ok LOAD_INTERNAL st1
        | Some p \<Rightarrow>
          (case NaClDescImcShmAllocCtor (de_os env) (de_desc_ok env) (ucast dynamic_text_size) True of
             None \<Rightarrow> run_ok LOAD_NO_MEMORY st1
           | Some shm \<Rightarrow>
               bind_run (share_pages env shm nap1 shm_vaddr_base dynamic_text_size 0 (ds_space st1)) (\<lambda>sp.
               run_ok LOAD_OK (st1\<lparr>ds_app := nap1\<lparr>text_shm := Some p\<rparr>, ds_space := sp, ds_text := shm\<rparr>))))"

section \<open>Generations\<close>

definition NaClSetThreadGeneration :: "nat \<Rightarrow> int \<Rightarrow> dyn_state \<Rightarrow> dyn_state res" where
  "NaClSetThreadGeneration natp generation st =
     (if ds_gen st natp \<noteq> generation then
        check_res (ds_gen st natp \<le> generation) (Inr (st\<lparr>ds_gen := (ds_gen st)(natp := generation)\<rparr>))
      else Inr st)"

fun minimum_loop :: "thread_table \<Rightarrow> (nat \<Rightarrow> int) \<Rightarrow> nat \<Rightarrow> u32 \<Rightarrow> int \<Rightarrow> int res" where
  "minimum_loop tt gen 0 i rv = Inr rv"
| "minimum_loop tt gen (Suc k) i rv =
     bind_res (NaClGetThreadMu tt i) (\<lambda>thread.
       case thread of
         None \<Rightarrow> Inl NullDeref
       | Some natp \<Rightarrow> minimum_loop tt gen k (i + 1) (if i = 0 \<or> rv > gen natp then gen natp else rv))"

definition NaClMinimumThreadGeneration :: "dyn_state \<Rightarrow> int res" where
  "NaClMinimumThreadGeneration st =
     minimum_loop (ds_threads st) (ds_gen st) (nat (sint (num_threads (ds_threads st)))) 0 0"

section \<open>The writable mapping\<close>

definition CachedMapWritableText :: "dyn_env \<Rightarrow> u32 \<Rightarrow> u32 \<Rightarrow> dyn_state \<Rightarrow> uintptr_t outcome" where
  "CachedMapWritableText env offset sz st =
     (let nap = ds_app st; os = de_os env in
      if offset \<noteq> dynamic_mapcache_offset nap \<or> sz \<noteq> dynamic_mapcache_size nap then
        bind_run
          (if dynamic_mapcache_size nap > 0 \<and> \<not> NaClPtrIsNegErrno (dynamic_mapcache_ret nap) then
             bind_run (NaClDescImcShmUnmapUnsafe os NaClDescEffectorShmMapAnonymousMemory
                         (dynamic_mapcache_ret nap) (dynamic_mapcache_size nap) (ds_space st)) (\<lambda>(rv, sp).
             if 0 \<noteq> rv then Some (Inl LogFatal) else Some (Inr sp))
           else Some (Inr (ds_space st))) (\<lambda>sp1.
        let nap1 = nap\<lparr>dynamic_mapcache_offset := offset, dynamic_mapcache_size := sz\<rparr> in
        if sz > 0 then
          (if \<not> offset > 0 then Some (Inl CheckFailed)
           else
             bind_run (NaClDescImcShmMap os (ds_text st) (NaClDescEffectorShmUnmapMemory os) 0 sz
                         (PROT_READ OR PROT_WRITE) NACL_ABI_MAP_SHARED (ucast offset) sp1) (\<lambda>(ret, sp2).
             run_ok ret (st\<lparr>ds_app := nap1\<lparr>dynamic_mapcache_ret := ret\<rparr>, ds_space := sp2\<rparr>)))
        else if 0 \<noteq> offset then Some (Inl CheckFailed)
        else run_ok 0 (st\<lparr>ds_app := nap1\<lparr>dynamic_mapcache_ret := 0\<rparr>, ds_space := sp1\<rparr>))
      else run_ok (dynamic_mapcache_ret nap) st)"

definition map_offset :: "NaClApp \<Rightarrow> u32 \<Rightarrow> u32" where
  "map_offset nap dest = (dest - dynamic_text_start nap) AND NOT (NACL_MAP_PAGESIZE - 1)"

definition map_size :: "NaClApp \<Rightarrow> u32 \<Rightarrow> u32 \<Rightarrow> u32" where
  "map_size nap dest sz =
     ((dest - dynamic_text_start nap + sz + NACL_MAP_PAGESIZE - 1) AND NOT (NACL_MAP_PAGESIZE - 1))
     - map_offset nap dest"

definition NaclTextMapWrapper :: "dyn_env \<Rightarrow> u32 \<Rightarrow> u32 \<Rightarrow> dyn_state \<Rightarrow> uintptr_t option outcome" where
  "NaclTextMapWrapper env dest sz st =
     (let nap = ds_app st;
          within_page_offset = (dest - dynamic_text_start nap) AND (NACL_MAP_PAGESIZE - 1) in
      bind_run (CachedMapWritableText env (map_offset nap dest) (map_size nap dest sz) st) (\<lambda>(mmap_ret, st1).
        if NaClPtrIsNegErrno mmap_ret then run_ok None st1
        else run_ok (Some (mmap_ret + within_page_offset)) st1))"

definition NaclTextMapClearCacheIfNeeded :: "dyn_env \<Rightarrow> u32 \<Rightarrow> u32 \<Rightarrow> dyn_state \<Rightarrow> dyn_state res option" where
  "NaclTextMapClearCacheIfNeeded env dest sz st =
     (if map_size (ds_app st) dest sz > NACL_MAP_PAGESIZE
      then bind_run (CachedMapWritableText env 0 0 st) (\<lambda>(_, st1). Some (Inr st1))
      else Some (Inr st))"

section \<open>The system calls\<close>

definition NACL_INSTR_BLOCK_SIZE :: u32 where "NACL_INSTR_BLOCK_SIZE = 32"

text \<open>\<open>memcpy\<close> into private memory.\<close>

definition copy_in :: "uintptr_t \<Rightarrow> uintptr_t \<Rightarrow> u32 \<Rightarrow> dyn_state \<Rightarrow> dyn_state" where
  "copy_in dst src n st = set_private (mem_write (proc_mem st) dst (mem_read (proc_mem st) src (unat n))) st"

definition NaClTextSysDyncode_Create :: "dyn_env \<Rightarrow> u32 \<Rightarrow> u32 \<Rightarrow> u32 \<Rightarrow> dyn_state \<Rightarrow> int outcome" where
  "NaClTextSysDyncode_Create env dest src sz st =
     (let nap = ds_app st in
      if text_shm nap = None then run_ok (- NACL_ABI_EINVAL) st
      else if dest AND (bundle_size nap - 1) \<noteq> 0 \<or> sz AND (bundle_size nap - 1) \<noteq> 0
        then run_ok (- NACL_ABI_EINVAL) st
      else
        let dest_addr = NaClUserToSysAddrRange nap dest sz;
            src_addr = NaClUserToSysAddrRange nap src sz in
        if dest_addr = kNaClBadAddress \<or> src_addr = kNaClBadAddress then run_ok (- NACL_ABI_EFAULT) st
        else if dest < dynamic_text_start nap then run_ok (- NACL_ABI_EFAULT) st
        else if dest + sz > dynamic_text_end nap - NACL_HALT_SLED_SIZE then run_ok (- NACL_ABI_EFAULT) st
        else if sz = 0 then run_ok 0 st
        else case de_malloc env sz of
          None \<Rightarrow> run_ok (- NACL_ABI_ENOMEM) st
        | Some code_copy \<Rightarrow>
          let st1 = copy_in code_copy src_addr sz st in
          bind_run (Some (NaClDynamicRegionCreate (de_realloc_ok env) (ds_app st1) dest_addr sz)) (\<lambda>(nap1, created).
          let st2 = st1\<lparr>ds_app := nap1\<rparr> in
          if \<not> created then run_ok (- NACL_ABI_EINVAL) st2
          else
            bind_run (NaClValidateCode (de_valid env) (de_tables env) (de_stack env) nap1 dest code_copy sz (proc_mem st2))
              (\<lambda>(validator_result, m3).
            let st3 = set_private m3 st2 in
            if validator_result \<noteq> LOAD_OK \<and> \<not> ignore_validator_result nap1 then run_ok (- NACL_ABI_EINVAL) st3
            else
              bind_run (NaclTextMapWrapper env dest sz st3) (\<lambda>(mapped, st4).
              case mapped of
                None \<Rightarrow> run_ok (- NACL_ABI_ENOMEM) st4
              | Some mapped_addr \<Rightarrow>
                bind_run (CopyCodeSafelyInitial mapped_addr code_copy sz (bundle_size (ds_app st4)) (proc_mem st4, []))
                  (\<lambda>(m5, _).
                bind_run (NaclTextMapClearCacheIfNeeded env dest sz (write_text m5 st4)) (\<lambda>st6.
                run_ok 0 st6))))))"

definition NaClTextSysDyncode_Modify :: "dyn_env \<Rightarrow> u32 \<Rightarrow> u32 \<Rightarrow> u32 \<Rightarrow> dyn_state \<Rightarrow> int outcome" where
  "NaClTextSysDyncode_Modify env dest src sz st =
     (let nap = ds_app st in
      if text_shm nap = None then run_ok (- NACL_ABI_EINVAL) st
      else if \<not> allow_dyncode_replacement nap then run_ok (- NACL_ABI_EINVAL) st
      else if sz = 0 then run_ok 0 st
      else
        let dest_addr = NaClUserToSysAddrRange nap dest sz;
            src_addr = NaClUserToSysAddrRange nap src sz in
        if src_addr = kNaClBadAddress \<or> dest_addr = kNaClBadAddress then run_ok (- NACL_ABI_EFAULT) st
        else case NaClDynamicRegionFind nap dest_addr sz of
          None \<Rightarrow> run_ok (- NACL_ABI_EFAULT) st
        | Some r \<Rightarrow>
          let region = dynamic_regions nap ! r in
          if dr_start region > dest_addr \<or> dr_start region + dr_size region < dest_addr + sz
          then run_ok (- NACL_ABI_EFAULT) st
          else
            let msk = bundle_size nap - 1;
                beginbundle = dest_addr AND NOT msk;
                endbundle = (dest_addr + sz - 1 + bundle_size nap) AND NOT msk;
                offset = dest_addr AND msk;
                nbytes = endbundle - beginbundle in
            case (if nbytes \<le> NACL_INSTR_BLOCK_SIZE then Some (de_stack_buf env) else de_malloc env nbytes) of
              None \<Rightarrow> run_ok (- NACL_ABI_ENOMEM) st
            | Some code_copy \<Rightarrow>
              let st1 = copy_in code_copy beginbundle nbytes st;
                  st2 = copy_in (code_copy + offset) src_addr sz st1;
                  dest2 = dest AND NOT msk;
                  dest_addr2 = dest_addr AND NOT msk in
              if \<not> nbytes < 0xFFFFFFFF then Some (Inl CheckFailed)
              else
                bind_run (NaClValidateCodeReplacement (de_valid env) (de_tables env) (de_stack env) nap
                            dest2 dest_addr2 code_copy nbytes (proc_mem st2)) (\<lambda>(validator_result, m3).
                let st3 = set_private m3 st2 in
                if validator_result \<noteq> LOAD_OK \<and> \<not> ignore_validator_result nap then run_ok (- NACL_ABI_EINVAL) st3
                else
                  bind_run (NaclTextMapWrapper env dest2 nbytes st3) (\<lambda>(mapped, st4).
                  case mapped of
                    None \<Rightarrow> run_ok (- NACL_ABI_ENOMEM) st4
                  | Some mapped_addr \<Rightarrow>
                    bind_run (NaClCopyCode (de_valid env) (de_serial env) (de_tables env) (de_stack env) (ds_app st4)
                                dest2 mapped_addr code_copy nbytes (proc_mem st4) (ds_serial st4)) (\<lambda>(rc, m5, cs).
                    let st5 = (write_text m5 st4)\<lparr>ds_serial := serial cs\<rparr> in
                    if rc \<noteq> LOAD_OK then run_ok (- NACL_ABI_EINVAL) st5
                    else bind_run (NaclTextMapClearCacheIfNeeded env dest2 nbytes st5) (\<lambda>st6. run_ok 0 st6)))))"

text \<open>The first deletion request of a region closes its bundle heads and takes a new generation.\<close>

definition close_region :: "dyn_env \<Rightarrow> u32 \<Rightarrow> u32 \<Rightarrow> nat \<Rightarrow> dyn_state \<Rightarrow> int option outcome" where
  "close_region env dest sz r st =
     (let nap = ds_app st in
      if dynamic_delete_generation nap = 0x7FFFFFFF then run_ok (Some (- NACL_ABI_EFAULT)) st
      else bind_run (NaclTextMapWrapper env dest sz st) (\<lambda>(mapped, st1).
        case mapped of
          None \<Rightarrow> run_ok (Some (- NACL_ABI_ENOMEM)) st1
        | Some mapped_addr \<Rightarrow>
          bind_run (map_option Inr (ReplaceBundleHeadsWithHalts mapped_addr sz (bundle_size (ds_app st1)) (proc_mem st1, [])))
            (\<lambda>(m2, _).
          bind_run (NaclTextMapClearCacheIfNeeded env dest sz (write_text m2 st1)) (\<lambda>st3.
          let nap3 = ds_app st3; g = dynamic_delete_generation nap3 + 1 in
          run_ok None (st3\<lparr>ds_app := nap3\<lparr>dynamic_delete_generation := g,
              dynamic_regions := (dynamic_regions nap3)[r := (dynamic_regions nap3 ! r)\<lparr>delete_generation := g\<rparr>]\<rparr>\<rparr>)))))"

definition finish_delete :: "dyn_env \<Rightarrow> nat \<Rightarrow> nat \<Rightarrow> dyn_state \<Rightarrow> int outcome" where
  "finish_delete env natp r st =
     bind_run (Some (NaClSetThreadGeneration natp (dynamic_delete_generation (ds_app st)) st)) (\<lambda>st1.
     bind_run (Some (NaClMinimumThreadGeneration st1)) (\<lambda>low.
     if delete_generation (dynamic_regions (ds_app st1) ! r) \<le> low
     then bind_run (Some (NaClDynamicRegionDelete (de_realloc_ok env) (ds_app st1) r)) (\<lambda>nap2.
            run_ok 0 (st1\<lparr>ds_app := nap2\<rparr>))
     else run_ok (- NACL_ABI_EAGAIN) st1))"

definition NaClTextSysDyncode_Delete :: "dyn_env \<Rightarrow> nat \<Rightarrow> u32 \<Rightarrow> u32 \<Rightarrow> dyn_state \<Rightarrow> int outcome" where
  "NaClTextSysDyncode_Delete env natp dest sz st =
     (let nap = ds_app st in
      if text_shm nap = None then run_ok (- NACL_ABI_EINVAL) st
      else if \<not> allow_dyncode_replacement nap then run_ok (- NACL_ABI_EINVAL) st
      else
        let dest_addr = NaClUserToSysAddrRange nap dest sz in
        if dest_addr = kNaClBadAddress then run_ok (- NACL_ABI_EFAULT) st
        else if sz = 0 then
          bind_run (Some (NaClSetThreadGeneration natp (dynamic_delete_generation nap) st)) (\<lambda>st1. run_ok 0 st1)
        else case NaClDynamicRegionFind nap dest_addr sz of
          None \<Rightarrow> run_ok (- NACL_ABI_EFAULT) st
        | Some r \<Rightarrow>
          let region = dynamic_regions nap ! r in
          if dr_start region \<noteq> dest_addr \<or> dr_size region \<noteq> sz then run_ok (- NACL_ABI_EFAULT) st
          else if delete_generation region < 0 then
            bind_run (close_region env dest sz r st) (\<lambda>(early, st1).
              case early of Some rv \<Rightarrow> run_ok rv st1 | None \<Rightarrow> finish_delete env natp r st1)
          else finish_delete env natp r st)"

section \<open>The minimum generation\<close>

lemma sint_nonneg:
  fixes w :: u32
  assumes "unat w < 2 ^ 31"
  shows "sint w = int (unat w)"
proof -
  have "int (unat w) < int (2 ^ 31)" using assms by (simp only: of_nat_less_iff)
  then have "int (unat w) < 2 ^ 31" by (simp only: of_nat_power of_nat_numeral)
  moreover have "sint w = signed_take_bit 31 (int (unat w))" by (simp only: sint_uint uint_nat) simp
  moreover have "signed_take_bit 31 k = k" if "0 \<le> k" "k < 2 ^ 31" for k :: int
    using that by (intro signed_take_bit_int_eq_self) simp_all
  ultimately show ?thesis by (metis of_nat_0_le_iff)
qed

lemma minimum_loop_result:
  assumes "da_inv (threads tt)" and "unat i + k < 2 ^ 31"
  shows "case minimum_loop tt gen k i rv of
       Inl e \<Rightarrow> e = NullDeref \<and> (\<exists>j < k. da_map (threads tt) (unat i + j) = None)
     | Inr low \<Rightarrow> (\<forall>j < k. \<exists>t. da_map (threads tt) (unat i + j) = Some t \<and> low \<le> gen t) \<and>
         (i \<noteq> 0 \<longrightarrow> low \<le> rv) \<and>
         (low = rv \<and> (i \<noteq> 0 \<or> k = 0) \<or> (\<exists>j < k. \<exists>t. da_map (threads tt) (unat i + j) = Some t \<and> low = gen t))"
  using assms(2)
proof (induction k arbitrary: i rv)
  case 0
  then show ?case by simp
next
  case (Suc k)
  show ?case
  proof (cases "da_map (threads tt) (unat i)")
    case None
    then have "minimum_loop tt gen (Suc k) i rv = Inl NullDeref"
      by (simp add: NaClGetThreadMu_def Get_ok [OF assms(1)])
    then show ?thesis using None by (auto intro!: exI [of _ 0])
  next
    case (Some t)
    let ?rv = "if i = 0 \<or> rv > gen t then gen t else rv"
    have run: "minimum_loop tt gen (Suc k) i rv = minimum_loop tt gen k (i + 1) ?rv"
      using Some by (simp add: NaClGetThreadMu_def Get_ok [OF assms(1)])
    have u: "unat (i + 1) = unat i + 1" using unat_add_no_wrap [of i 1] Suc.prems by simp
    then have nz: "i + 1 \<noteq> 0" by (metis add_is_0 one_neq_zero unat_0)
    have "unat (i + 1) + k < 2 ^ 31" using Suc.prems u by simp
    note IH = Suc.IH [OF this, of ?rv]
    have le: "?rv \<le> gen t" "i \<noteq> 0 \<Longrightarrow> ?rv \<le> rv" "?rv = gen t \<or> i \<noteq> 0 \<and> ?rv = rv" by auto
    show ?thesis
    proof (cases "minimum_loop tt gen k (i + 1) ?rv")
      case (Inl e)
      with IH u obtain j where "e = NullDeref" "j < k" "da_map (threads tt) (unat i + Suc j) = None" by auto
      then show ?thesis unfolding run Inl by (auto intro!: exI [of _ "Suc j"])
    next
      case (Inr low)
      with IH have b: "\<forall>j < k. \<exists>t. da_map (threads tt) (unat i + Suc j) = Some t \<and> low \<le> gen t" "low \<le> ?rv"
        and w: "low = ?rv \<or> (\<exists>j < k. \<exists>t. da_map (threads tt) (unat i + Suc j) = Some t \<and> low = gen t)"
        using nz u by auto
      have "\<forall>j < Suc k. \<exists>t. da_map (threads tt) (unat i + j) = Some t \<and> low \<le> gen t"
      proof (intro allI impI)
        fix j assume "j < Suc k"
        then show "\<exists>t. da_map (threads tt) (unat i + j) = Some t \<and> low \<le> gen t"
          using b le(1) Some by (cases j) (auto intro: order_trans)
      qed
      moreover have "i \<noteq> 0 \<longrightarrow> low \<le> rv" using b(2) le(2) order_trans by blast
      moreover have "low = rv \<and> (i \<noteq> 0 \<or> Suc k = 0) \<or>
          (\<exists>j < Suc k. \<exists>t. da_map (threads tt) (unat i + j) = Some t \<and> low = gen t)"
      proof -
        from w le(3) consider "low = gen t" | "i \<noteq> 0" "low = rv"
          | j t' where "j < k" "da_map (threads tt) (unat i + Suc j) = Some t'" "low = gen t'"
          by metis
        then show ?thesis
        proof cases
          case 1
          then have "\<exists>j < Suc k. \<exists>t. da_map (threads tt) (unat i + j) = Some t \<and> low = gen t"
            using Some by (intro exI [of _ 0]) simp
          then show ?thesis by blast
        next
          case 2
          then show ?thesis by simp
        next
          case 3
          then have "\<exists>j < Suc k. \<exists>t. da_map (threads tt) (unat i + j) = Some t \<and> low = gen t"
            by (intro exI [of _ "Suc j"]) simp
          then show ?thesis by blast
        qed
      qed
      ultimately show ?thesis by (simp only: run Inr sum.case)
    qed
  qed
qed

text \<open>The live threads.\<close>

definition live_threads :: "dyn_state \<Rightarrow> nat set" where
  "live_threads st = ran (da_map (threads (ds_threads st)))"

lemma minimum_generation:
  assumes inv: "thread_inv (ds_threads st)" and pos: "num_threads (ds_threads st) \<noteq> 0"
    and small: "unat (num_threads (ds_threads st)) < 2 ^ 31"
  shows "case NaClMinimumThreadGeneration st of
       Inl e \<Rightarrow> e = NullDeref \<and> (\<exists>i \<ge> unat (num_threads (ds_threads st)). i \<in> dom (da_map (threads (ds_threads st))))
     | Inr low \<Rightarrow> (\<forall>t \<in> live_threads st. low \<le> ds_gen st t) \<and> (\<exists>t \<in> live_threads st. low = ds_gen st t)"
proof -
  let ?tt = "ds_threads st"
  let ?m = "da_map (threads ?tt)" and ?n = "unat (num_threads ?tt)"
  have da: "da_inv (threads ?tt)" and card: "card (dom ?m) = ?n"
    using inv by (simp_all add: thread_inv_def)
  have n: "nat (sint (num_threads ?tt)) = ?n" using sint_nonneg [OF small] by simp
  have npos: "0 < ?n" using pos unat_eq_zero by auto
  note res = minimum_loop_result [OF da, of 0 ?n "ds_gen st" 0]
  show ?thesis
  proof (cases "NaClMinimumThreadGeneration st")
    case (Inl e)
    with res small n have e: "e = NullDeref" and "\<exists>j < ?n. ?m j = None"
      by (auto simp: NaClMinimumThreadGeneration_def)
    then obtain j where j: "j < ?n" "?m j = None" by blast
    have "\<not> dom ?m \<subseteq> {..<?n}"
    proof
      assume "dom ?m \<subseteq> {..<?n}"
      then have "dom ?m = {..<?n}" using card by (intro card_subset_eq) simp_all
      then show False using j by blast
    qed
    then have "\<exists>i \<ge> ?n. i \<in> dom ?m" by (metis lessThan_iff not_le subsetI)
    with e Inl show ?thesis by simp
  next
    case (Inr low)
    with res small n have all: "\<forall>j < ?n. \<exists>t. ?m j = Some t \<and> low \<le> ds_gen st t"
      and some: "?n = 0 \<or> (\<exists>j < ?n. \<exists>t. ?m j = Some t \<and> low = ds_gen st t)"
      by (auto simp: NaClMinimumThreadGeneration_def)
    have "{..<?n} \<subseteq> dom ?m" using all by auto
    then have "{..<?n} = dom ?m"
      using card finite_dom_da_map [of "threads ?tt"] by (intro card_subset_eq) simp_all
    then have slot: "i < ?n" if "?m i = Some t" for i t using that by blast
    have "low \<le> ds_gen st t" if "?m i = Some t" for i t
      using all [rule_format, OF slot [OF that]] that by auto
    then have "\<forall>t \<in> live_threads st. low \<le> ds_gen st t" by (auto simp: live_threads_def ran_def)
    moreover have "\<exists>t \<in> live_threads st. low = ds_gen st t"
      using some npos by (auto simp: live_threads_def ran_def)
    ultimately show ?thesis using Inr by simp
  qed
qed

section \<open>What the mapping calls leave alone\<close>

text \<open>All of the state but the address space, the cache fields and the private memory.\<close>

definition app_core :: "NaClApp \<Rightarrow> NaClApp" where
  "app_core nap = nap\<lparr>dynamic_mapcache_offset := 0, dynamic_mapcache_size := 0, dynamic_mapcache_ret := 0,
     app_mem := \<lambda>_. 0\<rparr>"

definition same_but_maps :: "dyn_state \<Rightarrow> dyn_state \<Rightarrow> bool" where
  "same_but_maps st st' \<longleftrightarrow>
     ds_threads st' = ds_threads st \<and> ds_gen st' = ds_gen st \<and> ds_text st' = ds_text st \<and>
     app_core (ds_app st') = app_core (ds_app st)"

lemma app_core_fields:
  assumes "app_core nap' = app_core nap"
  shows "addr_bits nap' = addr_bits nap" "mem_start nap' = mem_start nap" "bundle_size nap' = bundle_size nap"
    "dynamic_text_start nap' = dynamic_text_start nap" "dynamic_text_end nap' = dynamic_text_end nap"
    "text_shm nap' = text_shm nap" "dynamic_regions nap' = dynamic_regions nap"
    "dynamic_regions_allocated nap' = dynamic_regions_allocated nap"
    "dynamic_delete_generation nap' = dynamic_delete_generation nap"
    "ignore_validator_result nap' = ignore_validator_result nap"
    "validator_stub_out_mode nap' = validator_stub_out_mode nap"
    "allow_dyncode_replacement nap' = allow_dyncode_replacement nap"
  using arg_cong [OF assms, of addr_bits] arg_cong [OF assms, of mem_start] arg_cong [OF assms, of bundle_size]
    arg_cong [OF assms, of dynamic_text_start] arg_cong [OF assms, of dynamic_text_end]
    arg_cong [OF assms, of text_shm] arg_cong [OF assms, of dynamic_regions]
    arg_cong [OF assms, of dynamic_regions_allocated] arg_cong [OF assms, of dynamic_delete_generation]
    arg_cong [OF assms, of ignore_validator_result] arg_cong [OF assms, of validator_stub_out_mode]
    arg_cong [OF assms, of allow_dyncode_replacement]
  by (simp_all add: app_core_def)

lemma same_but_maps_refl: "same_but_maps st st"
  by (simp add: same_but_maps_def)

lemma same_but_maps_trans: "same_but_maps a b \<Longrightarrow> same_but_maps b c \<Longrightarrow> same_but_maps a c"
  by (simp add: same_but_maps_def)

lemma set_private_same: "same_but_maps st (set_private m st)"
  by (simp add: same_but_maps_def set_private_def app_core_def Let_def)

lemma write_text_same: "same_but_maps st (write_text m st)"
  by (simp add: same_but_maps_def write_text_def set_private_def app_core_def Let_def)

lemma CachedMap_same:
  assumes "CachedMapWritableText env off sz st = run_ok r st'"
  shows "same_but_maps st st'"
  using assms
  by (auto simp: CachedMapWritableText_def Let_def bind_run_Inr same_but_maps_def app_core_def split: if_splits)

lemma MapWrapper_same:
  assumes "NaclTextMapWrapper env dest sz st = run_ok r st'"
  shows "same_but_maps st st'"
proof -
  obtain ret st1 where "CachedMapWritableText env (map_offset (ds_app st) dest) (map_size (ds_app st) dest sz) st = run_ok ret st1"
    "st' = st1" using assms by (auto simp: NaclTextMapWrapper_def Let_def bind_run_Inr split: if_splits)
  then show ?thesis using CachedMap_same by blast
qed

lemma ClearCache_same:
  assumes "NaclTextMapClearCacheIfNeeded env dest sz st = Some (Inr st')"
  shows "same_but_maps st st'"
  using assms
  by (auto simp: NaclTextMapClearCacheIfNeeded_def bind_run_Inr same_but_maps_refl split: if_splits
      dest: CachedMap_same)

section \<open>The mapped text\<close>

abbreviation text_base :: "NaClApp \<Rightarrow> uintptr_t" where
  "text_base nap \<equiv> mem_start nap + dynamic_text_start nap"

definition text_span :: "NaClApp \<Rightarrow> uintptr_t \<Rightarrow> bool" where
  "text_span nap x \<longleftrightarrow> x - text_base nap < dynamic_text_end nap - dynamic_text_start nap"

definition window_span :: "NaClApp \<Rightarrow> uintptr_t \<Rightarrow> bool" where
  "window_span nap x \<longleftrightarrow> \<not> NaClPtrIsNegErrno (dynamic_mapcache_ret nap) \<and>
     x - dynamic_mapcache_ret nap < dynamic_mapcache_size nap"

text \<open>
  The text object is mapped read-only and executable as the dynamic text, writable in the cached window
  outside the application's address space, and nowhere else.
\<close>

definition window_fits :: "NaClApp \<Rightarrow> bool" where
  "window_fits nap \<longleftrightarrow> dynamic_mapcache_size nap = 0 \<or> NaClPtrIsNegErrno (dynamic_mapcache_ret nap) \<or>
     (\<exists>n. dynamic_mapcache_size nap = 0x10000 * of_nat n \<and>
          unat (dynamic_mapcache_ret nap) + 65536 * n < 2 ^ 32 \<and> dynamic_mapcache_ret nap AND 0xFFF = 0)"

definition text_mapped :: "dyn_state \<Rightarrow> bool" where
  "text_mapped st \<longleftrightarrow>
     (let nap = ds_app st; h = shm_h (ds_text st); mp = sp_map (ds_space st) in
      (\<forall>x. text_span nap x \<longrightarrow> mp x = Some (h, x - text_base nap, 5)) \<and>
      (\<forall>x. window_span nap x \<longrightarrow>
         mp x = Some (h, dynamic_mapcache_offset nap + (x - dynamic_mapcache_ret nap), 3) \<and> \<not> NaClIsUserAddr nap x) \<and>
      (\<forall>x k pr. mp x = Some (h, k, pr) \<longrightarrow> text_span nap x \<or> window_span nap x))"

definition text_bounds :: "NaClApp \<Rightarrow> bool" where
  "text_bounds nap \<longleftrightarrow> app_space nap \<and> dynamic_text_start nap \<le> dynamic_text_end nap \<and>
     unat (dynamic_text_end nap) \<le> 2 ^ unat (addr_bits nap)"

definition dyn_inv :: "dyn_state \<Rightarrow> bool" where
  "dyn_inv st \<longleftrightarrow> text_bounds (ds_app st) \<and> window_fits (ds_app st) \<and> text_mapped st"

text \<open>
  What the host promises: mapping at a fixed address maps there, mapping and unmapping do not fail, and
  address space handed out is page-aligned, does not reach the last pages below 4 GiB, and is not part
  of the address space reserved for the application.
\<close>

definition host_ok :: "host_os \<Rightarrow> NaClApp \<Rightarrow> bool" where
  "host_ok os nap \<longleftrightarrow> fixed_maps os \<and> maps_succeed os \<and> unmaps_succeed os \<and>
     (\<forall>k n a. os_find_space os k n = Some a \<longrightarrow>
        unat a + unat n + 65536 < 2 ^ 32 \<and> a AND 0xFFF = 0 \<and> (\<forall>x. x - a < n \<longrightarrow> \<not> NaClIsUserAddr nap x))"

text \<open>A block of trusted memory that is not part of the application and never used for mappings.\<close>

definition own_block :: "host_os \<Rightarrow> dyn_state \<Rightarrow> uintptr_t \<Rightarrow> u32 \<Rightarrow> bool" where
  "own_block os st a n \<longleftrightarrow> (\<forall>x. x - a < n \<longrightarrow> sp_map (ds_space st) x = None \<and> \<not> NaClIsUserAddr (ds_app st) x \<and>
     (\<forall>k m b. os_find_space os k m = Some b \<longrightarrow> \<not> x - b < m))"

lemma text_span_user:
  assumes "text_bounds nap" and "text_span nap x"
  shows "NaClIsUserAddr nap x"
proof -
  let ?d = "x - text_base nap"
  have b: "unat (addr_bits nap) \<le> 30" "unat (mem_start nap) + 2 ^ unat (addr_bits nap) < 2 ^ 32"
    "dynamic_text_start nap \<le> dynamic_text_end nap" "unat (dynamic_text_end nap) \<le> 2 ^ unat (addr_bits nap)"
    using assms(1) by (simp_all add: text_bounds_def app_space_def)
  have d: "unat ?d < unat (dynamic_text_end nap) - unat (dynamic_text_start nap)"
    using assms(2) unat_sub [OF b(3)] by (simp add: text_span_def word_less_nat_alt)
  have le: "unat (dynamic_text_start nap) \<le> unat (dynamic_text_end nap)" using b(3) by (simp add: word_le_nat_alt)
  have t: "unat (text_base nap) = unat (mem_start nap) + unat (dynamic_text_start nap)"
    using unat_add_no_wrap [of "mem_start nap" "dynamic_text_start nap"] b le by simp
  have "x = text_base nap + ?d" by simp
  then have x: "unat x = unat (mem_start nap) + unat (dynamic_text_start nap) + unat ?d"
    using unat_add_no_wrap [of "text_base nap" ?d] t d le b by simp
  have "unat (mem_start nap + addr_limit nap) = unat (mem_start nap) + 2 ^ unat (addr_bits nap)"
    using unat_add_no_wrap [of "mem_start nap" "addr_limit nap"] addr_limit_eq(2) [OF b(1)] b(2) by simp
  then show ?thesis using x d b(4) by (simp add: NaClIsUserAddr_def nat_of_word)
qed

lemma not_neg_errno:
  assumes "unat a + 65536 < 2 ^ 32"
  shows "\<not> NaClPtrIsNegErrno a"
proof
  assume "NaClPtrIsNegErrno a"
  then have "a AND NOT 0xFFFF = 0xFFFF0000" by (simp add: NaClPtrIsNegErrno_def)
  moreover have "a AND NOT 0xFFFF \<le> a" by (rule word_and_le2)
  ultimately have "0xFFFF0000 \<le> a" by simp
  then have "unat (0xFFFF0000 :: u32) \<le> unat a" by (simp only: word_le_nat_alt)
  then show False using assms by simp
qed

lemma same_app_spans:
  assumes "app_core nap' = app_core nap"
  shows "text_span nap' = text_span nap" "NaClIsUserAddr nap' = NaClIsUserAddr nap" "text_bounds nap' = text_bounds nap"
  using app_core_fields [OF assms]
  by (simp_all add: text_span_def NaClIsUserAddr_def text_bounds_def app_space_def addr_limit_def fun_eq_iff)

lemma text_mapped_rewindow:
  assumes "text_bounds (ds_app st)" and "text_mapped st" and same: "same_but_maps st st'"
    and user: "\<And>x. window_span (ds_app st') x \<Longrightarrow> \<not> NaClIsUserAddr (ds_app st) x"
    and mp: "\<And>x. sp_map (ds_space st') x =
      (if window_span (ds_app st') x
       then Some (shm_h (ds_text st), dynamic_mapcache_offset (ds_app st') + (x - dynamic_mapcache_ret (ds_app st')), 3)
       else if window_span (ds_app st) x then None else sp_map (ds_space st) x)"
  shows "text_mapped st'"
proof -
  have core: "app_core (ds_app st') = app_core (ds_app st)" and h: "ds_text st' = ds_text st"
    using same by (simp_all add: same_but_maps_def)
  note f = app_core_fields [OF core] same_app_spans [OF core]
  have tu: "text_span (ds_app st) x \<Longrightarrow> \<not> window_span (ds_app st') x \<and> \<not> window_span (ds_app st) x" for x
    using text_span_user [OF assms(1)] user assms(2) by (auto simp: text_mapped_def Let_def)
  have old: "text_span (ds_app st) x \<or> window_span (ds_app st) x"
    if "sp_map (ds_space st) x = Some (shm_h (ds_text st), k, pr)" for x k pr
    using assms(2) that unfolding text_mapped_def Let_def by blast
  have tx: "sp_map (ds_space st) x = Some (shm_h (ds_text st), x - text_base (ds_app st), 5)"
    if "text_span (ds_app st) x" for x
    using assms(2) that unfolding text_mapped_def Let_def by blast
  show ?thesis
    unfolding text_mapped_def Let_def f h mp using tu user tx by (auto split: if_splits dest: old)
qed

lemma old_window_gone:
  assumes "window_fits nap" and "unmaps_succeed os"
  shows "\<exists>sp1. (if dynamic_mapcache_size nap > 0 \<and> \<not> NaClPtrIsNegErrno (dynamic_mapcache_ret nap) then
             bind_run (NaClDescImcShmUnmapUnsafe os ma (dynamic_mapcache_ret nap) (dynamic_mapcache_size nap) sp) (\<lambda>(rv, sp).
             if 0 \<noteq> rv then Some (Inl LogFatal) else Some (Inr sp))
           else Some (Inr sp)) = Some (Inr sp1) \<and>
         sp_shm sp1 = sp_shm sp \<and> (\<forall>x. sp_map sp1 x = (if window_span nap x then None else sp_map sp x))"
proof (cases "dynamic_mapcache_size nap > 0 \<and> \<not> NaClPtrIsNegErrno (dynamic_mapcache_ret nap)")
  case True
  then obtain n where n: "dynamic_mapcache_size nap = 0x10000 * of_nat n" "unat (dynamic_mapcache_ret nap) + 65536 * n < 2 ^ 32"
    using assms(1) by (auto simp: window_fits_def)
  from unmap_pages_result [OF assms(2) n(2), of ma sp] True show ?thesis
    by (auto simp: NaClDescImcShmUnmapUnsafe_def NaClDescImcShmUnmapCommon_def n(1) unmapped_over_def window_span_def)
next
  case False
  then have "\<not> window_span nap x" for x by (auto simp: window_span_def word_gt_0)
  then show ?thesis using False by auto
qed

lemma neg_errno_is: "NaClPtrIsNegErrno (neg_errno NACL_ABI_ENOMEM)"
  by (simp add: NaClPtrIsNegErrno_def neg_errno_def NACL_ABI_ENOMEM_def)

text \<open>The new window after the old one is gone.\<close>

lemma new_window:
  assumes host: "host_ok os nap" and sz: "sz = 0x10000 * of_nat n" "0 < sz" "65536 * n < 2 ^ 32" "unat off + unat sz + 65536 < 2 ^ 31"
    and run: "NaClDescImcShmMap os self (NaClDescEffectorShmUnmapMemory os) 0 sz (PROT_READ OR PROT_WRITE)
                NACL_ABI_MAP_SHARED (ucast off) sp1 = Some (Inr (ret, sp2))"
  shows "sp_shm sp2 = sp_shm sp1"
    and "NaClPtrIsNegErrno ret \<and> (\<forall>x. sp_map sp2 x = sp_map sp1 x) \<or>
         \<not> NaClPtrIsNegErrno ret \<and> (\<forall>x. x - ret < sz \<longrightarrow> \<not> NaClIsUserAddr nap x) \<and> ret AND 0xFFF = 0 \<and>
         unat ret + 65536 * n < 2 ^ 32 \<and> (\<exists>k. os_find_space os k sz = Some ret) \<and>
         (\<forall>x. sp_map sp2 x = (if x - ret < sz then Some (shm_h self, off + (x - ret), 3) else sp_map sp1 x))"
proof -
  have c: "PROT_READ OR PROT_WRITE = 3" "NACL_ABI_MAP_SHARED = 1"
    by (simp_all add: PROT_READ_def PROT_WRITE_def NACL_ABI_MAP_SHARED_def)
  have u: "unat sz = 65536 * n" unfolding sz(1) using sz(3) by (rule unat_pages)
  have both: "sp_shm sp2 = sp_shm sp1 \<and> (NaClPtrIsNegErrno ret \<and> (\<forall>x. sp_map sp2 x = sp_map sp1 x) \<or>
         \<not> NaClPtrIsNegErrno ret \<and> (\<forall>x. x - ret < sz \<longrightarrow> \<not> NaClIsUserAddr nap x) \<and> ret AND 0xFFF = 0 \<and>
         unat ret + 65536 * n < 2 ^ 32 \<and> (\<exists>k. os_find_space os k sz = Some ret) \<and>
         (\<forall>x. sp_map sp2 x = (if x - ret < sz then Some (shm_h self, off + (x - ret), 3) else sp_map sp1 x)))"
  proof (cases "os_find_space os (sp_calls sp1) sz")
    case None
    then have "ret = neg_errno NACL_ABI_ENOMEM" "sp2 = host_called sp1"
      using run ShmMap_nowhere [of 3 os sp1 sz] by (simp_all add: c)
    then show ?thesis using neg_errno_is by (simp add: host_called_def)
  next
    case (Some a)
    then have a: "unat a + unat sz + 65536 < 2 ^ 32" "a AND 0xFFF = 0" "\<forall>x. x - a < sz \<longrightarrow> \<not> NaClIsUserAddr nap x"
      using host unfolding host_ok_def by blast+
    have fits: "unat a + 65536 * n < 2 ^ 32" "unat off + 65536 * n + 65536 < 2 ^ 31" using a(1) sz(4) u by simp_all
    have fm: "fixed_maps os" "maps_succeed os" using host by (simp_all add: host_ok_def)
    obtain sp' where m: "NaClDescImcShmMap os self (NaClDescEffectorShmUnmapMemory os) 0 sz 3 1 (ucast off) sp1 = Some (Inr (a, sp'))"
      "mapped_over a sz (shm_h self) off 3 (host_called sp1) sp'"
      using ShmMap_request [OF fm(1) _ fits, of 3 1 0 "host_called sp1" sp1 self] fm(2) Some sz(1) by auto
    then have "ret = a" "sp2 = sp'" using run by (simp_all add: c)
    moreover have "\<not> NaClPtrIsNegErrno a" using a(1) by (intro not_neg_errno) simp
    ultimately show ?thesis using m(2) a fits(1) Some by (auto simp: mapped_over_def host_called_def)
  qed
  from both show "sp_shm sp2 = sp_shm sp1" ..
  from both show "NaClPtrIsNegErrno ret \<and> (\<forall>x. sp_map sp2 x = sp_map sp1 x) \<or>
         \<not> NaClPtrIsNegErrno ret \<and> (\<forall>x. x - ret < sz \<longrightarrow> \<not> NaClIsUserAddr nap x) \<and> ret AND 0xFFF = 0 \<and>
         unat ret + 65536 * n < 2 ^ 32 \<and> (\<exists>k. os_find_space os k sz = Some ret) \<and>
         (\<forall>x. sp_map sp2 x = (if x - ret < sz then Some (shm_h self, off + (x - ret), 3) else sp_map sp1 x))" by (rule conjunct2)
qed

lemma CachedMap_inv:
  assumes inv: "dyn_inv st" and host: "host_ok (de_os env) (ds_app st)"
    and run: "CachedMapWritableText env off sz st = run_ok r st'"
    and sz: "sz = 0x10000 * of_nat n" "65536 * n < 2 ^ 32" "unat off + unat sz + 65536 < 2 ^ 31"
  shows "dyn_inv st'" "r = dynamic_mapcache_ret (ds_app st')" "dynamic_mapcache_offset (ds_app st') = off"
    "dynamic_mapcache_size (ds_app st') = sz" "app_mem (ds_app st') = app_mem (ds_app st)"
    "sp_shm (ds_space st') = sp_shm (ds_space st)"
    "\<And>x. \<not> window_span (ds_app st) x \<Longrightarrow> \<not> window_span (ds_app st') x \<Longrightarrow> sp_map (ds_space st') x = sp_map (ds_space st) x"
    "\<And>x. window_span (ds_app st') x \<Longrightarrow> window_span (ds_app st) x \<or> (\<exists>k m b. os_find_space (de_os env) k m = Some b \<and> x - b < m)"
proof -
  let ?nap = "ds_app st" and ?os = "de_os env"
  have tb: "text_bounds ?nap" and wf: "window_fits ?nap" and tm: "text_mapped st"
    using inv by (simp_all add: dyn_inv_def)
  have uo: "unmaps_succeed ?os" using host by (simp add: host_ok_def)
  note same = CachedMap_same [OF run]
  then have core: "app_core (ds_app st') = app_core ?nap" by (simp add: same_but_maps_def)
  have all: "dyn_inv st' \<and> r = dynamic_mapcache_ret (ds_app st') \<and> dynamic_mapcache_offset (ds_app st') = off \<and>
    dynamic_mapcache_size (ds_app st') = sz \<and> app_mem (ds_app st') = app_mem (ds_app st) \<and>
    sp_shm (ds_space st') = sp_shm (ds_space st) \<and>
    (\<forall>x. \<not> window_span (ds_app st) x \<longrightarrow> \<not> window_span (ds_app st') x \<longrightarrow> sp_map (ds_space st') x = sp_map (ds_space st) x) \<and>
    (\<forall>x. window_span (ds_app st') x \<longrightarrow> window_span (ds_app st) x \<or> (\<exists>k m b. os_find_space ?os k m = Some b \<and> x - b < m))"
  proof (cases "off = dynamic_mapcache_offset ?nap \<and> sz = dynamic_mapcache_size ?nap")
    case True
    then have "st' = st" "r = dynamic_mapcache_ret ?nap"
      using run by (auto simp: CachedMapWritableText_def Let_def)
    with inv True show ?thesis by simp
  next
    case False
    obtain sp1 where sp1: "(if dynamic_mapcache_size ?nap > 0 \<and> \<not> NaClPtrIsNegErrno (dynamic_mapcache_ret ?nap) then
             bind_run (NaClDescImcShmUnmapUnsafe ?os NaClDescEffectorShmMapAnonymousMemory
                         (dynamic_mapcache_ret ?nap) (dynamic_mapcache_size ?nap) (ds_space st)) (\<lambda>(rv, sp).
             if 0 \<noteq> rv then Some (Inl LogFatal) else Some (Inr sp))
           else Some (Inr (ds_space st))) = Some (Inr sp1)"
      and s1: "sp_shm sp1 = sp_shm (ds_space st)"
        "\<And>x. sp_map sp1 x = (if window_span ?nap x then None else sp_map (ds_space st) x)"
      using old_window_gone [OF wf uo, of NaClDescEffectorShmMapAnonymousMemory "ds_space st"] by blast
    let ?nap1 = "?nap\<lparr>dynamic_mapcache_offset := off, dynamic_mapcache_size := sz\<rparr>"
    note run' = run [unfolded CachedMapWritableText_def Let_def]
    obtain ret sp2 where st': "st' = st\<lparr>ds_app := ?nap1\<lparr>dynamic_mapcache_ret := ret\<rparr>, ds_space := sp2\<rparr>" "r = ret"
      and sh: "sp_shm sp2 = sp_shm sp1"
      and how: "(0 = sz \<or> NaClPtrIsNegErrno ret) \<and> (\<forall>x. sp_map sp2 x = sp_map sp1 x) \<or>
         \<not> NaClPtrIsNegErrno ret \<and> (\<forall>x. x - ret < sz \<longrightarrow> \<not> NaClIsUserAddr ?nap x) \<and> ret AND 0xFFF = 0 \<and>
         unat ret + 65536 * n < 2 ^ 32 \<and> (\<exists>k. os_find_space ?os k sz = Some ret) \<and>
         (\<forall>x. sp_map sp2 x = (if x - ret < sz then Some (shm_h (ds_text st), off + (x - ret), 3) else sp_map sp1 x))"
    proof (cases "sz > 0")
      case True
      then obtain ret sp2 where
        m: "NaClDescImcShmMap ?os (ds_text st) (NaClDescEffectorShmUnmapMemory ?os) 0 sz (PROT_READ OR PROT_WRITE)
              NACL_ABI_MAP_SHARED (ucast off) sp1 = Some (Inr (ret, sp2))"
        and e: "st' = st\<lparr>ds_app := ?nap1\<lparr>dynamic_mapcache_ret := ret\<rparr>, ds_space := sp2\<rparr>" "r = ret"
        using run' False unfolding sp1 by (auto simp: bind_run_Inr split: if_splits)
      show ?thesis using that [OF e] new_window [OF host sz(1) True sz(2,3) m] by blast
    next
      case no: False
      then have "st' = st\<lparr>ds_app := ?nap1\<lparr>dynamic_mapcache_ret := 0\<rparr>, ds_space := sp1\<rparr>" "r = 0"
        using run' False unfolding sp1 by (auto split: if_splits)
      moreover have "sz = 0" using no by (simp add: word_gt_0)
      ultimately show ?thesis using that [of sp1 0] by simp
    qed
    have w: "window_span (ds_app st') x \<longleftrightarrow> \<not> NaClPtrIsNegErrno ret \<and> x - ret < sz" for x
      by (simp add: st' window_span_def)
    have mp: "sp_map sp2 x = (if window_span (ds_app st') x then Some (shm_h (ds_text st), off + (x - ret), 3)
        else if window_span ?nap x then None else sp_map (ds_space st) x)" for x
      using how s1(2) w by auto
    have user: "window_span (ds_app st') x \<Longrightarrow> \<not> NaClIsUserAddr ?nap x" for x using how w by auto
    have "text_mapped st'"
      by (rule text_mapped_rewindow [OF tb tm same user]) (simp_all add: st' mp)
    moreover have "window_fits (ds_app st')" using how sz(1) by (auto simp: st' window_fits_def)
    moreover have "text_bounds (ds_app st')" using tb same_app_spans(3) [OF core] by simp
    ultimately have "dyn_inv st'" by (simp add: dyn_inv_def)
    moreover have "sp_map (ds_space st') x = sp_map (ds_space st) x"
      if "\<not> window_span ?nap x" "\<not> window_span (ds_app st') x" for x
      using that mp [of x] by (simp add: st')
    moreover have "\<exists>k m b. os_find_space ?os k m = Some b \<and> x - b < m" if "window_span (ds_app st') x" for x
      using how that w by auto
    ultimately show ?thesis using sh s1(1) by (auto simp: st')
  qed
  then show "dyn_inv st'" "r = dynamic_mapcache_ret (ds_app st')" "dynamic_mapcache_offset (ds_app st') = off"
    "dynamic_mapcache_size (ds_app st') = sz" "app_mem (ds_app st') = app_mem (ds_app st)"
    "sp_shm (ds_space st') = sp_shm (ds_space st)"
    "\<And>x. \<not> window_span (ds_app st) x \<Longrightarrow> \<not> window_span (ds_app st') x \<Longrightarrow> sp_map (ds_space st') x = sp_map (ds_space st) x"
    "\<And>x. window_span (ds_app st') x \<Longrightarrow> window_span (ds_app st) x \<or> (\<exists>k m b. os_find_space (de_os env) k m = Some b \<and> x - b < m)"
    by blast+
qed

section \<open>Writing through the window\<close>

lemma low_bits: "w AND 0xFFFF = w AND mask 16" for w :: u32
  by (simp add: mask_eq_exp_minus_1)

lemma page_mask: "NACL_MAP_PAGESIZE - 1 = mask 16"
  by (simp add: mask_eq_exp_minus_1)

lemma map_arith:
  assumes d_def: "d = unat (dest - dynamic_text_start nap)" and "d + unat sz + 131072 < 2 ^ 31"
  shows "unat (map_offset nap dest) = d - d mod 65536"
    and "map_size nap dest sz = 0x10000 * of_nat ((d + unat sz + 65535) div 65536 - d div 65536)"
    and "65536 * ((d + unat sz + 65535) div 65536 - d div 65536) < 2 ^ 31"
    and "d mod 65536 + unat sz \<le> 65536 * ((d + unat sz + 65535) div 65536 - d div 65536)"
    and "unat ((dest - dynamic_text_start nap) AND 0xFFFF) = d mod 65536"
    and "map_offset nap dest + ((dest - dynamic_text_start nap) AND 0xFFFF) = dest - dynamic_text_start nap"
    and "unat (map_offset nap dest) + unat (map_size nap dest sz) + 65536 < 2 ^ 31"
proof -
  let ?o = "dest - dynamic_text_start nap" and ?q = "(d + unat sz + 65535) div 65536" and ?p = "d div 65536"
  have mo: "map_offset nap dest = ?o AND NOT (mask 16)" unfolding map_offset_def page_mask ..
  show off: "unat (map_offset nap dest) = d - d mod 65536" unfolding mo d_def by (simp add: unat_and_not_mask)
  have dp: "d - d mod 65536 = 65536 * ?p" by (simp add: minus_mod_eq_mult_div)
  have "unat (?o + sz) = d + unat sz" unfolding d_def
    using assms by (intro unat_add_no_wrap) simp
  then have "unat (?o + sz + 0xFFFF) = d + unat sz + 65535"
    using assms unat_add_no_wrap [of "?o + sz" "0xFFFF"] by simp
  moreover have e: "?o + sz + 0x10000 - 1 = ?o + sz + 0xFFFF" by simp
  ultimately have "unat ((?o + sz + 0x10000 - 1) AND NOT (mask 16)) = 65536 * ?q"
    unfolding e by (simp add: unat_and_not_mask minus_mod_eq_mult_div)
  then have hi: "(?o + sz + 0x10000 - 1) AND NOT (mask 16) = of_nat (65536 * ?q)"
    by (metis of_nat_unat ucast_id)
  have lo: "map_offset nap dest = of_nat (65536 * ?p)"
    using off dp by (metis of_nat_unat ucast_id)
  have le: "?p \<le> ?q" by (intro div_le_mono) simp
  then have "of_nat (65536 * ?q) - of_nat (65536 * ?p) = (of_nat (65536 * (?q - ?p)) :: u32)"
    by (simp add: of_nat_diff diff_mult_distrib2)
  then show size: "map_size nap dest sz = 0x10000 * of_nat (?q - ?p)"
    using hi lo unfolding map_size_def page_mask by simp
  show small: "65536 * (?q - ?p) < 2 ^ 31"
  proof -
    have "65536 * (?q - ?p) \<le> 65536 * ?q" by simp
    also have "\<dots> \<le> d + unat sz + 65535" by (rule times_div_less_eq_dividend)
    finally show ?thesis using assms by simp
  qed
  have "d + unat sz \<le> 65536 * ?q"
    using dividend_less_times_div [of 65536 "d + unat sz + 65535"] by simp
  moreover have "65536 * ?p + d mod 65536 = d" by (rule mult_div_mod_eq)
  ultimately show "d mod 65536 + unat sz \<le> 65536 * (?q - ?p)"
    unfolding diff_mult_distrib2 by linarith
  show "unat (?o AND 0xFFFF) = d mod 65536" unfolding low_bits d_def by (simp add: unat_and_mask_mod)
  show "map_offset nap dest + (?o AND 0xFFFF) = ?o"
    unfolding mo low_bits by (simp add: word_and_not_mask)
  have "unat (map_size nap dest sz) = 65536 * (?q - ?p)" unfolding size using small by (intro unat_pages) simp
  then show "unat (map_offset nap dest) + unat (map_size nap dest sz) + 65536 < 2 ^ 31"
    using off dp le assms(2) times_div_less_eq_dividend [of 65536 "d + unat sz + 65535"]
    unfolding diff_mult_distrib2 by linarith
qed

text \<open>A range inside the dynamic text.\<close>

definition in_text :: "NaClApp \<Rightarrow> u32 \<Rightarrow> u32 \<Rightarrow> bool" where
  "in_text nap dest sz \<longleftrightarrow> dynamic_text_start nap \<le> dest \<and> unat dest + unat sz \<le> unat (dynamic_text_end nap)"

lemma in_text_small:
  assumes "text_bounds nap" and "in_text nap dest sz"
  shows "unat (dest - dynamic_text_start nap) = unat dest - unat (dynamic_text_start nap)"
    and "unat (dest - dynamic_text_start nap) + unat sz + 131072 < 2 ^ 31"
proof -
  have b: "dynamic_text_start nap \<le> dest" "unat dest + unat sz \<le> unat (dynamic_text_end nap)"
    "unat (dynamic_text_end nap) \<le> 2 ^ unat (addr_bits nap)" "unat (addr_bits nap) \<le> 30"
    using assms by (simp_all add: in_text_def text_bounds_def app_space_def)
  have "(2 :: nat) ^ unat (addr_bits nap) \<le> 2 ^ 30" using b(4) by (intro power_increasing) simp_all
  moreover show u: "unat (dest - dynamic_text_start nap) = unat dest - unat (dynamic_text_start nap)"
    using b(1) by (rule unat_sub)
  ultimately show "unat (dest - dynamic_text_start nap) + unat sz + 131072 < 2 ^ 31"
    using b(2,3) by simp
qed

text \<open>The state after a successful \<open>NaclTextMapWrapper\<close>: the window covers the range, which starts at \<open>a\<close>.\<close>

definition window_at :: "dyn_state \<Rightarrow> u32 \<Rightarrow> u32 \<Rightarrow> uintptr_t \<Rightarrow> bool" where
  "window_at st dest sz a \<longleftrightarrow>
     dynamic_mapcache_offset (ds_app st) + (a - dynamic_mapcache_ret (ds_app st)) = dest - dynamic_text_start (ds_app st) \<and>
     unat (a - dynamic_mapcache_ret (ds_app st)) + unat sz \<le> unat (dynamic_mapcache_size (ds_app st)) \<and>
     \<not> NaClPtrIsNegErrno (dynamic_mapcache_ret (ds_app st)) \<and>
     unat a mod 32 = unat (dest - dynamic_text_start (ds_app st)) mod 32 \<and> unat a + unat sz < 2 ^ 32"

lemma MapWrapper_inv:
  assumes inv: "dyn_inv st" and host: "host_ok (de_os env) (ds_app st)" and rng: "in_text (ds_app st) dest sz"
    and pos: "0 < unat sz" and run: "NaclTextMapWrapper env dest sz st = run_ok r st'"
  shows "dyn_inv st'" "app_mem (ds_app st') = app_mem (ds_app st)" "sp_shm (ds_space st') = sp_shm (ds_space st)"
    "\<And>x. \<not> window_span (ds_app st) x \<Longrightarrow> \<not> window_span (ds_app st') x \<Longrightarrow> sp_map (ds_space st') x = sp_map (ds_space st) x"
    "\<And>x. window_span (ds_app st') x \<Longrightarrow> window_span (ds_app st) x \<or> (\<exists>k m b. os_find_space (de_os env) k m = Some b \<and> x - b < m)"
    "\<And>a. r = Some a \<Longrightarrow> window_at st' dest sz a"
proof -
  let ?nap = "ds_app st"
  have tb: "text_bounds ?nap" using inv by (simp add: dyn_inv_def)
  note d = in_text_small [OF tb rng]
  note ar = map_arith [OF refl d(2)]
  let ?n = "(unat (dest - dynamic_text_start ?nap) + unat sz + 65535) div 65536 - unat (dest - dynamic_text_start ?nap) div 65536"
  obtain ret where c: "CachedMapWritableText env (map_offset ?nap dest) (map_size ?nap dest sz) st = run_ok ret st'"
    and r: "r = (if NaClPtrIsNegErrno ret then None else Some (ret + ((dest - dynamic_text_start ?nap) AND 0xFFFF)))"
    using run by (auto simp: NaclTextMapWrapper_def Let_def bind_run_Inr split: if_splits)
  have big: "65536 * ?n < 2 ^ 32" using ar(3) by simp
  note inv' = CachedMap_inv [OF inv host c ar(2) big ar(7)]
  show "dyn_inv st'" "app_mem (ds_app st') = app_mem ?nap" "sp_shm (ds_space st') = sp_shm (ds_space st)"
    "\<And>x. \<not> window_span ?nap x \<Longrightarrow> \<not> window_span (ds_app st') x \<Longrightarrow> sp_map (ds_space st') x = sp_map (ds_space st) x"
    "\<And>x. window_span (ds_app st') x \<Longrightarrow> window_span ?nap x \<or> (\<exists>k m b. os_find_space (de_os env) k m = Some b \<and> x - b < m)"
    using inv' by blast+
  fix a assume a: "r = Some a"
  then have neg: "\<not> NaClPtrIsNegErrno ret" and aeq: "a = ret + ((dest - dynamic_text_start ?nap) AND 0xFFFF)"
    using r by (simp_all split: if_splits)
  let ?w = "(dest - dynamic_text_start ?nap) AND 0xFFFF"
  have start: "dynamic_text_start (ds_app st') = dynamic_text_start ?nap"
    by (rule app_core_fields(4)) (use CachedMap_same [OF c] in \<open>simp add: same_but_maps_def\<close>)
  have usz: "unat (map_size ?nap dest sz) = 65536 * ?n" unfolding ar(2) using big by (rule unat_pages)
  have "unat (map_size ?nap dest sz) > 0" unfolding usz using ar(4) pos by linarith
  then have "map_size ?nap dest sz \<noteq> 0" by auto
  then obtain n where n: "map_size ?nap dest sz = 0x10000 * of_nat n" "unat ret + 65536 * n < 2 ^ 32" "ret AND 0xFFF = 0"
    using inv'(1,2,4) neg by (auto simp: dyn_inv_def window_fits_def)
  have "unat (map_size ?nap dest sz) = 65536 * n" unfolding n(1) using n(2) by (intro unat_pages) simp
  then have nn: "65536 * n = 65536 * ?n" using usz by simp
  have low: "unat ((dest - dynamic_text_start ?nap) AND 0xFFFF) + unat sz \<le> 65536 * ?n" using ar(4,5) by simp
  have "unat ret + unat ?w < 2 ^ 32" using low n(2) nn by linarith
  then have "unat a = unat ret + unat ?w" unfolding aeq by (intro unat_add_no_wrap) simp
  then show "window_at st' dest sz a"
    unfolding window_at_def start inv'(3,4) inv'(2) [symmetric] usz
  proof (intro conjI)
    have "a - ret = ?w" unfolding aeq by simp
    then show "map_offset ?nap dest + (a - ret) = dest - dynamic_text_start ?nap" "unat (a - ret) + unat sz \<le> 65536 * ?n"
      using ar(6) low by simp_all
    show "\<not> NaClPtrIsNegErrno ret" using neg .
    have "(0xFFF :: u32) = mask 12" by (simp add: mask_eq_exp_minus_1)
    then have "unat ret mod 4096 = 0" using n(3) unat_and_mask_mod [of ret 12] by simp
    then have "unat ret mod 32 = 0" using mod_mod_cancel [of 32 4096 "unat ret"] by simp
    then have "unat a mod 32 = unat ?w mod 32"
      using \<open>unat a = unat ret + unat ?w\<close> by (metis add_0 mod_add_left_eq)
    then show "unat a mod 32 = unat (dest - dynamic_text_start ?nap) mod 32"
      using ar(5) by (simp add: mod_mod_cancel)
    show "unat a + unat sz < 2 ^ 32" using \<open>unat a = unat ret + unat ?w\<close> low n(2) nn by linarith
  qed
qed

lemma window_span_at:
  assumes "window_at st dest sz a" and "x - a < sz"
  shows "window_span (ds_app st) x" "x - dynamic_mapcache_ret (ds_app st) < dynamic_mapcache_size (ds_app st)"
proof -
  let ?r = "dynamic_mapcache_ret (ds_app st)" and ?s = "dynamic_mapcache_size (ds_app st)"
  have w: "unat (a - ?r) + unat sz \<le> unat ?s" "\<not> NaClPtrIsNegErrno ?r" using assms(1) by (simp_all add: window_at_def)
  have lt: "unat (x - a) < unat sz" using assms(2) by (simp add: word_less_nat_alt)
  have "unat (x - a) + unat (a - ?r) < 2 ^ 32" using lt w(1) unat_lt_size_t [of ?s] by simp
  then have "unat (x - a + (a - ?r)) = unat (x - a) + unat (a - ?r)" by (intro unat_add_no_wrap) simp
  then have "unat (x - ?r) = unat (x - a) + unat (a - ?r)" by simp
  then show lt': "x - ?r < ?s" using lt w(1) by (simp add: word_less_nat_alt)
  then show "window_span (ds_app st) x" using w(2) by (simp add: window_span_def)
qed

lemma in_text_span:
  assumes "text_bounds nap" and "in_text nap dest sz" and "x - (mem_start nap + dest) < sz"
  shows "text_span nap x"
proof -
  let ?d = "dest - dynamic_text_start nap" and ?e = "x - (mem_start nap + dest)"
  have b: "dynamic_text_start nap \<le> dynamic_text_end nap" "dynamic_text_start nap \<le> dest"
    "unat dest + unat sz \<le> unat (dynamic_text_end nap)"
    using assms(1,2) by (simp_all add: text_bounds_def in_text_def)
  have s: "unat ?d = unat dest - unat (dynamic_text_start nap)" using in_text_small(1) [OF assms(1,2)] .
  have e: "unat ?e < unat sz" using assms(3) by (simp add: word_less_nat_alt)
  have "unat ?e + unat ?d < 2 ^ 32" using e s in_text_small(2) [OF assms(1,2)] by simp
  then have "unat (?e + ?d) = unat ?e + unat ?d" by (intro unat_add_no_wrap) simp
  moreover have "?e + ?d = x - text_base nap" by simp
  ultimately have "unat (x - text_base nap) = unat ?e + unat ?d" by simp
  then show ?thesis
    using e s b unat_sub [OF b(1)] unfolding text_span_def word_less_nat_alt word_le_nat_alt by simp
qed

lemma write_text_inv:
  assumes "dyn_inv st"
  shows "dyn_inv (write_text m st)"
proof -
  have "text_bounds (ds_app (write_text m st)) = text_bounds (ds_app st)"
    by (rule same_app_spans(3)) (use write_text_same [of st m] in \<open>simp add: same_but_maps_def\<close>)
  then show ?thesis
    using assms
    by (simp add: dyn_inv_def write_text_def Let_def set_private_def set_window_def text_mapped_def window_fits_def
        text_span_def window_span_def NaClIsUserAddr_def addr_limit_def)
qed

lemma proc_mem_Some: "sp_map (ds_space st) x = Some (h, k, pr) \<Longrightarrow> proc_mem st x = sp_shm (ds_space st) h k"
  by (simp add: proc_mem_def view_def)

lemma proc_mem_None: "sp_map (ds_space st) x = None \<Longrightarrow> proc_mem st x = app_mem (ds_app st) x"
  by (simp add: proc_mem_def view_def)

lemma write_text_maps: "sp_map (ds_space (write_text m st)) = sp_map (ds_space st)"
  by (simp add: write_text_def Let_def set_private_def set_window_def)

lemma write_text_view:
  assumes inv: "dyn_inv st" and win: "window_at st dest sz a" and rng: "in_text (ds_app st) dest sz"
    and m: "\<And>x. m x = (if x - a < sz then v (x - a) else proc_mem st x)"
    and user: "NaClIsUserAddr (ds_app st) x"
  shows "proc_mem (write_text m st) x =
           (if x - (mem_start (ds_app st) + dest) < sz then v (x - (mem_start (ds_app st) + dest)) else proc_mem st x)"
proof -
  let ?nap = "ds_app st" and ?h = "shm_h (ds_text st)" and ?mp = "sp_map (ds_space st)"
  let ?r = "dynamic_mapcache_ret ?nap" and ?o = "dynamic_mapcache_offset ?nap" and ?s = "dynamic_mapcache_size ?nap"
  let ?e = "x - (mem_start ?nap + dest)"
  have tb: "text_bounds ?nap" using inv by (simp add: dyn_inv_def)
  have tm: "\<And>x. text_span ?nap x \<Longrightarrow> ?mp x = Some (?h, x - text_base ?nap, 5)"
    "\<And>x. window_span ?nap x \<Longrightarrow> ?mp x = Some (?h, ?o + (x - ?r), 3) \<and> \<not> NaClIsUserAddr ?nap x"
    "\<And>x k pr. ?mp x = Some (?h, k, pr) \<Longrightarrow> text_span ?nap x \<or> window_span ?nap x"
    using inv unfolding dyn_inv_def text_mapped_def Let_def by blast+
  have nw: "\<not> window_span ?nap x" using user tm(2) by blast
  have at: "?o + (a - ?r) = dest - dynamic_text_start ?nap" "\<not> NaClPtrIsNegErrno ?r"
    using win by (simp_all add: window_at_def)
  have out: "\<not> x - a < sz" using nw window_span_at(1) [OF win] by blast
  show ?thesis
  proof (cases "text_span ?nap x")
    case True
    let ?k = "x - text_base ?nap"
    let ?y = "?r + (?k - ?o)"
    note px = proc_mem_Some [OF tm(1) [OF True]]
    have px': "proc_mem (write_text m st) x = sp_shm (ds_space (write_text m st)) ?h ?k"
      by (rule proc_mem_Some) (simp add: write_text_maps tm(1) [OF True])
    have ya: "?y - a = ?e"
    proof -
      have "?y - a = ?k - (?o + (a - ?r))" by simp
      then show ?thesis unfolding at by simp
    qed
    show ?thesis
    proof (cases "?k - ?o < ?s")
      case True
      then have w: "window_span ?nap ?y" using at(2) by (simp add: window_span_def)
      have "?mp ?y = Some (?h, ?k, 3)" using tm(2) [OF w] by simp
      then have "proc_mem (write_text m st) x = m ?y" and py: "proc_mem st ?y = proc_mem st x"
        using True px proc_mem_Some unfolding px'
        by (simp_all add: write_text_def Let_def set_window_def)
      then show ?thesis unfolding m [of ?y] ya py by (simp only:)
    next
      case False
      have "\<not> ?e < sz"
      proof
        assume "?e < sz"
        then have "?y - a < sz" unfolding ya .
        from window_span_at(2) [OF win this] have "?k - ?o < ?s" by simp
        then show False using False by blast
      qed
      moreover have "proc_mem (write_text m st) x = proc_mem st x"
        using False unfolding px px' by (simp add: write_text_def Let_def set_window_def)
      ultimately show ?thesis by simp
    qed
  next
    case False
    then have ne: "\<not> ?e < sz" using in_text_span [OF tb rng] by blast
    show ?thesis
    proof (cases "?mp x")
      case None
      have "proc_mem (write_text m st) x = app_mem (ds_app (write_text m st)) x"
        by (rule proc_mem_None) (simp add: write_text_maps None)
      also have "\<dots> = m x" by (simp add: write_text_def Let_def set_private_def None)
      finally show ?thesis using ne m [of x] out by simp
    next
      case (Some v)
      obtain h k pr where v: "v = (h, k, pr)" by (cases v)
      have "h \<noteq> ?h" using Some v tm(3) False nw by blast
      then have "sp_shm (ds_space (write_text m st)) h = sp_shm (ds_space st) h"
        by (simp add: write_text_def Let_def set_window_def)
      then show ?thesis
        using ne proc_mem_Some [of "write_text m st" x h k pr] proc_mem_Some [of st x h k pr] Some v
        by (simp add: write_text_maps)
    qed
  qed
qed

section \<open>Installing new code\<close>

lemma mem_copy_at: "mem_write m a (mem_read m b (unat n)) x = (if x - a < n then m (b + (x - a)) else m x)"
  by (simp add: mem_write_def word_less_nat_alt)

lemma copy_in_own:
  assumes "\<And>x. x - dst < n \<Longrightarrow> sp_map (ds_space st) x = None"
  shows "proc_mem (copy_in dst src n st) x = (if x - dst < n then proc_mem st (src + (x - dst)) else proc_mem st x)"
proof (cases "sp_map (ds_space st) x")
  case None
  then show ?thesis
    by (simp add: copy_in_def proc_mem_def view_def set_private_def Let_def mem_copy_at)
next
  case (Some v)
  then have "\<not> x - dst < n" using assms by auto
  then show ?thesis using Some by (simp add: copy_in_def proc_mem_def view_def set_private_def Let_def)
qed

lemma set_private_view:
  "proc_mem (set_private m st) x = (if sp_map (ds_space st) x = None then m x else proc_mem st x)"
  by (auto simp: proc_mem_def view_def set_private_def Let_def split: option.splits)

lemma proc_mem_cong:
  assumes "app_mem (ds_app st') = app_mem (ds_app st)" and "sp_shm (ds_space st') = sp_shm (ds_space st)"
    and "sp_map (ds_space st') x = sp_map (ds_space st) x"
  shows "proc_mem st' x = proc_mem st x"
  unfolding proc_mem_def view_def assms ..

lemma window_not_user:
  assumes "dyn_inv st" and "window_span (ds_app st) x"
  shows "\<not> NaClIsUserAddr (ds_app st) x" "sp_map (ds_space st) x \<noteq> None"
  using assms unfolding dyn_inv_def text_mapped_def Let_def by auto

lemma ClearCache_inv:
  assumes inv: "dyn_inv st" and host: "host_ok (de_os env) (ds_app st)"
    and run: "NaclTextMapClearCacheIfNeeded env dest sz st = Some (Inr st')"
  shows "dyn_inv st'" "NaClIsUserAddr (ds_app st) x \<Longrightarrow> proc_mem st' x = proc_mem st x"
proof -
  have both: "dyn_inv st' \<and> (NaClIsUserAddr (ds_app st) x \<longrightarrow> proc_mem st' x = proc_mem st x)"
  proof (cases "map_size (ds_app st) dest sz > NACL_MAP_PAGESIZE")
    case True
    then obtain r where c: "CachedMapWritableText env 0 0 st = run_ok r st'"
      using run by (auto simp: NaclTextMapClearCacheIfNeeded_def bind_run_Inr)
    have z: "(0 :: u32) = 0x10000 * of_nat 0" "65536 * (0 :: nat) < 2 ^ 32" "unat (0 :: u32) + unat (0 :: u32) + 65536 < 2 ^ 31"
      by simp_all
    note i = CachedMap_inv [OF inv host c z]
    have core: "app_core (ds_app st') = app_core (ds_app st)" using CachedMap_same [OF c] by (simp add: same_but_maps_def)
    have "proc_mem st' x = proc_mem st x" if u: "NaClIsUserAddr (ds_app st) x"
    proof -
      have "\<not> window_span (ds_app st) x" using window_not_user(1) [OF inv] u by blast
      moreover have "\<not> window_span (ds_app st') x"
        using window_not_user(1) [OF i(1)] u same_app_spans(2) [OF core] by auto
      ultimately show ?thesis using i(5,6,7) by (intro proc_mem_cong) auto
    qed
    with i(1) show ?thesis by blast
  next
    case False
    then show ?thesis using run inv by (simp add: NaclTextMapClearCacheIfNeeded_def)
  qed
  from both show "dyn_inv st'" ..
  from both show "proc_mem st' x = proc_mem st x" if "NaClIsUserAddr (ds_app st) x" using that by blast
qed

lemma aligned_mod:
  fixes w :: u32
  assumes "b = 16 \<or> b = 32"
  shows "w AND (b - 1) = 0 \<longleftrightarrow> unat w mod unat b = 0"
proof -
  have "(15 :: u32) = mask 4" "(31 :: u32) = mask 5" by (simp_all add: mask_eq_exp_minus_1)
  then show ?thesis
    using assms unat_and_mask_mod [of w 4] unat_and_mask_mod [of w 5] by (auto simp flip: unat_eq_zero)
qed

lemma own_block_kept:
  assumes inv: "dyn_inv st" and host: "host_ok (de_os env) (ds_app st)" and rng: "in_text (ds_app st) dest sz"
    and pos: "0 < unat sz" and run: "NaclTextMapWrapper env dest sz st = run_ok r st'"
    and own: "own_block (de_os env) st code n" and x: "x - code < n"
  shows "\<not> window_span (ds_app st') x" "proc_mem st' x = proc_mem st x"
proof -
  note w = MapWrapper_inv [OF inv host rng pos run]
  have o: "sp_map (ds_space st) x = None" "\<And>k m b. os_find_space (de_os env) k m = Some b \<Longrightarrow> \<not> x - b < m"
    using own x unfolding own_block_def by blast+
  have old: "\<not> window_span (ds_app st) x" using window_not_user(2) [OF inv] o(1) by blast
  show new: "\<not> window_span (ds_app st') x" using w(5) old o(2) by blast
  show "proc_mem st' x = proc_mem st x" using w(2,3) w(4) [OF old new] by (rule proc_mem_cong)
qed

lemma user_view_kept:
  assumes inv: "dyn_inv st" and host: "host_ok (de_os env) (ds_app st)" and rng: "in_text (ds_app st) dest sz"
    and pos: "0 < unat sz" and run: "NaclTextMapWrapper env dest sz st = run_ok r st'"
    and x: "NaClIsUserAddr (ds_app st) x"
  shows "proc_mem st' x = proc_mem st x"
proof -
  note w = MapWrapper_inv [OF inv host rng pos run]
  have core: "app_core (ds_app st') = app_core (ds_app st)" using MapWrapper_same [OF run] by (simp add: same_but_maps_def)
  have old: "\<not> window_span (ds_app st) x" using window_not_user(1) [OF inv] x by blast
  have new: "\<not> window_span (ds_app st') x"
    using window_not_user(1) [OF w(1)] x same_app_spans(2) [OF core] by auto
  show ?thesis using w(2,3) w(4) [OF old new] by (rule proc_mem_cong)
qed

text \<open>Where the code of an application may lie.\<close>

definition code_layout :: "NaClApp \<Rightarrow> bool" where
  "code_layout nap \<longleftrightarrow> (bundle_size nap = 16 \<or> bundle_size nap = 32) \<and> unat (dynamic_text_start nap) mod 65536 = 0 \<and>
     NACL_TRAMPOLINE_END \<le> dynamic_text_start nap"

lemma window_bundled:
  assumes win: "window_at st dest sz a" and lay: "code_layout (ds_app st)" and rng: "in_text (ds_app st) dest sz"
    and al: "dest AND (bundle_size (ds_app st) - 1) = 0" "sz AND (bundle_size (ds_app st) - 1) = 0"
  shows "bundled a sz (bundle_size (ds_app st))"
proof -
  let ?b = "bundle_size (ds_app st)" and ?s = "dynamic_text_start (ds_app st)"
  have b: "?b = 16 \<or> ?b = 32" and s: "unat ?s mod 65536 = 0" using lay by (simp_all add: code_layout_def)
  have le: "?s \<le> dest" using rng by (simp add: in_text_def)
  have dv: "unat ?b dvd 32" "unat ?b dvd 65536" using b by auto
  have "unat ?b dvd unat ?s" using s dv(2) by (meson dvd_eq_mod_eq_0 dvd_trans)
  moreover have "unat ?b dvd unat dest" using al(1) aligned_mod [OF b] by (simp add: dvd_eq_mod_eq_0)
  ultimately have "unat ?b dvd unat (dest - ?s)" using le by (simp add: unat_sub dvd_diff_nat)
  then have "unat ?b dvd unat (dest - ?s) mod 32" using dv(1) by (simp add: dvd_mod)
  then have "unat ?b dvd unat a mod 32" using win by (simp add: window_at_def)
  then have "unat ?b dvd unat a" using dv(1) by (simp add: dvd_mod_iff)
  then have "a AND (?b - 1) = 0" using aligned_mod [OF b] by (simp add: dvd_eq_mod_eq_0)
  then show ?thesis using b al(2) win by (simp add: bundled_def window_at_def)
qed

lemma mapped_bundled:
  assumes inv: "dyn_inv st" and host: "host_ok (de_os env) (ds_app st)" and lay: "code_layout (ds_app st)"
    and rng: "in_text (ds_app st) dest sz" and pos: "0 < unat sz"
    and al: "dest AND (bundle_size (ds_app st) - 1) = 0" "sz AND (bundle_size (ds_app st) - 1) = 0"
    and wrap: "NaclTextMapWrapper env dest sz st = run_ok (Some a) st1"
  shows "bundled a sz (bundle_size (ds_app st1))"
proof -
  note win = MapWrapper_inv(6) [OF inv host rng pos wrap refl]
  have core: "app_core (ds_app st1) = app_core (ds_app st)" using MapWrapper_same [OF wrap] by (simp add: same_but_maps_def)
  note f = app_core_fields [OF core]
  have "code_layout (ds_app st1)" and "in_text (ds_app st1) dest sz"
    using lay rng f by (simp_all add: code_layout_def in_text_def)
  then show ?thesis using window_bundled [OF win] al f(3) by simp
qed

lemma mapped_apart:
  assumes inv: "dyn_inv st" and host: "host_ok (de_os env) (ds_app st)" and own: "own_block (de_os env) st code sz"
    and rng: "in_text (ds_app st) dest sz" and pos: "0 < unat sz"
    and wrap: "NaclTextMapWrapper env dest sz st = run_ok (Some a) st1"
  shows "no_overlap a code (unat sz)"
  unfolding no_overlap_def
proof (intro allI impI notI)
  note win = MapWrapper_inv(6) [OF inv host rng pos wrap refl]
  fix i j assume i: "i < unat sz" and j: "j < unat sz" and eq: "a + of_nat i = code + (of_nat j :: uintptr_t)"
  have "unat (of_nat i :: u32) = i" "unat (of_nat j :: u32) = j"
    using i j unat_lt_size_t [of sz] by (simp_all only: unat_of_nat) simp_all
  then have "a + of_nat i - a < sz" "code + of_nat j - code < sz" using i j by (simp_all add: word_less_nat_alt)
  then have "a + of_nat i - a < sz" "a + of_nat i - code < sz" by (simp_all only: eq)
  then show False
    using window_span_at(1) [OF win] own_block_kept(1) [OF inv host rng pos wrap own] by blast
qed

text \<open>Mapping the text, writing \<open>v\<close> to the window and clearing the cache shows the program \<open>v\<close>.\<close>

lemma window_step:
  assumes inv: "dyn_inv st" and host: "host_ok (de_os env) (ds_app st)" and rng: "in_text (ds_app st) dest sz" and pos: "0 < unat sz"
    and wrap: "NaclTextMapWrapper env dest sz st = run_ok (Some a) st1"
    and m: "\<And>y. m y = (if y - a < sz then v (y - a) else proc_mem st1 y)"
    and clear: "NaclTextMapClearCacheIfNeeded env dest sz (write_text m st1) = Some (Inr st')"
  shows "dyn_inv st'" "same_but_maps st st'"
    "NaClIsUserAddr (ds_app st) x \<Longrightarrow> proc_mem st' x =
       (if x - (mem_start (ds_app st) + dest) < sz then v (x - (mem_start (ds_app st) + dest)) else proc_mem st x)"
proof -
  note w = MapWrapper_inv [OF inv host rng pos wrap]
  have core: "app_core (ds_app st1) = app_core (ds_app st)" using MapWrapper_same [OF wrap] by (simp add: same_but_maps_def)
  note f = app_core_fields [OF core] same_app_spans [OF core]
  have rng1: "in_text (ds_app st1) dest sz" using rng f by (simp add: in_text_def)
  note inv2 = write_text_inv [OF w(1), of m]
  have core2: "app_core (ds_app (write_text m st1)) = app_core (ds_app st)"
    using write_text_same [of st1 m] core by (simp add: same_but_maps_def)
  have host2: "host_ok (de_os env) (ds_app (write_text m st1))"
    using host same_app_spans(2) [OF core2] by (simp add: host_ok_def)
  note c = ClearCache_inv [OF inv2 host2 clear]
  show "dyn_inv st'" by (rule c(1))
  show "same_but_maps st st'"
    using MapWrapper_same [OF wrap] write_text_same [of st1 m] ClearCache_same [OF clear] same_but_maps_trans by blast
  assume u: "NaClIsUserAddr (ds_app st) x"
  then have u1: "NaClIsUserAddr (ds_app st1) x" using f(14) by simp
  have "proc_mem st' x = proc_mem (write_text m st1) x"
    using u same_app_spans(2) [OF core2] by (intro c(2)) simp
  also have "\<dots> = (if x - (mem_start (ds_app st) + dest) < sz then v (x - (mem_start (ds_app st) + dest)) else proc_mem st1 x)"
    using write_text_view [where v = v, OF w(1) w(6) [OF refl] rng1 m u1] f(2) by simp
  finally show "proc_mem st' x = (if x - (mem_start (ds_app st) + dest) < sz
      then v (x - (mem_start (ds_app st) + dest)) else proc_mem st x)"
    using user_view_kept [OF inv host rng pos wrap u] by simp
qed

lemma install_step:
  assumes inv: "dyn_inv st" and host: "host_ok (de_os env) (ds_app st)" and lay: "code_layout (ds_app st)"
    and own: "own_block (de_os env) st code sz" and rng: "in_text (ds_app st) dest sz" and pos: "0 < unat sz"
    and al: "dest AND (bundle_size (ds_app st) - 1) = 0" "sz AND (bundle_size (ds_app st) - 1) = 0"
    and wrap: "NaclTextMapWrapper env dest sz st = run_ok (Some a) st1"
    and copy: "CopyCodeSafelyInitial a code sz (bundle_size (ds_app st1)) (proc_mem st1, []) = Some (Inr (m, es))"
    and clear: "NaclTextMapClearCacheIfNeeded env dest sz (write_text m st1) = Some (Inr st')"
  shows "dyn_inv st'" "same_but_maps st st'"
    "NaClIsUserAddr (ds_app st) x \<Longrightarrow> proc_mem st' x =
       (if x - (mem_start (ds_app st) + dest) < sz then proc_mem st (code + (x - (mem_start (ds_app st) + dest)))
        else proc_mem st x)"
proof -
  have "m = mem_write (proc_mem st1) a (mem_read (proc_mem st1) code (unat sz))"
    using CopyCodeSafelyInitial_installs [OF mapped_bundled [OF inv host lay rng pos al wrap]
        mapped_apart [OF inv host own rng pos wrap], of "proc_mem st1" "[]"] copy by auto
  then have at: "m y = (if y - a < sz then proc_mem st1 (code + (y - a)) else proc_mem st1 y)" for y
    by (simp add: mem_copy_at)
  have e: "proc_mem st1 (code + y) = proc_mem st (code + y)" if "y < sz" for y
    using that by (intro own_block_kept(2) [OF inv host rng pos wrap own]) simp
  note w = window_step [where v = "\<lambda>y. proc_mem st1 (code + y)", OF inv host rng pos wrap at clear]
  show "dyn_inv st'" "same_but_maps st st'" by (rule w(1), rule w(2))
  assume "NaClIsUserAddr (ds_app st) x"
  then show "proc_mem st' x = (if x - (mem_start (ds_app st) + dest) < sz
      then proc_mem st (code + (x - (mem_start (ds_app st) + dest))) else proc_mem st x)"
    using w(3) e by simp
qed

lemmas errno_defs = NACL_ABI_EIO_def NACL_ABI_EAGAIN_def NACL_ABI_ENOMEM_def NACL_ABI_EFAULT_def NACL_ABI_EINVAL_def

lemma Create_success:
  assumes run: "NaClTextSysDyncode_Create env dest src sz st = run_ok 0 st'" and "sz \<noteq> 0"
  obtains code nap1 res m a st4 m5 es where
    "de_malloc env sz = Some code"
    "dest AND (bundle_size (ds_app st) - 1) = 0" "sz AND (bundle_size (ds_app st) - 1) = 0"
    "NaClUserToSysAddrRange (ds_app st) dest sz \<noteq> kNaClBadAddress"
    "NaClUserToSysAddrRange (ds_app st) src sz \<noteq> kNaClBadAddress"
    "dynamic_text_start (ds_app st) \<le> dest" "\<not> dest + sz > dynamic_text_end (ds_app st) - NACL_HALT_SLED_SIZE"
    "NaClDynamicRegionCreate (de_realloc_ok env)
       (ds_app (copy_in code (NaClUserToSysAddrRange (ds_app st) src sz) sz st))
       (NaClUserToSysAddrRange (ds_app st) dest sz) sz = Inr (nap1, True)"
    "NaClValidateCode (de_valid env) (de_tables env) (de_stack env) nap1 dest code sz
       (proc_mem ((copy_in code (NaClUserToSysAddrRange (ds_app st) src sz) sz st)\<lparr>ds_app := nap1\<rparr>)) = Some (Inr (res, m))"
    "res = LOAD_OK \<or> ignore_validator_result nap1"
    "NaclTextMapWrapper env dest sz
       (set_private m ((copy_in code (NaClUserToSysAddrRange (ds_app st) src sz) sz st)\<lparr>ds_app := nap1\<rparr>)) = run_ok (Some a) st4"
    "CopyCodeSafelyInitial a code sz (bundle_size (ds_app st4)) (proc_mem st4, []) = Some (Inr (m5, es))"
    "NaclTextMapClearCacheIfNeeded env dest sz (write_text m5 st4) = Some (Inr st')"
proof -
  have g: "dest AND (bundle_size (ds_app st) - 1) = 0" "sz AND (bundle_size (ds_app st) - 1) = 0"
    "NaClUserToSysAddrRange (ds_app st) dest sz \<noteq> kNaClBadAddress"
    "NaClUserToSysAddrRange (ds_app st) src sz \<noteq> kNaClBadAddress"
    "\<not> dest < dynamic_text_start (ds_app st)" "\<not> dest + sz > dynamic_text_end (ds_app st) - NACL_HALT_SLED_SIZE"
    and shm: "text_shm (ds_app st) \<noteq> None"
    using run by (auto simp: NaClTextSysDyncode_Create_def Let_def errno_defs split: if_splits)
  obtain code where c: "de_malloc env sz = Some code"
    using run g shm assms(2) by (cases "de_malloc env sz") (auto simp: NaClTextSysDyncode_Create_def Let_def errno_defs)
  let ?st1 = "copy_in code (NaClUserToSysAddrRange (ds_app st) src sz) sz st"
  note body = run [unfolded NaClTextSysDyncode_Create_def Let_def]
  obtain nap1 where n: "NaClDynamicRegionCreate (de_realloc_ok env) (ds_app ?st1)
       (NaClUserToSysAddrRange (ds_app st) dest sz) sz = Inr (nap1, True)"
    using body g shm assms(2) c by (auto simp: bind_run_Inr errno_defs split: if_splits)
  obtain res m where v: "NaClValidateCode (de_valid env) (de_tables env) (de_stack env) nap1 dest code sz
       (proc_mem (?st1\<lparr>ds_app := nap1\<rparr>)) = Some (Inr (res, m))" and ok: "res = LOAD_OK \<or> ignore_validator_result nap1"
    using body g shm assms(2) c n by (auto simp: bind_run_Inr errno_defs split: if_splits)
  obtain a st4 where w: "NaclTextMapWrapper env dest sz (set_private m (?st1\<lparr>ds_app := nap1\<rparr>)) = run_ok (Some a) st4"
    using body g shm assms(2) c n v ok by (auto simp: bind_run_Inr errno_defs split: if_splits option.splits)
  obtain m5 es where cp: "CopyCodeSafelyInitial a code sz (bundle_size (ds_app st4)) (proc_mem st4, []) = Some (Inr (m5, es))"
    "NaclTextMapClearCacheIfNeeded env dest sz (write_text m5 st4) = Some (Inr st')"
    using body g shm assms(2) c n v ok w by (auto simp: bind_run_Inr split: if_splits)
  show ?thesis using that [OF c g(1-4) _ g(6) n v ok w cp] g(5) by simp
qed

definition dyn_ready :: "dyn_state \<Rightarrow> bool" where
  "dyn_ready st \<longleftrightarrow> dyn_inv st \<and> code_layout (ds_app st) \<and> table_ok (ds_app st)"

lemma set_private_inv [simp]: "dyn_inv (set_private m st) = dyn_inv st"
  by (simp add: dyn_inv_def set_private_def Let_def text_mapped_def window_fits_def text_span_def window_span_def
      NaClIsUserAddr_def addr_limit_def text_bounds_def app_space_def)

lemma regions_inv [simp]:
  "dyn_inv (st\<lparr>ds_app := (ds_app st)\<lparr>dynamic_regions := rs, dynamic_regions_allocated := al\<rparr>\<rparr>) = dyn_inv st"
  by (simp add: dyn_inv_def text_mapped_def Let_def window_fits_def text_span_def window_span_def
      NaClIsUserAddr_def addr_limit_def text_bounds_def app_space_def)

lemma range_in_text:
  assumes "text_bounds nap" and "code_layout nap" and "dynamic_text_start nap \<le> dest"
    and "NaClUserToSysAddrRange nap dest sz \<noteq> kNaClBadAddress"
    and "\<not> dest + sz > dynamic_text_end nap - NACL_HALT_SLED_SIZE"
  shows "in_text nap dest sz" "unat dest + unat sz + 32 < 2 ^ 32" "unat (mem_start nap + dest) + unat sz < 2 ^ 32"
    "NaClUserToSysAddrRange nap dest sz = mem_start nap + dest"
proof -
  have sp: "app_space nap" using assms(1) by (simp add: text_bounds_def)
  note r = UserToSysAddrRange_cases [OF sp assms(4)]
  have b: "unat (addr_bits nap) \<le> 30" "unat (mem_start nap) + 2 ^ unat (addr_bits nap) < 2 ^ 32"
    using sp by (simp_all add: app_space_def)
  have p: "(2 :: nat) ^ unat (addr_bits nap) \<le> 2 ^ 30" using b(1) by (intro power_increasing) simp_all
  have "NACL_HALT_SLED_SIZE \<le> dynamic_text_end nap"
    using assms(1,2) by (simp add: text_bounds_def code_layout_def NACL_HALT_SLED_SIZE_def word_le_nat_alt)
  from unat_sub [OF this] have "unat (dest + sz) \<le> unat (dynamic_text_end nap)"
    using assms(5) by (simp add: word_less_nat_alt)
  then show "in_text nap dest sz" using assms(3) r(5) by (simp add: in_text_def)
  show "unat dest + unat sz + 32 < 2 ^ 32" using r(2) p by simp
  show "NaClUserToSysAddrRange nap dest sz = mem_start nap + dest" using r(3) by (simp add: add.commute)
  show "unat (mem_start nap + dest) + unat sz < 2 ^ 32" using r(2,4) b(2) by (simp add: add.commute)
qed

text \<open>What a successful \<open>dyncode_create\<close> has done.\<close>

definition installed :: "DecodeTables \<Rightarrow> CPUFeatures \<Rightarrow> dyn_state \<Rightarrow> u32 \<Rightarrow> u32 \<Rightarrow> u32 \<Rightarrow> uintptr_t \<Rightarrow> dyn_state \<Rightarrow> bool" where
  "installed dt c st dest src sz code st' \<longleftrightarrow>
     (let nap = ds_app st; dest_addr = mem_start nap + dest in
      \<exists>m is. sandboxed dt (bundle_size nap - 1) m code dest sz is \<and>
        (\<forall>d < sz. m (code + d) = proc_mem st (mem_start nap + src + d)) \<and>
        (\<forall>x. NaClIsUserAddr nap x \<longrightarrow> proc_mem st' x =
           (if x - dest_addr < sz then squashed_mem c m is (code + (x - dest_addr)) else proc_mem st x)))"

text \<open>The application after the region has been registered.\<close>

lemma registered:
  assumes core: "app_core (ds_app st1) = app_core nap" and inv: "dyn_inv st1" and lay: "code_layout nap" and tab: "table_ok nap"
    and pos: "0 < unat sz" and fits: "unat (mem_start nap + dest) + unat sz < 2 ^ 32"
    and create: "NaClDynamicRegionCreate True (ds_app st1) (mem_start nap + dest) sz = Inr (nap1, True)"
  shows "dyn_inv (st1\<lparr>ds_app := nap1\<rparr>)" "proc_mem (st1\<lparr>ds_app := nap1\<rparr>) = proc_mem st1" "table_ok nap1"
    "set (dynamic_regions nap1) = insert (new_region (mem_start nap + dest) sz) (set (dynamic_regions nap))"
    "\<forall>r \<in> set (dynamic_regions nap). \<not> overlaps r (unat (mem_start nap + dest)) (unat sz)"
    "mem_start nap1 = mem_start nap" "bundle_size nap1 = bundle_size nap" "ignore_validator_result nap1 = ignore_validator_result nap"
    "validator_stub_out_mode nap1 = validator_stub_out_mode nap" "NaClIsUserAddr nap1 = NaClIsUserAddr nap"
    "in_text nap1 = in_text nap" "code_layout nap1 = code_layout nap"
proof -
  note f = app_core_fields [OF core] same_app_spans [OF core]
  have tab1: "regions_ok (dynamic_regions (ds_app st1))" "capacity_ok (ds_app st1)"
    using tab f by (simp_all add: table_ok_def capacity_ok_def)
  obtain rs al ok where c: "NaClDynamicRegionCreate True (ds_app st1) (mem_start nap + dest) sz =
        Inr ((ds_app st1)\<lparr>dynamic_regions := rs, dynamic_regions_allocated := al\<rparr>, ok)"
      "ok \<longleftrightarrow> \<not> (\<exists>r \<in> set (dynamic_regions (ds_app st1)). overlaps r (unat (mem_start nap + dest)) (unat sz))"
    and rs: "regions_ok rs" "int (length rs) \<le> al"
      "set rs = (if ok then insert (new_region (mem_start nap + dest) sz) (set (dynamic_regions (ds_app st1)))
                 else set (dynamic_regions (ds_app st1)))"
    using Create_cases [OF tab1 pos fits] by blast
  have n1: "nap1 = (ds_app st1)\<lparr>dynamic_regions := rs, dynamic_regions_allocated := al\<rparr>" and ok
    using create c(1) by simp_all
  show "dyn_inv (st1\<lparr>ds_app := nap1\<rparr>)" using inv by (simp add: n1)
  show "proc_mem (st1\<lparr>ds_app := nap1\<rparr>) = proc_mem st1" by (simp add: n1 proc_mem_def)
  show "table_ok nap1" using rs(1,2) by (simp add: n1 table_ok_def capacity_ok_def)
  show "set (dynamic_regions nap1) = insert (new_region (mem_start nap + dest) sz) (set (dynamic_regions nap))"
    using rs(3) \<open>ok\<close> f(7) by (simp add: n1)
  show "\<forall>r \<in> set (dynamic_regions nap). \<not> overlaps r (unat (mem_start nap + dest)) (unat sz)"
    using c(2) \<open>ok\<close> f(7) by simp
  show "mem_start nap1 = mem_start nap" "bundle_size nap1 = bundle_size nap" "ignore_validator_result nap1 = ignore_validator_result nap"
    "validator_stub_out_mode nap1 = validator_stub_out_mode nap" "NaClIsUserAddr nap1 = NaClIsUserAddr nap"
    "in_text nap1 = in_text nap" "code_layout nap1 = code_layout nap"
    using f by (simp_all add: n1 NaClIsUserAddr_def addr_limit_def fun_eq_iff in_text_def code_layout_def)
qed

lemma Create_installs:
  assumes ready: "dyn_ready st" and host: "host_ok (de_os env) (ds_app st)"
    and stacks: "\<And>k. length (de_stack env k) = 4" and re: "de_realloc_ok env"
    and mode: "\<not> validator_stub_out_mode (ds_app st)" "\<not> ignore_validator_result (ds_app st)"
    and heap: "\<And>a. de_malloc env sz = Some a \<Longrightarrow> own_block (de_os env) st a sz"
    and nz: "sz \<noteq> 0" and run: "NaClTextSysDyncode_Create env dest src sz st = run_ok 0 st'"
  shows "\<exists>code. installed (de_tables env) (cpu (de_valid env)) st dest src sz code st'" and "dyn_ready st'"
    and "in_text (ds_app st) dest sz"
    and "set (dynamic_regions (ds_app st')) = insert (new_region (mem_start (ds_app st) + dest) sz) (set (dynamic_regions (ds_app st)))"
    and "\<forall>r \<in> set (dynamic_regions (ds_app st)). \<not> overlaps r (unat (mem_start (ds_app st) + dest)) (unat sz)"
    and "mem_start (ds_app st') = mem_start (ds_app st)" "bundle_size (ds_app st') = bundle_size (ds_app st)"
      "in_text (ds_app st') = in_text (ds_app st)"
proof -
  let ?nap = "ds_app st" and ?m0 = "mem_start (ds_app st)"
  have inv: "dyn_inv st" and lay: "code_layout ?nap" and tab: "table_ok ?nap" using ready by (simp_all add: dyn_ready_def)
  have tb: "text_bounds ?nap" using inv by (simp add: dyn_inv_def)
  obtain code nap1 res m a st4 m5 es where s:
    "de_malloc env sz = Some code"
    "dest AND (bundle_size ?nap - 1) = 0" "sz AND (bundle_size ?nap - 1) = 0"
    "NaClUserToSysAddrRange ?nap dest sz \<noteq> kNaClBadAddress" "NaClUserToSysAddrRange ?nap src sz \<noteq> kNaClBadAddress"
    "dynamic_text_start ?nap \<le> dest" "\<not> dest + sz > dynamic_text_end ?nap - NACL_HALT_SLED_SIZE"
    and create: "NaClDynamicRegionCreate (de_realloc_ok env) (ds_app (copy_in code (NaClUserToSysAddrRange ?nap src sz) sz st))
       (NaClUserToSysAddrRange ?nap dest sz) sz = Inr (nap1, True)"
    and valid: "NaClValidateCode (de_valid env) (de_tables env) (de_stack env) nap1 dest code sz
       (proc_mem ((copy_in code (NaClUserToSysAddrRange ?nap src sz) sz st)\<lparr>ds_app := nap1\<rparr>)) = Some (Inr (res, m))"
    "res = LOAD_OK \<or> ignore_validator_result nap1"
    and wrap: "NaclTextMapWrapper env dest sz
       (set_private m ((copy_in code (NaClUserToSysAddrRange ?nap src sz) sz st)\<lparr>ds_app := nap1\<rparr>)) = run_ok (Some a) st4"
    and copy: "CopyCodeSafelyInitial a code sz (bundle_size (ds_app st4)) (proc_mem st4, []) = Some (Inr (m5, es))"
    and clear: "NaclTextMapClearCacheIfNeeded env dest sz (write_text m5 st4) = Some (Inr st')"
    by (rule Create_success [OF run nz])
  note rt = range_in_text [OF tb lay s(6,4,7)]
  have src: "NaClUserToSysAddrRange ?nap src sz = ?m0 + src"
    using UserToSysAddrRange_cases(3) [OF _ s(5)] tb by (simp add: text_bounds_def add.commute)
  note own = heap [OF s(1)]
  define st1 where "st1 = copy_in code (?m0 + src) sz st"
  have core1: "app_core (ds_app st1) = app_core ?nap" and sp1: "ds_space st1 = ds_space st"
    using set_private_same [of st] by (simp_all add: st1_def copy_in_def same_but_maps_def set_private_def Let_def)
  have pos: "0 < unat sz" using nz by (simp add: unat_gt_0)
  have inv1: "dyn_inv st1" using inv by (simp add: st1_def copy_in_def)
  have create1: "NaClDynamicRegionCreate True (ds_app st1) (?m0 + dest) sz = Inr (nap1, True)"
    using create re unfolding rt(4) src st1_def by simp
  define st2 where "st2 = st1\<lparr>ds_app := nap1\<rparr>"
  define st3 where "st3 = set_private m st2"
  note reg = registered [OF core1 inv1 lay tab pos rt(3) create1]
  note nap2 = reg(6-12)
  have inv3: "dyn_inv st3" using reg(1) by (simp add: st3_def st2_def)
  have core3: "app_core (ds_app st3) = app_core nap1" and sp3: "ds_space st3 = ds_space st" and app2: "ds_app st2 = nap1"
    using set_private_same [of st2 m] sp1 by (simp_all add: st3_def same_but_maps_def st2_def set_private_def Let_def)
  note f3 = app_core_fields [OF core3] same_app_spans [OF core3]
  have own3: "own_block (de_os env) st3 code sz" and host3: "host_ok (de_os env) (ds_app st3)"
    using own host f3(14) nap2(5) by (simp_all add: own_block_def sp3 host_ok_def)
  have lay3: "code_layout (ds_app st3)" using lay [folded nap2(7)] f3(3,4) by (simp add: code_layout_def)
  have rng3: "in_text (ds_app st3) dest sz" using rt(1) [folded nap2(6)] f3(4,5) by (simp add: in_text_def)
  have al3: "dest AND (bundle_size (ds_app st3) - 1) = 0" "sz AND (bundle_size (ds_app st3) - 1) = 0"
    using s(2,3) f3(3) nap2(2) by simp_all
  have wrap3: "NaclTextMapWrapper env dest sz st3 = run_ok (Some a) st4"
    using wrap unfolding src st3_def st2_def st1_def .
  note ins = install_step [OF inv3 host3 lay3 own3 rng3 pos al3 wrap3 copy clear]
  have core': "app_core (ds_app st') = app_core nap1" using ins(2) core3 by (simp add: same_but_maps_def)
  note f' = app_core_fields [OF core']
  show "set (dynamic_regions (ds_app st')) = insert (new_region (?m0 + dest) sz) (set (dynamic_regions ?nap))"
    using reg(4) f'(7) by simp
  show "\<forall>r \<in> set (dynamic_regions ?nap). \<not> overlaps r (unat (?m0 + dest)) (unat sz)" by (rule reg(5))
  show "in_text ?nap dest sz" by (rule rt(1))
  show "mem_start (ds_app st') = ?m0" "bundle_size (ds_app st') = bundle_size ?nap" "in_text (ds_app st') = in_text ?nap"
    using f'(2-5) nap2(1,2,6) by (simp_all add: in_text_def fun_eq_iff)
  show "dyn_ready st'"
    using ins(1) reg(3,12) lay f' by (simp add: dyn_ready_def table_ok_def capacity_ok_def code_layout_def)
  have none: "sp_map (ds_space st) x = None" if "x - code < sz" for x using own that by (simp add: own_block_def)
  have v1: "proc_mem st1 x = (if x - code < sz then proc_mem st (?m0 + src + (x - code)) else proc_mem st x)" for x
    unfolding st1_def by (rule copy_in_own) (rule none)
  note v2 = reg(2) [folded st2_def]
  have "final_pass (de_valid env) (de_tables env) (de_stack env 1) nap1 dest code sz (proc_mem st2) = Some (Inr (LOAD_OK, m))"
    using valid mode nap2(3,4) unfolding src st1_def [symmetric] st2_def [symmetric] by (simp add: NaClValidateCode_def)
  moreover have "bundle_size nap1 < 256" using lay nap2(2) by (auto simp: code_layout_def)
  ultimately obtain "is" where sb: "sandboxed (de_tables env) (bundle_size ?nap - 1) (proc_mem st2) code dest sz is"
    and m: "m = squashed_mem (cpu (de_valid env)) (proc_mem st2) is"
    using final_pass_sound [OF _ stacks rt(2)] nap2(2) by metis
  have usr: "\<not> x - code < sz" if "NaClIsUserAddr ?nap x" for x using own that unfolding own_block_def by blast
  have v3: "proc_mem st3 x = proc_mem st x" if "NaClIsUserAddr ?nap x" for x
    using usr [OF that] squashed_mem_outside [OF sb usr [OF that], of "cpu (de_valid env)"] v1 [of x]
    by (simp add: st3_def set_private_view m v2)
  have v4: "proc_mem st3 (code + d) = m (code + d)" if "d < sz" for d
    using none [of "code + d"] that sp1 by (simp add: st3_def set_private_view st2_def)
  have "proc_mem st' x = (if x - (?m0 + dest) < sz then m (code + (x - (?m0 + dest))) else proc_mem st x)"
    if u: "NaClIsUserAddr ?nap x" for x
    using ins(3) [of x] u f3(2,14) nap2(1,5) v3 [OF u] v4 by simp
  then have "installed (de_tables env) (cpu (de_valid env)) st dest src sz code st'"
    unfolding installed_def Let_def using sb v1 v2 m by (intro exI [of _ "proc_mem st2"] exI [of _ "is"]) simp
  then show "\<exists>code. installed (de_tables env) (cpu (de_valid env)) st dest src sz code st'" ..
qed

end
