(* ===== verification/Dyn_Calls.thy ===== *)
theory Dyn_Calls
  imports Dyn_Text
begin

text \<open>
  What \<open>dyncode_create\<close> of \<open>service_runtime/nacl_text.c\<close> guarantees: the code it installs is sandboxed and
  confined to the region it registers, it always returns, except for code that starts in the first
  64 KiB of the dynamic text, on which the process aborts.
\<close>

section \<open>The mapping calls return\<close>

lemma new_window_runs:
  fixes off :: u32
  assumes host: "host_ok os nap" and sz: "sz = 0x10000 * of_nat n" "65536 * n < 2 ^ 32" "unat off + unat sz + 65536 < 2 ^ 31"
  shows "\<exists>ret sp2. NaClDescImcShmMap os self (NaClDescEffectorShmUnmapMemory os) 0 sz (PROT_READ OR PROT_WRITE)
                NACL_ABI_MAP_SHARED (ucast off) sp1 = Some (Inr (ret, sp2))"
proof -
  have c: "PROT_READ OR PROT_WRITE = 3" "NACL_ABI_MAP_SHARED = 1"
    by (simp_all add: PROT_READ_def PROT_WRITE_def NACL_ABI_MAP_SHARED_def)
  have u: "unat sz = 65536 * n" unfolding sz(1) using sz(2) by (rule unat_pages)
  show ?thesis
  proof (cases "os_find_space os (sp_calls sp1) sz")
    case None
    then show ?thesis using ShmMap_nowhere [of 3 os sp1 sz] by (simp add: c)
  next
    case (Some a)
    then have "unat a + unat sz + 65536 < 2 ^ 32" using host unfolding host_ok_def by blast
    then have fits: "unat a + 65536 * n < 2 ^ 32" "unat off + 65536 * n + 65536 < 2 ^ 31" using sz(3) u by simp_all
    have fm: "fixed_maps os" using host by (simp add: host_ok_def)
    show ?thesis
      using ShmMap_request [OF fm _ fits, of 3 1 0 "host_called sp1" sp1 self] Some sz(1) by (auto simp: c)
  qed
qed

lemma CachedMap_returns:
  assumes inv: "dyn_inv st" and host: "host_ok (de_os env) (ds_app st)"
    and sz: "sz = 0x10000 * of_nat n" "65536 * n < 2 ^ 32" "unat off + unat sz + 65536 < 2 ^ 31"
    and ok: "off = 0 \<longleftrightarrow> sz = 0"
  shows "\<exists>r st'. CachedMapWritableText env off sz st = run_ok r st'"
proof (cases "off = dynamic_mapcache_offset (ds_app st) \<and> sz = dynamic_mapcache_size (ds_app st)")
  case True
  then show ?thesis by (simp add: CachedMapWritableText_def Let_def)
next
  case False
  let ?nap = "ds_app st" and ?os = "de_os env"
  have wf: "window_fits ?nap" using inv by (simp add: dyn_inv_def)
  have uo: "unmaps_succeed ?os" using host by (simp add: host_ok_def)
  obtain sp1 where sp1: "(if dynamic_mapcache_size ?nap > 0 \<and> \<not> NaClPtrIsNegErrno (dynamic_mapcache_ret ?nap) then
           bind_run (NaClDescImcShmUnmapUnsafe ?os NaClDescEffectorShmMapAnonymousMemory
                       (dynamic_mapcache_ret ?nap) (dynamic_mapcache_size ?nap) (ds_space st)) (\<lambda>(rv, sp).
           if 0 \<noteq> rv then Some (Inl LogFatal) else Some (Inr sp))
         else Some (Inr (ds_space st))) = Some (Inr sp1)"
    using old_window_gone [OF wf uo, of NaClDescEffectorShmMapAnonymousMemory "ds_space st"] by blast
  obtain ret sp2 where m: "NaClDescImcShmMap ?os (ds_text st) (NaClDescEffectorShmUnmapMemory ?os) 0 sz
      (PROT_READ OR PROT_WRITE) NACL_ABI_MAP_SHARED (ucast off) sp1 = Some (Inr (ret, sp2))"
    using new_window_runs [OF host sz] by blast
  show ?thesis
    unfolding CachedMapWritableText_def Let_def sp1 using False ok m by (auto simp: word_gt_0)
qed

lemma map_size_pos:
  assumes "text_bounds nap" and "in_text nap dest sz" and pos: "0 < unat sz"
  shows "map_size nap dest sz \<noteq> 0"
proof -
  note ar = map_arith [OF refl in_text_small(2) [OF assms(1,2)]]
  let ?n = "(unat (dest - dynamic_text_start nap) + unat sz + 65535) div 65536 - unat (dest - dynamic_text_start nap) div 65536"
  have big: "65536 * ?n < 2 ^ 32" using ar(3) by simp
  have usz: "unat (map_size nap dest sz) = 65536 * ?n" unfolding ar(2) using big by (rule unat_pages)
  have "unat (map_size nap dest sz) > 0" unfolding usz using ar(4) pos by linarith
  then show ?thesis by auto
qed

lemma MapWrapper_returns:
  assumes inv: "dyn_inv st" and host: "host_ok (de_os env) (ds_app st)" and rng: "in_text (ds_app st) dest sz"
    and pos: "0 < unat sz" and later: "map_offset (ds_app st) dest \<noteq> 0"
  shows "\<exists>r st'. NaclTextMapWrapper env dest sz st = run_ok r st'"
proof -
  let ?nap = "ds_app st"
  have tb: "text_bounds ?nap" using inv by (simp add: dyn_inv_def)
  note ar = map_arith [OF refl in_text_small(2) [OF tb rng]]
  let ?n = "(unat (dest - dynamic_text_start ?nap) + unat sz + 65535) div 65536 - unat (dest - dynamic_text_start ?nap) div 65536"
  have big: "65536 * ?n < 2 ^ 32" using ar(3) by simp
  obtain r st' where "CachedMapWritableText env (map_offset ?nap dest) (map_size ?nap dest sz) st = run_ok r st'"
    using CachedMap_returns [OF inv host ar(2) big ar(7)] later map_size_pos [OF tb rng pos] by blast
  then show ?thesis by (simp add: NaclTextMapWrapper_def Let_def)
qed

lemma ClearCache_returns:
  assumes inv: "dyn_inv st" and host: "host_ok (de_os env) (ds_app st)"
  shows "\<exists>st'. NaclTextMapClearCacheIfNeeded env dest sz st = Some (Inr st')"
proof -
  have z: "(0 :: u32) = 0x10000 * of_nat 0" "65536 * (0 :: nat) < 2 ^ 32" "unat (0 :: u32) + unat (0 :: u32) + 65536 < 2 ^ 31"
    by simp_all
  obtain r st' where "CachedMapWritableText env 0 0 st = run_ok r st'"
    using CachedMap_returns [OF inv host z] by blast
  then show ?thesis by (simp add: NaclTextMapClearCacheIfNeeded_def)
qed

section \<open>Creating code returns\<close>

text \<open>The requests that pass the checks on the arguments.\<close>

definition create_accepts :: "NaClApp \<Rightarrow> u32 \<Rightarrow> u32 \<Rightarrow> u32 \<Rightarrow> bool" where
  "create_accepts nap dest src sz \<longleftrightarrow> text_shm nap \<noteq> None \<and>
     dest AND (bundle_size nap - 1) = 0 \<and> sz AND (bundle_size nap - 1) = 0 \<and>
     NaClUserToSysAddrRange nap dest sz \<noteq> kNaClBadAddress \<and> NaClUserToSysAddrRange nap src sz \<noteq> kNaClBadAddress \<and>
     dynamic_text_start nap \<le> dest \<and> \<not> dest + sz > dynamic_text_end nap - NACL_HALT_SLED_SIZE \<and> sz \<noteq> 0"

lemma Create_rejected:
  assumes "\<not> create_accepts (ds_app st) dest src sz \<or> de_malloc env sz = None"
  shows "\<exists>r \<in> {0, - NACL_ABI_EINVAL, - NACL_ABI_EFAULT, - NACL_ABI_ENOMEM}.
           NaClTextSysDyncode_Create env dest src sz st = run_ok r st"
  using assms by (auto simp: NaClTextSysDyncode_Create_def create_accepts_def Let_def)

text \<open>The state when an accepted request reaches the mapping of the text.\<close>

definition region_step :: "dyn_env \<Rightarrow> u32 \<Rightarrow> u32 \<Rightarrow> u32 \<Rightarrow> uintptr_t \<Rightarrow> dyn_state \<Rightarrow> (dyn_state \<times> bool) res" where
  "region_step env dest src sz code st =
     (let st1 = copy_in code (NaClUserToSysAddrRange (ds_app st) src sz) sz st in
      bind_res (NaClDynamicRegionCreate (de_realloc_ok env) (ds_app st1) (NaClUserToSysAddrRange (ds_app st) dest sz) sz)
        (\<lambda>(nap1, created). Inr (st1\<lparr>ds_app := nap1\<rparr>, created)))"

lemma region_step_result:
  assumes ready: "dyn_ready st" and acc: "create_accepts (ds_app st) dest src sz" and re: "de_realloc_ok env"
  shows "\<exists>st2 ok. region_step env dest src sz code st = Inr (st2, ok) \<and> dyn_inv st2 \<and> ds_space st2 = ds_space st \<and>
           in_text (ds_app st2) dest sz \<and> code_layout (ds_app st2) \<and> NaClIsUserAddr (ds_app st2) = NaClIsUserAddr (ds_app st) \<and>
           bundle_size (ds_app st2) = bundle_size (ds_app st) \<and> map_offset (ds_app st2) dest = map_offset (ds_app st) dest \<and>
           dynamic_mapcache_offset (ds_app st2) = dynamic_mapcache_offset (ds_app st) \<and>
           dynamic_mapcache_size (ds_app st2) = dynamic_mapcache_size (ds_app st) \<and>
           (ok \<longleftrightarrow> \<not> (\<exists>r \<in> set (dynamic_regions (ds_app st)). overlaps r (unat (mem_start (ds_app st) + dest)) (unat sz)))"
proof -
  let ?nap = "ds_app st"
  have inv: "dyn_inv st" and lay: "code_layout ?nap" and tab: "table_ok ?nap" using ready by (simp_all add: dyn_ready_def)
  have tb: "text_bounds ?nap" using inv by (simp add: dyn_inv_def)
  have a: "dynamic_text_start ?nap \<le> dest" "NaClUserToSysAddrRange ?nap dest sz \<noteq> kNaClBadAddress"
    "\<not> dest + sz > dynamic_text_end ?nap - NACL_HALT_SLED_SIZE" "sz \<noteq> 0"
    using acc by (simp_all add: create_accepts_def)
  note rt = range_in_text [OF tb lay a(1-3)]
  define st1 where "st1 = copy_in code (NaClUserToSysAddrRange ?nap src sz) sz st"
  have core: "app_core (ds_app st1) = app_core ?nap" and sp1: "ds_space st1 = ds_space st"
    using set_private_same [of st] by (simp_all add: st1_def copy_in_def same_but_maps_def set_private_def Let_def)
  note f = app_core_fields [OF core]
  have pos: "0 < unat sz" using a(4) by (simp add: unat_gt_0)
  have tab1: "regions_ok (dynamic_regions (ds_app st1))" "capacity_ok (ds_app st1)"
    using tab f by (simp_all add: table_ok_def capacity_ok_def)
  obtain rs al ok where c: "NaClDynamicRegionCreate True (ds_app st1) (mem_start ?nap + dest) sz =
        Inr ((ds_app st1)\<lparr>dynamic_regions := rs, dynamic_regions_allocated := al\<rparr>, ok)"
      "ok \<longleftrightarrow> \<not> (\<exists>r \<in> set (dynamic_regions (ds_app st1)). overlaps r (unat (mem_start ?nap + dest)) (unat sz))"
    using Create_cases [OF tab1 pos rt(3)] by blast
  let ?st2 = "st1\<lparr>ds_app := (ds_app st1)\<lparr>dynamic_regions := rs, dynamic_regions_allocated := al\<rparr>\<rparr>"
  have run: "region_step env dest src sz code st = Inr (?st2, ok)"
    using c(1) re unfolding region_step_def Let_def st1_def [symmetric] rt(4) by simp
  have "dyn_inv ?st2" using inv by (simp add: st1_def copy_in_def)
  moreover have "ds_space ?st2 = ds_space st" using sp1 by simp
  moreover have "in_text (ds_app ?st2) dest sz" using rt(1) f(4,5) by (simp add: in_text_def)
  moreover have "code_layout (ds_app ?st2)" "bundle_size (ds_app ?st2) = bundle_size ?nap"
    using lay f(3,4) by (simp_all add: code_layout_def)
  moreover have "NaClIsUserAddr (ds_app ?st2) = NaClIsUserAddr ?nap"
    using f(1,2) by (simp add: NaClIsUserAddr_def addr_limit_def fun_eq_iff)
  moreover have "map_offset (ds_app ?st2) dest = map_offset ?nap dest" using f(4) by (simp add: map_offset_def)
  moreover have "dynamic_mapcache_offset (ds_app ?st2) = dynamic_mapcache_offset ?nap"
    "dynamic_mapcache_size (ds_app ?st2) = dynamic_mapcache_size ?nap"
    by (simp_all add: st1_def copy_in_def set_private_def Let_def)
  ultimately show ?thesis using run c(2) [unfolded f(7)] by blast
qed

lemma Create_step:
  assumes "create_accepts (ds_app st) dest src sz" and "de_malloc env sz = Some code"
    and "region_step env dest src sz code st = Inr (st2, ok)"
    and "NaClValidateCode (de_valid env) (de_tables env) (de_stack env) (ds_app st2) dest code sz (proc_mem st2) = Some (Inr (res, m))"
  shows "NaClTextSysDyncode_Create env dest src sz st =
    (if \<not> ok then run_ok (- NACL_ABI_EINVAL) st2
     else if res \<noteq> LOAD_OK \<and> \<not> ignore_validator_result (ds_app st2) then run_ok (- NACL_ABI_EINVAL) (set_private m st2)
     else bind_run (NaclTextMapWrapper env dest sz (set_private m st2)) (\<lambda>(mapped, st4).
       case mapped of
         None \<Rightarrow> run_ok (- NACL_ABI_ENOMEM) st4
       | Some mapped_addr \<Rightarrow>
         bind_run (CopyCodeSafelyInitial mapped_addr code sz (bundle_size (ds_app st4)) (proc_mem st4, [])) (\<lambda>(m5, _).
         bind_run (NaclTextMapClearCacheIfNeeded env dest sz (write_text m5 st4)) (\<lambda>st6. run_ok 0 st6))))"
proof -
  let ?st1 = "copy_in code (NaClUserToSysAddrRange (ds_app st) src sz) sz st"
  obtain nap1 where c: "NaClDynamicRegionCreate (de_realloc_ok env) (ds_app ?st1) (NaClUserToSysAddrRange (ds_app st) dest sz) sz
      = Inr (nap1, ok)" and st2: "st2 = ?st1\<lparr>ds_app := nap1\<rparr>"
    using assms(3) by (auto simp: region_step_def Let_def bind_res_Inr_iff)
  have v: "NaClValidateCode (de_valid env) (de_tables env) (de_stack env) nap1 dest code sz (proc_mem (?st1\<lparr>ds_app := nap1\<rparr>))
      = Some (Inr (res, m))" using assms(4) by (simp add: st2)
  have n: "ds_app st2 = nap1" by (simp add: st2)
  have g: "(text_shm (ds_app st) = None) = False" "dest AND (bundle_size (ds_app st) - 1) = 0"
    "sz AND (bundle_size (ds_app st) - 1) = 0" "(NaClUserToSysAddrRange (ds_app st) dest sz = kNaClBadAddress) = False"
    "(NaClUserToSysAddrRange (ds_app st) src sz = kNaClBadAddress) = False" "(dest < dynamic_text_start (ds_app st)) = False"
    "(dynamic_text_end (ds_app st) - NACL_HALT_SLED_SIZE < dest + sz) = False" "(sz = 0) = False"
    using assms(1) by (auto simp: create_accepts_def)
  show ?thesis
    unfolding NaClTextSysDyncode_Create_def Let_def n unfolding st2
    by (simp add: g assms(2) c v)
qed

lemma set_private_app: "app_core (ds_app (set_private m st)) = app_core (ds_app st)" "ds_space (set_private m st) = ds_space st"
  using set_private_same [of st m] by (simp_all add: same_but_maps_def set_private_def Let_def)

text \<open>What an accepted request needs of the machine around it.\<close>

definition create_setting :: "dyn_env \<Rightarrow> u32 \<Rightarrow> dyn_state \<Rightarrow> bool" where
  "create_setting env sz st \<longleftrightarrow> dyn_ready st \<and> host_ok (de_os env) (ds_app st) \<and> tables_typed (de_tables env) \<and>
     (\<forall>k. length (de_stack env k) = 4) \<and> de_realloc_ok env \<and>
     (\<forall>a. de_malloc env sz = Some a \<longrightarrow> own_block (de_os env) st a sz)"

lemma accepted_small:
  assumes "dyn_ready st" and "create_accepts (ds_app st) dest src sz"
  shows "unat dest + unat sz + 32 < 2 ^ 32" "0 < unat sz"
proof -
  have "text_bounds (ds_app st)" "code_layout (ds_app st)" using assms(1) by (simp_all add: dyn_ready_def dyn_inv_def)
  from range_in_text(2) [OF this, of dest sz] assms(2) show "unat dest + unat sz + 32 < 2 ^ 32"
    by (simp add: create_accepts_def)
  show "0 < unat sz" using assms(2) by (simp add: create_accepts_def unat_gt_0)
qed

lemma Create_returns:
  assumes set: "create_setting env sz st" and later: "map_offset (ds_app st) dest \<noteq> 0"
  shows "\<exists>r st'. NaClTextSysDyncode_Create env dest src sz st = run_ok r st' \<and>
           r \<in> {0, - NACL_ABI_EINVAL, - NACL_ABI_EFAULT, - NACL_ABI_ENOMEM}"
proof (cases "create_accepts (ds_app st) dest src sz \<and> de_malloc env sz \<noteq> None")
  case False
  then show ?thesis using Create_rejected [of st dest src sz env] by auto
next
  case True
  then obtain code where acc: "create_accepts (ds_app st) dest src sz" and c: "de_malloc env sz = Some code" by auto
  have ready: "dyn_ready st" and host: "host_ok (de_os env) (ds_app st)" and tt: "tables_typed (de_tables env)"
    and stacks: "\<And>k. length (de_stack env k) = 4" and re: "de_realloc_ok env" and own: "own_block (de_os env) st code sz"
    using set c by (simp_all add: create_setting_def)
  note small = accepted_small [OF ready acc]
  obtain st2 ok where r: "region_step env dest src sz code st = Inr (st2, ok)" and inv2: "dyn_inv st2"
    and k: "ds_space st2 = ds_space st" "in_text (ds_app st2) dest sz" "code_layout (ds_app st2)"
      "NaClIsUserAddr (ds_app st2) = NaClIsUserAddr (ds_app st)" "bundle_size (ds_app st2) = bundle_size (ds_app st)"
      "map_offset (ds_app st2) dest = map_offset (ds_app st) dest"
    using region_step_result [OF ready acc re] by blast
  obtain res m where v: "NaClValidateCode (de_valid env) (de_tables env) (de_stack env) (ds_app st2) dest code sz (proc_mem st2)
      = Some (Inr (res, m))"
    using NaClValidateCode_returns [where stack = "de_stack env", OF tt stacks small(1)] by blast
  let ?st3 = "set_private m st2"
  note f = app_core_fields [OF set_private_app(1) [of m st2]] same_app_spans [OF set_private_app(1) [of m st2]]
  have inv3: "dyn_inv ?st3" using inv2 by simp
  have host3: "host_ok (de_os env) (ds_app ?st3)" using host k(4) f(14) by (simp add: host_ok_def)
  have own3: "own_block (de_os env) ?st3 code sz"
    using own by (simp add: own_block_def set_private_app(2) k(1,4) f(14))
  have rng3: "in_text (ds_app ?st3) dest sz" and lay3: "code_layout (ds_app ?st3)" and off3: "map_offset (ds_app ?st3) dest \<noteq> 0"
    using k(2,3,6) later f(3,4,5) by (simp_all add: in_text_def code_layout_def map_offset_def)
  have al3: "dest AND (bundle_size (ds_app ?st3) - 1) = 0" "sz AND (bundle_size (ds_app ?st3) - 1) = 0"
    using acc k(5) f(3) by (simp_all add: create_accepts_def)
  obtain mp st4 where w: "NaclTextMapWrapper env dest sz ?st3 = run_ok mp st4"
    using MapWrapper_returns [OF inv3 host3 rng3 small(2) off3] by blast
  have last: "\<exists>st'. bind_run (CopyCodeSafelyInitial a code sz (bundle_size (ds_app st4)) (proc_mem st4, [])) (\<lambda>(m5, _).
         bind_run (NaclTextMapClearCacheIfNeeded env dest sz (write_text m5 st4)) (\<lambda>st6. run_ok 0 st6)) = run_ok (0 :: int) st'"
    if a: "mp = Some a" for a
  proof -
    have wa: "NaclTextMapWrapper env dest sz ?st3 = run_ok (Some a) st4" using w a by simp
    obtain m5 es where cp: "CopyCodeSafelyInitial a code sz (bundle_size (ds_app st4)) (proc_mem st4, []) = Some (Inr (m5, es))"
      using CopyCodeSafelyInitial_installs [OF mapped_bundled [OF inv3 host3 lay3 rng3 small(2) al3 wa]
          mapped_apart [OF inv3 host3 own3 rng3 small(2) wa], of "proc_mem st4" "[]"] by blast
    have i4: "dyn_inv (write_text m5 st4)" by (rule write_text_inv [OF MapWrapper_inv(1) [OF inv3 host3 rng3 small(2) wa]])
    have core4: "app_core (ds_app (write_text m5 st4)) = app_core (ds_app ?st3)"
      using write_text_same [of st4 m5] MapWrapper_same [OF wa] by (simp add: same_but_maps_def)
    have "host_ok (de_os env) (ds_app (write_text m5 st4))"
      using host3 same_app_spans(2) [OF core4] by (simp add: host_ok_def)
    from ClearCache_returns [OF i4 this] obtain st6 where
      "NaclTextMapClearCacheIfNeeded env dest sz (write_text m5 st4) = Some (Inr st6)" by blast
    then show ?thesis using cp by simp
  qed
  show ?thesis
    unfolding Create_step [OF acc c r v] using w last by (cases mp) auto
qed

text \<open>C6: In a well-formed state \<open>dyncode_create\<close> always returns, with success or one of its three error
  numbers, for every request outside the first 64 KiB of the dynamic text: no loop runs for ever and
  no check of the trusted code aborts the process.\<close>

theorem NaClTextSysDyncode_Create_total:
  assumes "create_setting env sz st" and "map_offset (ds_app st) dest \<noteq> 0"
  shows "\<exists>r st'. NaClTextSysDyncode_Create env dest src sz st = run_ok r st' \<and>
           r \<in> {0, - NACL_ABI_EINVAL, - NACL_ABI_EFAULT, - NACL_ABI_ENOMEM}"
  using assms by (rule Create_returns)

section \<open>A sample application with dynamic code\<close>

text \<open>
  Decoder tables with an eight-byte instruction (opcode 5, ModRM byte, displacement, 16-bit immediate)
  all of whose bytes are 5, and a program whose memory holds nothing else, with dynamic text from
  0x30000 to 0x100000.
\<close>

definition long_tables :: DecodeTables where
  "long_tables = sample_tables\<lparr>kDecode1ByteOp := (\<lambda>b.
     if b = 5 then op_entry NACLi_386 1 IMM_FIXED2 0 else sample_1byte b)\<rparr>"

lemma long_tables_typed: "tables_typed long_tables"
  by (simp add: tables_typed_def long_tables_def sample_tables_def sample_1byte_def illegal_ops_def op_entry_def)

definition page_host :: host_os where
  "page_host = \<lparr>os_find_space = \<lambda>_ n. if n \<le> 0x1000000 then Some 0x80000000 else None, os_map = \<lambda>_ a. Some a,
     os_unmap = \<lambda>_ _. True, os_create = \<lambda>_ _. 7\<rparr>"

definition text_app :: NaClApp where
  "text_app = sample_app\<lparr>bundle_size := 16, dynamic_text_start := 0x30000, dynamic_text_end := 0x100000,
     text_shm := Some 1, app_mem := \<lambda>_. 5\<rparr>"

definition text_space :: shm_space where
  "text_space = map_range 0x40030000 0xD0000 7 0 5 \<lparr>sp_map = \<lambda>_. None, sp_shm = \<lambda>_ _. 5, sp_calls = 0\<rparr>"

definition one_thread :: thread_table where
  "one_thread = \<lparr>threads = \<lparr>num_entries = 1, ptr_array = [Some 5], ptr_array_space = 1, available = [1], avail_ix = 0\<rparr>,
     num_threads = 1\<rparr>"

definition text_state :: dyn_state where
  "text_state = \<lparr>ds_app = text_app, ds_space = text_space, ds_text = \<lparr>shm_h = 7, shm_size = 0xD0000\<rparr>,
     ds_threads = one_thread, ds_gen = \<lambda>_. 0, ds_serial = fresh_serial\<rparr>"

definition text_env :: dyn_env where
  "text_env = \<lparr>de_os = page_host, de_valid = sample_env, de_tables = long_tables, de_stack = \<lambda>_. replicate 4 blank_state,
     de_serial = quiet_os, de_malloc = \<lambda>_. Some 0x90000000, de_stack_buf = 0xA0000000, de_realloc_ok = True, de_desc_ok = True\<rparr>"

lemmas text_sample = text_state_def text_app_def text_space_def text_env_def sample_app_def

lemma unat_window_sub:
  fixes x :: u32
  assumes "x - c < n" and "unat c + unat n < 2 ^ 32"
  shows "unat c \<le> unat x" "unat x < unat c + unat n"
proof -
  have "unat (x - c) < unat n" using assms(1) by (simp add: word_less_nat_alt)
  moreover have "unat (x - c + c) = unat (x - c) + unat c"
    using calculation assms(2) by (intro unat_add_no_wrap) simp
  ultimately show "unat c \<le> unat x" "unat x < unat c + unat n" by simp_all
qed

lemma text_user: "NaClIsUserAddr text_app x \<longleftrightarrow> 0x40000000 \<le> unat x \<and> unat x < 0x50000000"
  by (simp add: NaClIsUserAddr_def addr_limit_def text_app_def sample_app_def word_le_nat_alt word_less_nat_alt)

lemma text_ready: "dyn_ready text_state"
proof -
  have "text_bounds text_app"
    by (simp add: text_bounds_def app_space_def text_app_def sample_app_def)
  moreover have "window_fits text_app" by (simp add: window_fits_def text_app_def sample_app_def)
  moreover have "\<not> window_span text_app x" for x by (simp add: window_span_def text_app_def sample_app_def)
  then have "text_mapped text_state"
    by (auto simp: text_mapped_def Let_def text_state_def text_space_def map_range_def text_span_def text_app_def sample_app_def
        split: if_splits)
  moreover have "code_layout text_app" by (simp add: code_layout_def text_app_def)
  moreover have "table_ok text_app"
    by (simp add: table_ok_def regions_ok_def capacity_ok_def text_app_def sample_app_def)
  ultimately show ?thesis by (simp add: dyn_ready_def dyn_inv_def text_state_def)
qed

lemma page_host_ok: "host_ok page_host text_app"
proof -
  have "unat n \<le> 0x1000000" if "n \<le> (0x1000000 :: u32)" for n using that by (simp add: word_le_nat_alt)
  moreover have "\<not> NaClIsUserAddr text_app x" if "x - 0x80000000 < n" "n \<le> 0x1000000" for x n
    using unat_window_sub [OF that(1)] that(2) by (simp add: text_user word_le_nat_alt)
  ultimately show ?thesis
    by (fastforce simp: host_ok_def page_host_def fixed_maps_def maps_succeed_def unmaps_succeed_def split: if_splits)
qed

lemma text_own: "own_block page_host text_state 0x90000000 16"
proof -
  have "unat x \<ge> 0x90000000 \<and> unat x < 0x90000010" if "x - 0x90000000 < 16" for x :: u32
    using unat_window_sub [OF that] by simp
  moreover have "unat x \<ge> 0x80000000 \<and> unat x < 0x90000000" if "x - 0x80000000 < n" "n \<le> 0x1000000" for x n :: u32
    using unat_window_sub [OF that(1)] that(2) by (simp add: word_le_nat_alt)
  moreover have "unat x < 0x40100000" if "x - 0x40030000 < 0xD0000" for x :: u32
    using unat_window_sub [OF that] by simp
  ultimately show ?thesis
    unfolding own_block_def
    by (fastforce simp: text_state_def text_user text_space_def map_range_def page_host_def split: if_splits)
qed

lemma text_setting: "create_setting text_env 16 text_state"
  using text_ready page_host_ok text_own
  by (simp add: create_setting_def text_env_def text_state_def long_tables_typed)

theorem NaClTextSysDyncode_Create_total_witness:
  "\<exists>r st'. NaClTextSysDyncode_Create text_env 0x40000 0x200000 16 text_state = run_ok r st' \<and>
     r \<in> {0, - NACL_ABI_EINVAL, - NACL_ABI_EFAULT, - NACL_ABI_ENOMEM}"
  by (rule NaClTextSysDyncode_Create_total [OF text_setting])
    (simp add: map_offset_def text_state_def text_app_def)

lemma sample_validates:
  "case validate_pass sample_env long_tables (replicate 4 blank_state) 16 False 0x40000 0x90000000 16 (\<lambda>_. 5) of
     Some (Inr (_, rc)) \<Rightarrow> rc = Some 0 | _ \<Rightarrow> False"
  by code_simp

lemma text_accepts: "dest = 0x40000 \<or> dest = 0x30000 \<Longrightarrow> create_accepts text_app dest 0x200000 16"
  by (auto simp: create_accepts_def text_app_def sample_app_def NaClUserToSysAddrRange_def addr_limit_def kNaClBadAddress_def
      NACL_HALT_SLED_SIZE_def)

lemma text_proc_mem: "proc_mem text_state = (\<lambda>_. 5)"
  by (auto simp: proc_mem_def view_def fun_eq_iff text_state_def text_space_def map_range_def text_app_def split: option.splits)

lemma text_region_step:
  assumes "dest = 0x40000 \<or> dest = 0x30000"
  shows "\<exists>st2. region_step text_env dest 0x200000 16 0x90000000 text_state = Inr (st2, True) \<and> proc_mem st2 = (\<lambda>_. 5) \<and>
           ds_space st2 = text_space \<and> bundle_size (ds_app st2) = 16 \<and> \<not> validator_stub_out_mode (ds_app st2) \<and>
           dynamic_text_start (ds_app st2) = 0x30000 \<and> dynamic_mapcache_size (ds_app st2) = 0 \<and>
           dynamic_mapcache_offset (ds_app st2) = 0"
proof -
  let ?st1 = "copy_in 0x90000000 (NaClUserToSysAddrRange text_app 0x200000 16) 16 text_state"
  have none: "sp_map (ds_space text_state) x = None" if "x - 0x90000000 < 16" for x
    using text_own that unfolding own_block_def by blast
  have v1: "proc_mem ?st1 = (\<lambda>_. 5)"
    by (intro ext) (simp add: copy_in_own [OF none] text_proc_mem)
  have core: "app_core (ds_app ?st1) = app_core text_app"
    using set_private_app(1) [of _ text_state] by (simp add: copy_in_def text_state_def)
  note f = app_core_fields [OF core]
  have "dynamic_regions (ds_app ?st1) = []" "dynamic_regions_allocated (ds_app ?st1) = 0"
    using f(7,8) by (simp_all add: text_app_def sample_app_def)
  then have c: "NaClDynamicRegionCreate True (ds_app ?st1) (NaClUserToSysAddrRange text_app dest 16) 16 =
      Inr ((ds_app ?st1)\<lparr>dynamic_regions_allocated := 32,
        dynamic_regions := [new_region (NaClUserToSysAddrRange text_app dest 16) 16]\<rparr>, True)"
    by (simp add: NaClDynamicRegionCreate_def Let_def NaClDynamicRegionFindClosestLEQ_def kMinDynamicRegionsAllocated_def
        scroll.simps shift_in.simps new_region_def)
  let ?st2 = "?st1\<lparr>ds_app := (ds_app ?st1)\<lparr>dynamic_regions_allocated := 32,
        dynamic_regions := [new_region (NaClUserToSysAddrRange text_app dest 16) 16]\<rparr>\<rparr>"
  have app: "ds_app text_state = text_app" by (simp add: text_state_def)
  have "region_step text_env dest 0x200000 16 0x90000000 text_state = Inr (?st2, True)"
    using c unfolding region_step_def Let_def app by (simp add: text_env_def)
  moreover have "proc_mem ?st2 = (\<lambda>_. 5)" using v1 by (simp add: proc_mem_def)
  moreover have "ds_space ?st2 = text_space" by (simp add: copy_in_def set_private_app(2) text_state_def)
  moreover have "bundle_size (ds_app ?st2) = 16" "\<not> validator_stub_out_mode (ds_app ?st2)" "dynamic_text_start (ds_app ?st2) = 0x30000"
    using f(3,4,11) by (simp_all add: text_app_def sample_app_def)
  moreover have "dynamic_mapcache_size (ds_app ?st2) = 0" "dynamic_mapcache_offset (ds_app ?st2) = 0"
    by (simp_all add: copy_in_def set_private_def Let_def text_state_def text_app_def sample_app_def)
  ultimately show ?thesis by blast
qed

lemma text_validates:
  assumes "bundle_size nap = 16" and "\<not> validator_stub_out_mode nap"
  shows "\<exists>m. NaClValidateCode (de_valid text_env) (de_tables text_env) (de_stack text_env) nap 0x40000 0x90000000 16 (\<lambda>_. 5)
           = Some (Inr (LOAD_OK, m))"
  using sample_validates assms
  by (auto simp: NaClValidateCode_def final_pass_def text_env_def bind_run_Inr split: option.splits sum.splits prod.splits)

lemma text_window:
  assumes "dynamic_text_start (ds_app st) = 0x30000" and "dynamic_mapcache_size (ds_app st) = 0"
    and "dynamic_mapcache_offset (ds_app st) = 0"
  shows "\<exists>st4. NaclTextMapWrapper text_env 0x40000 16 st = run_ok (Some 0x80000000) st4"
proof -
  have fm: "fixed_maps page_host" "maps_succeed page_host" by (simp_all add: fixed_maps_def maps_succeed_def page_host_def)
  have "os_find_space page_host (sp_calls (ds_space st)) (0x10000 * of_nat 1) = Some 0x80000000" by (simp add: page_host_def)
  then obtain sp' where m: "NaClDescImcShmMap page_host (ds_text st) (NaClDescEffectorShmUnmapMemory page_host) 0
      0x10000 3 1 (ucast (0x10000 :: u32)) (ds_space st) = Some (Inr (0x80000000, sp'))"
    using ShmMap_request [OF fm(1), of 3 "0x80000000" 1 "0x10000" 1 0 "host_called (ds_space st)" "ds_space st" "ds_text st"] fm(2)
    by auto
  have c: "PROT_READ OR PROT_WRITE = 3" "NACL_ABI_MAP_SHARED = 1"
    by (simp_all add: PROT_READ_def PROT_WRITE_def NACL_ABI_MAP_SHARED_def)
  have o: "map_offset (ds_app st) 0x40000 = 0x10000" "map_size (ds_app st) 0x40000 16 = 0x10000"
    using assms(1) by (simp_all add: map_offset_def map_size_def)
  have "CachedMapWritableText text_env 0x10000 0x10000 st = run_ok 0x80000000
      (st\<lparr>ds_app := (ds_app st)\<lparr>dynamic_mapcache_offset := 0x10000, dynamic_mapcache_size := 0x10000,
         dynamic_mapcache_ret := 0x80000000\<rparr>, ds_space := sp'\<rparr>)"
    using m assms(2,3) by (simp add: CachedMapWritableText_def Let_def text_env_def c)
  then show ?thesis
    using assms(1) by (simp add: NaclTextMapWrapper_def Let_def o NaClPtrIsNegErrno_def)
qed

lemma text_creates: "\<exists>st'. NaClTextSysDyncode_Create text_env 0x40000 0x200000 16 text_state = run_ok 0 st'"
proof -
  obtain r st' where ret: "NaClTextSysDyncode_Create text_env 0x40000 0x200000 16 text_state = run_ok r st'"
    using Create_returns [OF text_setting, of "0x40000" "0x200000"] by (auto simp: map_offset_def text_state_def text_app_def)
  obtain st2 where s: "region_step text_env 0x40000 0x200000 16 0x90000000 text_state = Inr (st2, True)"
    "proc_mem st2 = (\<lambda>_. 5)" "bundle_size (ds_app st2) = 16" "\<not> validator_stub_out_mode (ds_app st2)"
    "dynamic_text_start (ds_app st2) = 0x30000" "dynamic_mapcache_size (ds_app st2) = 0" "dynamic_mapcache_offset (ds_app st2) = 0"
    using text_region_step [of "0x40000"] by auto
  obtain m where v: "NaClValidateCode (de_valid text_env) (de_tables text_env) (de_stack text_env) (ds_app st2) 0x40000 0x90000000 16
      (proc_mem st2) = Some (Inr (LOAD_OK, m))" unfolding s(2) using text_validates [OF s(3,4)] by blast
  have c: "de_malloc text_env 16 = Some 0x90000000" and acc: "create_accepts (ds_app text_state) 0x40000 0x200000 16"
    using text_accepts [of "0x40000"] by (simp_all add: text_env_def text_state_def)
  have "dynamic_text_start (ds_app (set_private m st2)) = 0x30000" "dynamic_mapcache_size (ds_app (set_private m st2)) = 0"
    "dynamic_mapcache_offset (ds_app (set_private m st2)) = 0"
    using s(5-7) by (simp_all add: set_private_def Let_def)
  from text_window [OF this] obtain st4 where w: "NaclTextMapWrapper text_env 0x40000 16 (set_private m st2) = run_ok (Some 0x80000000) st4"
    by blast
  have "r = 0"
    using ret unfolding Create_step [OF acc c s(1) v] by (auto simp: w bind_run_Inr)
  then show ?thesis using ret by blast
qed

text \<open>C5: Outside the debugging modes of the loader, that is when the validator's result is not ignored
  (\<open>sel_ldr -c\<close>) and stub-out mode is off, and as long as the host's \<open>mmap\<close> and \<open>munmap\<close> calls and the
  runtime's reallocations do not fail: when \<open>dyncode_create\<close> succeeds for a positive size, the bytes the program now sees in the requested range are code the
  validator accepted, read once from the program's memory into a private copy, with the instructions
  the processor lacks replaced by halts; no other byte the program can address has changed. The range
  lies in the dynamic text and was free, it is now registered, and the state is well formed again.\<close>

theorem NaClTextSysDyncode_Create_sandboxed:
  assumes "create_setting env sz st" and "\<not> validator_stub_out_mode (ds_app st)" "\<not> ignore_validator_result (ds_app st)"
    and "sz \<noteq> 0" and "NaClTextSysDyncode_Create env dest src sz st = run_ok 0 st'"
  shows "(\<exists>code. installed (de_tables env) (cpu (de_valid env)) st dest src sz code st') \<and>
         in_text (ds_app st) dest sz \<and> dyn_ready st' \<and>
         set (dynamic_regions (ds_app st')) = insert (new_region (mem_start (ds_app st) + dest) sz) (set (dynamic_regions (ds_app st))) \<and>
         (\<forall>r \<in> set (dynamic_regions (ds_app st)). \<not> overlaps r (unat (mem_start (ds_app st) + dest)) (unat sz))"
proof -
  have "dyn_ready st" "host_ok (de_os env) (ds_app st)" "\<And>k. length (de_stack env k) = 4" "de_realloc_ok env"
    "\<And>a. de_malloc env sz = Some a \<Longrightarrow> own_block (de_os env) st a sz"
    using assms(1) by (simp_all add: create_setting_def)
  note c = Create_installs [OF this(1-4) assms(2,3) this(5) assms(4,5)]
  show ?thesis using c by blast
qed

theorem NaClTextSysDyncode_Create_sandboxed_witness:
  "\<exists>st'. NaClTextSysDyncode_Create text_env 0x40000 0x200000 16 text_state = run_ok 0 st' \<and>
     set (dynamic_regions (ds_app st')) = {new_region 0x40040000 16}"
proof -
  obtain st' where r: "NaClTextSysDyncode_Create text_env 0x40000 0x200000 16 text_state = run_ok 0 st'"
    using text_creates by blast
  have "\<not> validator_stub_out_mode (ds_app text_state)" "\<not> ignore_validator_result (ds_app text_state)"
    by (simp_all add: text_state_def text_app_def sample_app_def)
  from NaClTextSysDyncode_Create_sandboxed [OF text_setting this _ r] r show ?thesis
    by (simp add: text_state_def text_app_def sample_app_def)
qed

section \<open>The first 64 KiB of the dynamic text\<close>

lemma CachedMap_aborts:
  assumes inv: "dyn_inv st" and host: "host_ok (de_os env) (ds_app st)" and "sz > 0"
    and "dynamic_mapcache_offset (ds_app st) \<noteq> 0 \<or> dynamic_mapcache_size (ds_app st) = 0"
  shows "CachedMapWritableText env 0 sz st = Some (Inl CheckFailed)"
proof -
  let ?nap = "ds_app st" and ?os = "de_os env"
  have wf: "window_fits ?nap" using inv by (simp add: dyn_inv_def)
  have uo: "unmaps_succeed ?os" using host by (simp add: host_ok_def)
  obtain sp1 where sp1: "(if dynamic_mapcache_size ?nap > 0 \<and> \<not> NaClPtrIsNegErrno (dynamic_mapcache_ret ?nap) then
           bind_run (NaClDescImcShmUnmapUnsafe ?os NaClDescEffectorShmMapAnonymousMemory
                       (dynamic_mapcache_ret ?nap) (dynamic_mapcache_size ?nap) (ds_space st)) (\<lambda>(rv, sp).
           if 0 \<noteq> rv then Some (Inl LogFatal) else Some (Inr sp))
         else Some (Inr (ds_space st))) = Some (Inr sp1)"
    using old_window_gone [OF wf uo, of NaClDescEffectorShmMapAnonymousMemory "ds_space st"] by blast
  have miss: "0 \<noteq> dynamic_mapcache_offset ?nap \<or> sz \<noteq> dynamic_mapcache_size ?nap" using assms(3,4) by auto
  show ?thesis unfolding CachedMapWritableText_def Let_def sp1 using miss assms(3) by simp
qed

text \<open>C7: A request to create code in the first 64 KiB of the dynamic text that passes every check and
  whose code the validator accepts does not return an error: \<open>CachedMapWritableText\<close> takes offset 0 for the
  request to clear its cache, and its \<open>CHECK(offset > 0)\<close> aborts the whole runtime. The region is
  registered by then.\<close>

theorem NaClTextSysDyncode_Create_first_page:
  assumes "create_setting env sz st" and "create_accepts (ds_app st) dest src sz" and "de_malloc env sz = Some code"
    and "region_step env dest src sz code st = Inr (st2, True)"
    and "NaClValidateCode (de_valid env) (de_tables env) (de_stack env) (ds_app st2) dest code sz (proc_mem st2)
           = Some (Inr (LOAD_OK, m))"
    and "map_offset (ds_app st) dest = 0"
    and "dynamic_mapcache_offset (ds_app st) \<noteq> 0 \<or> dynamic_mapcache_size (ds_app st) = 0"
  shows "NaClTextSysDyncode_Create env dest src sz st = Some (Inl CheckFailed)"
proof -
  have ready: "dyn_ready st" and host: "host_ok (de_os env) (ds_app st)" and re: "de_realloc_ok env"
    using assms(1) by (simp_all add: create_setting_def)
  note small = accepted_small [OF ready assms(2)]
  have k: "dyn_inv st2" "in_text (ds_app st2) dest sz" "NaClIsUserAddr (ds_app st2) = NaClIsUserAddr (ds_app st)"
    "map_offset (ds_app st2) dest = 0" "dynamic_mapcache_offset (ds_app st2) = dynamic_mapcache_offset (ds_app st)"
    "dynamic_mapcache_size (ds_app st2) = dynamic_mapcache_size (ds_app st)"
    using region_step_result [OF ready assms(2) re, of code] assms(4,6) by auto
  let ?st3 = "set_private m st2"
  note f = app_core_fields [OF set_private_app(1) [of m st2]] same_app_spans [OF set_private_app(1) [of m st2]]
  have inv3: "dyn_inv ?st3" using k(1) by simp
  have host3: "host_ok (de_os env) (ds_app ?st3)" using host k(3) f(14) by (simp add: host_ok_def)
  have rng3: "in_text (ds_app ?st3) dest sz" and off3: "map_offset (ds_app ?st3) dest = 0"
    using k(2,4) f(4,5) by (simp_all add: in_text_def map_offset_def)
  have cache: "dynamic_mapcache_offset (ds_app ?st3) \<noteq> 0 \<or> dynamic_mapcache_size (ds_app ?st3) = 0"
    using k(5,6) assms(7) by (simp add: set_private_def Let_def)
  have tb: "text_bounds (ds_app ?st3)" using inv3 by (simp add: dyn_inv_def)
  have "map_size (ds_app ?st3) dest sz > 0" using map_size_pos [OF tb rng3 small(2)] by (simp add: word_gt_0)
  from CachedMap_aborts [OF inv3 host3 this cache] off3
  have "NaclTextMapWrapper env dest sz ?st3 = Some (Inl CheckFailed)"
    by (simp add: NaclTextMapWrapper_def Let_def)
  then show ?thesis unfolding Create_step [OF assms(2,3,4,5)] by simp
qed

lemma sample_validates_low:
  "case validate_pass sample_env long_tables (replicate 4 blank_state) 16 False 0x30000 0x90000000 16 (\<lambda>_. 5) of
     Some (Inr (_, rc)) \<Rightarrow> rc = Some 0 | _ \<Rightarrow> False"
  by code_simp

theorem NaClTextSysDyncode_Create_first_page_witness:
  "NaClTextSysDyncode_Create text_env 0x30000 0x200000 16 text_state = Some (Inl CheckFailed)"
proof -
  obtain st2 where s: "region_step text_env 0x30000 0x200000 16 0x90000000 text_state = Inr (st2, True)"
    "proc_mem st2 = (\<lambda>_. 5)" "bundle_size (ds_app st2) = 16" "\<not> validator_stub_out_mode (ds_app st2)"
    using text_region_step [of "0x30000"] by auto
  obtain m where v: "NaClValidateCode (de_valid text_env) (de_tables text_env) (de_stack text_env) (ds_app st2) 0x30000 0x90000000 16
      (proc_mem st2) = Some (Inr (LOAD_OK, m))"
    unfolding s(2) using sample_validates_low s(3,4)
    by (auto simp: NaClValidateCode_def final_pass_def text_env_def bind_run_Inr split: option.splits sum.splits prod.splits)
  have c: "de_malloc text_env 16 = Some 0x90000000" and acc: "create_accepts (ds_app text_state) 0x30000 0x200000 16"
    using text_accepts [of "0x30000"] by (simp_all add: text_env_def text_state_def)
  show ?thesis
    by (rule NaClTextSysDyncode_Create_first_page [OF text_setting acc c s(1) v])
      (simp_all add: map_offset_def text_state_def text_app_def sample_app_def)
qed

end
