(* ===== verification/Dyn_Delete.thy ===== *)
theory Dyn_Delete
  imports Dyn_Calls
begin

text \<open>
  What \<open>dyncode_delete\<close> of \<open>service_runtime/nacl_text.c\<close> guarantees. A first request closes the bundle heads of
  the region and starts a new deletion generation; the region is given back only when every thread has
  made a call since then, and it is given back as soon as all have.
\<close>

section \<open>The minimum over the threads\<close>

text \<open>C40: With at least one thread and the thread count of the table right, \<open>NaClMinimumThreadGeneration\<close>
  returns the least deletion generation of the live threads, or follows a NULL pointer; the latter only
  when a live thread sits in a slot at or beyond the number of threads, as happens after a thread with
  a lower number has exited.\<close>

theorem NaClMinimumThreadGeneration_correct:
  assumes "thread_inv (ds_threads st)" and "num_threads (ds_threads st) \<noteq> 0"
    and "unat (num_threads (ds_threads st)) < 2 ^ 31"
  shows "case NaClMinimumThreadGeneration st of
       Inl e \<Rightarrow> e = NullDeref \<and> (\<exists>i \<ge> unat (num_threads (ds_threads st)). i \<in> dom (da_map (threads (ds_threads st))))
     | Inr low \<Rightarrow> (\<forall>t \<in> live_threads st. low \<le> ds_gen st t) \<and> (\<exists>t \<in> live_threads st. low = ds_gen st t)"
  using assms by (rule minimum_generation)

definition gap_threads :: thread_table where
  "gap_threads = \<lparr>threads = \<lparr>num_entries = 2, ptr_array = [None, Some 9], ptr_array_space = 2, available = [2], avail_ix = 0\<rparr>,
     num_threads = 1\<rparr>"

lemma one_thread_inv: "thread_inv one_thread" "da_map (threads one_thread) = [0 \<mapsto> 5]"
proof -
  show m: "da_map (threads one_thread) = [0 \<mapsto> 5]" by (auto simp: da_map_def one_thread_def fun_eq_iff)
  have "da_inv (threads one_thread)"
    by (auto simp: da_inv_def nwords_def one_thread_def bit_1_iff)
  then show "thread_inv one_thread" unfolding thread_inv_def m by (simp add: one_thread_def)
qed

lemma gap_threads_inv: "thread_inv gap_threads" "da_map (threads gap_threads) = [1 \<mapsto> 9]"
proof -
  show m: "da_map (threads gap_threads) = [1 \<mapsto> 9]"
    by (auto simp: da_map_def gap_threads_def fun_eq_iff less_2_cases_iff)
  have "da_inv (threads gap_threads)"
    by (auto simp: da_inv_def nwords_def gap_threads_def bit_2_iff less_2_cases_iff)
  then show "thread_inv gap_threads" unfolding thread_inv_def m by (simp add: gap_threads_def)
qed

theorem NaClMinimumThreadGeneration_correct_witness:
  "NaClMinimumThreadGeneration (text_state\<lparr>ds_threads := gap_threads\<rparr>) = Inl NullDeref \<and>
   (\<exists>i \<ge> unat (num_threads gap_threads). i \<in> dom (da_map (threads gap_threads)))"
proof -
  let ?st = "text_state\<lparr>ds_threads := gap_threads\<rparr>"
  have "NaClMinimumThreadGeneration ?st = Inl NullDeref"
    by (simp add: NaClMinimumThreadGeneration_def gap_threads_def NaClGetThreadMu_def DynArrayGet_def)
  with NaClMinimumThreadGeneration_correct [of ?st] gap_threads_inv show ?thesis
    by (simp add: gap_threads_def)
qed

section \<open>Closing a region\<close>

lemma window_alias:
  assumes inv: "dyn_inv st" and win: "window_at st dest sz a" and rng: "in_text (ds_app st) dest sz"
    and x: "x - (mem_start (ds_app st) + dest) < sz"
  shows "proc_mem st (a + (x - (mem_start (ds_app st) + dest))) = proc_mem st x"
proof -
  let ?nap = "ds_app st" and ?h = "shm_h (ds_text st)" and ?e = "x - (mem_start (ds_app st) + dest)"
  have tb: "text_bounds ?nap" using inv by (simp add: dyn_inv_def)
  have "a + ?e - a < sz" using x by simp
  note w = window_span_at(1) [OF win this]
  have t: "text_span ?nap x" by (rule in_text_span [OF tb rng x])
  have at: "dynamic_mapcache_offset ?nap + (a - dynamic_mapcache_ret ?nap) = dest - dynamic_text_start ?nap"
    using win by (simp add: window_at_def)
  have "sp_map (ds_space st) (a + ?e) = Some (?h, dynamic_mapcache_offset ?nap + (a + ?e - dynamic_mapcache_ret ?nap), 3)"
    using inv w unfolding dyn_inv_def text_mapped_def Let_def by blast
  moreover have "dynamic_mapcache_offset ?nap + (a + ?e - dynamic_mapcache_ret ?nap) = x - text_base ?nap"
  proof -
    have "dynamic_mapcache_offset ?nap + (a + ?e - dynamic_mapcache_ret ?nap)
        = dynamic_mapcache_offset ?nap + (a - dynamic_mapcache_ret ?nap) + ?e" by simp
    then show ?thesis unfolding at by simp
  qed
  moreover have "sp_map (ds_space st) x = Some (?h, x - text_base ?nap, 5)"
    using inv t unfolding dyn_inv_def text_mapped_def Let_def by blast
  ultimately show ?thesis using proc_mem_Some by metis
qed

text \<open>Where a region lies that \<open>dyncode_create\<close> has made.\<close>

definition region_placed :: "NaClApp \<Rightarrow> u32 \<Rightarrow> u32 \<Rightarrow> bool" where
  "region_placed nap dest sz \<longleftrightarrow> in_text nap dest sz \<and> 0 < unat sz \<and>
     dest AND (bundle_size nap - 1) = 0 \<and> sz AND (bundle_size nap - 1) = 0"

text \<open>The memory after the heads of the bundles of a range have been replaced.\<close>

definition closed_view :: "dyn_state \<Rightarrow> u32 \<Rightarrow> u32 \<Rightarrow> uintptr_t \<Rightarrow> u8" where
  "closed_view st dest sz x =
     (let e = x - (mem_start (ds_app st) + dest) in
      if e < sz \<and> unat e mod unat (bundle_size (ds_app st)) < 4 then 0xf4 else proc_mem st x)"

lemma closed_heads:
  assumes "bundled a sz b" and "y - a < sz"
  shows "heads_halted (unat b) (unat sz div unat b) (unat (y - a)) \<longleftrightarrow> unat (y - a) mod unat b < 4"
proof -
  have b: "unat b = 16 \<or> unat b = 32" "sz AND (b - 1) = 0" "b = 16 \<or> b = 32" using assms(1) by (auto simp: bundled_def)
  have "unat sz mod unat b = 0" using aligned_mod [OF b(3)] b(2) by blast
  moreover have "unat (y - a) < unat sz" using assms(2) by (simp add: word_less_nat_alt)
  ultimately have "unat (y - a) div unat b < unat sz div unat b"
    using b(1) by (metis div_mult_mod_eq add.right_neutral less_mult_imp_div_less)
  then show ?thesis by (simp add: heads_halted_def)
qed

lemma close_step:
  assumes inv: "dyn_inv st" and host: "host_ok (de_os env) (ds_app st)" and lay: "code_layout (ds_app st)"
    and pl: "region_placed (ds_app st) dest sz"
    and wrap: "NaclTextMapWrapper env dest sz st = run_ok (Some a) st1"
    and rep: "ReplaceBundleHeadsWithHalts a sz (bundle_size (ds_app st1)) (proc_mem st1, []) = Some (m, es)"
    and clear: "NaclTextMapClearCacheIfNeeded env dest sz (write_text m st1) = Some (Inr st')"
  shows "dyn_inv st'" "same_but_maps st st'" "NaClIsUserAddr (ds_app st) x \<Longrightarrow> proc_mem st' x = closed_view st dest sz x"
proof -
  have rng: "in_text (ds_app st) dest sz" and pos: "0 < unat sz"
    and al: "dest AND (bundle_size (ds_app st) - 1) = 0" "sz AND (bundle_size (ds_app st) - 1) = 0"
    using pl by (simp_all add: region_placed_def)
  note w = MapWrapper_inv [OF inv host rng pos wrap]
  note win = w(6) [OF refl]
  have core: "app_core (ds_app st1) = app_core (ds_app st)" using MapWrapper_same [OF wrap] by (simp add: same_but_maps_def)
  note f = app_core_fields [OF core] same_app_spans [OF core]
  have rng1: "in_text (ds_app st1) dest sz" using rng f by (simp add: in_text_def)
  let ?B = "unat (bundle_size (ds_app st))"
  note b = mapped_bundled [OF inv host lay rng pos al wrap]
  have m: "m = overlay (proc_mem st1) a (heads_halted ?B (unat sz div ?B)) (\<lambda>_. 0xf4)"
    using ReplaceBundleHeads_result [OF b, of "proc_mem st1" "[]"] rep f(3) by auto
  have Bsz: "unat sz mod ?B = 0" using al(2) lay aligned_mod unfolding code_layout_def by blast
  have at: "m y = (if y - a < sz then (if unat (y - a) mod ?B < 4 then 0xf4 else proc_mem st1 (a + (y - a))) else proc_mem st1 y)" for y
  proof (cases "y - a < sz")
    case True
    then show ?thesis using closed_heads [OF b True] f(3) by (simp add: m overlay_def)
  next
    case False
    then have "unat sz \<le> unat (y - a)" by (simp add: word_less_nat_alt)
    then have "unat sz div ?B \<le> unat (y - a) div ?B" by (rule div_le_mono)
    then show ?thesis using False by (simp add: m overlay_def heads_halted_def)
  qed
  note v = window_step [where v = "\<lambda>y. if unat y mod ?B < 4 then 0xf4 else proc_mem st1 (a + y)", OF inv host rng pos wrap at clear]
  show "dyn_inv st'" "same_but_maps st st'" by (rule v(1), rule v(2))
  assume u: "NaClIsUserAddr (ds_app st) x"
  then show "proc_mem st' x = closed_view st dest sz x"
    using v(3) window_alias [OF w(1) win rng1, of x] f(2) user_view_kept [OF inv host rng pos wrap u]
    by (simp add: closed_view_def Let_def)
qed

section \<open>Giving a region back\<close>

lemma SetThreadGeneration_result:
  assumes "NaClSetThreadGeneration natp g st = Inr st'"
  shows "st' = st\<lparr>ds_gen := (ds_gen st)(natp := g)\<rparr>"
  using assms by (auto simp: NaClSetThreadGeneration_def split: if_splits)

lemma RegionDelete_result:
  assumes "NaClDynamicRegionDelete ok nap r = Inr nap'" and "r < length (dynamic_regions nap)"
  shows "\<exists>alloc. nap' = nap\<lparr>dynamic_regions := take r (dynamic_regions nap) @ drop (Suc r) (dynamic_regions nap),
           dynamic_regions_allocated := alloc\<rparr>"
proof (cases "dynamic_regions_allocated nap > kMinDynamicRegionsAllocated \<and>
    dynamic_regions_allocated nap div 4 > int (length (take r (dynamic_regions nap) @ drop (Suc r) (dynamic_regions nap)))")
  case True
  with assms have "nap' = nap\<lparr>dynamic_regions := take r (dynamic_regions nap) @ drop (Suc r) (dynamic_regions nap),
      dynamic_regions_allocated := dynamic_regions_allocated nap div 2\<rparr>"
    by (simp add: NaClDynamicRegionDelete_def Let_def shift_down_eq split: if_splits)
  then show ?thesis by blast
next
  case False
  with assms have "nap' = nap\<lparr>dynamic_regions := take r (dynamic_regions nap) @ drop (Suc r) (dynamic_regions nap),
      dynamic_regions_allocated := dynamic_regions_allocated nap\<rparr>"
    by (simp add: NaClDynamicRegionDelete_def Let_def shift_down_eq split: if_splits)
  then show ?thesis by blast
qed

text \<open>The thread table as \<open>dyncode_delete\<close> needs it.\<close>

definition threads_ok :: "dyn_state \<Rightarrow> bool" where
  "threads_ok st \<longleftrightarrow> thread_inv (ds_threads st) \<and> num_threads (ds_threads st) \<noteq> 0 \<and>
     unat (num_threads (ds_threads st)) < 2 ^ 31"

lemma finish_delete_result:
  assumes fin: "finish_delete env natp r st = run_ok 0 st'" and r: "r < length (dynamic_regions (ds_app st))"
    and tok: "threads_ok st"
  shows "dynamic_regions (ds_app st') = take r (dynamic_regions (ds_app st)) @ drop (Suc r) (dynamic_regions (ds_app st))"
    and "\<forall>t \<in> live_threads st. delete_generation (dynamic_regions (ds_app st) ! r) \<le> ds_gen st' t"
    and "proc_mem st' = proc_mem st"
proof -
  obtain st1 low nap2 where s: "NaClSetThreadGeneration natp (dynamic_delete_generation (ds_app st)) st = Inr st1"
    and low: "NaClMinimumThreadGeneration st1 = Inr low"
    and le: "delete_generation (dynamic_regions (ds_app st1) ! r) \<le> low"
    and del: "NaClDynamicRegionDelete (de_realloc_ok env) (ds_app st1) r = Inr nap2"
    and st': "st' = st1\<lparr>ds_app := nap2\<rparr>"
    using fin by (auto simp: finish_delete_def bind_run_Inr NACL_ABI_EAGAIN_def split: if_splits)
  note st1 = SetThreadGeneration_result [OF s]
  have "threads_ok st1" using tok st1 by (simp add: threads_ok_def)
  then have "\<forall>t \<in> live_threads st1. low \<le> ds_gen st1 t"
    using minimum_generation [of st1] low by (simp add: threads_ok_def)
  then show "\<forall>t \<in> live_threads st. delete_generation (dynamic_regions (ds_app st) ! r) \<le> ds_gen st' t"
    using le st1 st' by (auto simp: live_threads_def)
  obtain alloc where "nap2 = (ds_app st)\<lparr>dynamic_regions := take r (dynamic_regions (ds_app st)) @ drop (Suc r) (dynamic_regions (ds_app st)),
           dynamic_regions_allocated := alloc\<rparr>"
    using RegionDelete_result [OF del] r st1 by auto
  then show "dynamic_regions (ds_app st') = take r (dynamic_regions (ds_app st)) @ drop (Suc r) (dynamic_regions (ds_app st))"
    and "proc_mem st' = proc_mem st"
    using st1 st' by (simp_all add: proc_mem_def)
qed

lemma close_region_result:
  assumes close: "close_region env dest sz r st = run_ok None st'"
    and inv: "dyn_inv st" and host: "host_ok (de_os env) (ds_app st)" and lay: "code_layout (ds_app st)"
    and pl: "region_placed (ds_app st) dest sz"
  shows "dynamic_regions (ds_app st') = (dynamic_regions (ds_app st))[r := (dynamic_regions (ds_app st) ! r)
           \<lparr>delete_generation := dynamic_delete_generation (ds_app st) + 1\<rparr>]"
    and "ds_threads st' = ds_threads st" and "ds_gen st' = ds_gen st"
    and "dynamic_delete_generation (ds_app st') = dynamic_delete_generation (ds_app st) + 1"
    and "dynamic_regions_allocated (ds_app st') = dynamic_regions_allocated (ds_app st)"
    and "NaClIsUserAddr (ds_app st) x \<Longrightarrow> proc_mem st' x = closed_view st dest sz x"
proof -
  obtain a st1 m es st3 where wrap: "NaclTextMapWrapper env dest sz st = run_ok (Some a) st1"
    and rep: "ReplaceBundleHeadsWithHalts a sz (bundle_size (ds_app st1)) (proc_mem st1, []) = Some (m, es)"
    and clear: "NaclTextMapClearCacheIfNeeded env dest sz (write_text m st1) = Some (Inr st3)"
    and st': "st' = st3\<lparr>ds_app := (ds_app st3)\<lparr>dynamic_delete_generation := dynamic_delete_generation (ds_app st3) + 1,
      dynamic_regions := (dynamic_regions (ds_app st3))[r := (dynamic_regions (ds_app st3) ! r)
        \<lparr>delete_generation := dynamic_delete_generation (ds_app st3) + 1\<rparr>]\<rparr>\<rparr>"
    using close by (auto simp: close_region_def Let_def bind_run_Inr split: if_splits option.splits)
  note c = close_step [OF inv host lay pl wrap rep clear]
  have core: "app_core (ds_app st3) = app_core (ds_app st)" and t: "ds_threads st3 = ds_threads st" "ds_gen st3 = ds_gen st"
    using c(2) by (simp_all add: same_but_maps_def)
  note f = app_core_fields [OF core]
  show "dynamic_regions (ds_app st') = (dynamic_regions (ds_app st))[r := (dynamic_regions (ds_app st) ! r)
           \<lparr>delete_generation := dynamic_delete_generation (ds_app st) + 1\<rparr>]"
    "ds_threads st' = ds_threads st" "ds_gen st' = ds_gen st"
    "dynamic_delete_generation (ds_app st') = dynamic_delete_generation (ds_app st) + 1"
    "dynamic_regions_allocated (ds_app st') = dynamic_regions_allocated (ds_app st)"
    using st' t f(7-9) by simp_all
  assume "NaClIsUserAddr (ds_app st) x"
  then show "proc_mem st' x = closed_view st dest sz x" using c(3) st' by (simp add: proc_mem_def)
qed

lemma user_range_fits:
  assumes "app_space nap" and "NaClUserToSysAddrRange nap dest sz \<noteq> kNaClBadAddress"
  shows "unat (NaClUserToSysAddrRange nap dest sz) + unat sz < 2 ^ 32"
  using UserToSysAddrRange_cases(2-4) [OF assms] assms(1) by (simp add: app_space_def)

lemma close_region_errors:
  assumes "close_region env dest sz r st = run_ok (Some rv) st'"
  shows "rv \<noteq> 0"
  using assms
  by (auto simp: close_region_def Let_def bind_run_Inr NACL_ABI_EFAULT_def NACL_ABI_ENOMEM_def split: if_splits option.splits)

lemma Delete_first:
  assumes run: "NaClTextSysDyncode_Delete env natp dest sz st = run_ok 0 st'" and sz: "sz \<noteq> 0"
    and sp: "app_space (ds_app st)" and ok: "regions_ok (dynamic_regions (ds_app st))"
  obtains r where "r < length (dynamic_regions (ds_app st))"
    "dr_start (dynamic_regions (ds_app st) ! r) = mem_start (ds_app st) + dest" "dr_size (dynamic_regions (ds_app st) ! r) = sz"
    "if delete_generation (dynamic_regions (ds_app st) ! r) < 0
     then \<exists>st1. close_region env dest sz r st = run_ok None st1 \<and> finish_delete env natp r st1 = run_ok 0 st'
     else finish_delete env natp r st = run_ok 0 st'"
proof -
  let ?nap = "ds_app st"
  let ?a = "NaClUserToSysAddrRange ?nap dest sz" and ?rs = "dynamic_regions ?nap"
  have e: "NACL_ABI_EINVAL \<noteq> 0" "NACL_ABI_EFAULT \<noteq> 0" "NACL_ABI_ENOMEM \<noteq> 0"
    by (simp_all add: NACL_ABI_EINVAL_def NACL_ABI_EFAULT_def NACL_ABI_ENOMEM_def)
  obtain r where bad: "?a \<noteq> kNaClBadAddress" and find: "NaClDynamicRegionFind ?nap ?a sz = Some r"
    and eq: "dr_start (?rs ! r) = ?a" "dr_size (?rs ! r) = sz"
    and rest: "(if delete_generation (?rs ! r) < 0
       then bind_run (close_region env dest sz r st) (\<lambda>(early, st1).
              case early of Some rv \<Rightarrow> run_ok rv st1 | None \<Rightarrow> finish_delete env natp r st1)
       else finish_delete env natp r st) = run_ok 0 st'"
    using run sz e by (auto simp: NaClTextSysDyncode_Delete_def Let_def split: if_splits option.splits)
  note u = UserToSysAddrRange_cases [OF sp bad]
  have "unat ?a + unat sz < 2 ^ 32" using user_range_fits [OF sp bad] .
  then have r: "r < length ?rs"
    using Find_overlapping(2) [OF ok _ _ find] sz by (simp add: unat_gt_0)
  have "if delete_generation (?rs ! r) < 0
     then \<exists>st1. close_region env dest sz r st = run_ok None st1 \<and> finish_delete env natp r st1 = run_ok 0 st'
     else finish_delete env natp r st = run_ok 0 st'"
  proof (cases "delete_generation (?rs ! r) < 0")
    case True
    then obtain early st1 where c: "close_region env dest sz r st = run_ok early st1"
      and f: "(case early of Some rv \<Rightarrow> run_ok rv st1 | None \<Rightarrow> finish_delete env natp r st1) = run_ok 0 st'"
      using rest by (auto simp: bind_run_Inr)
    have "early = None" using c f close_region_errors by (cases early) auto
    then show ?thesis using True c f by auto
  next
    case False
    then show ?thesis using rest by simp
  qed
  moreover have "dr_start (?rs ! r) = mem_start ?nap + dest" using eq u by simp
  ultimately show thesis using that r eq(2) by blast
qed

text \<open>The regions \<open>dyncode_create\<close> registers lie in the dynamic text, in whole bundles.\<close>

definition regions_placed :: "NaClApp \<Rightarrow> bool" where
  "regions_placed nap \<longleftrightarrow>
     (\<forall>reg \<in> set (dynamic_regions nap). region_placed nap (dr_start reg - mem_start nap) (dr_size reg))"

text \<open>So a successful \<open>dyncode_create\<close> keeps it that way.\<close>

lemma Create_keeps_placed:
  assumes set: "create_setting env sz st" and mode: "\<not> validator_stub_out_mode (ds_app st)" "\<not> ignore_validator_result (ds_app st)"
    and nz: "sz \<noteq> 0" and run: "NaClTextSysDyncode_Create env dest src sz st = run_ok 0 st'"
    and pl: "regions_placed (ds_app st)"
  shows "regions_placed (ds_app st')"
proof -
  have "dyn_ready st" "host_ok (de_os env) (ds_app st)" "\<And>k. length (de_stack env k) = 4" "de_realloc_ok env"
    "\<And>a. de_malloc env sz = Some a \<Longrightarrow> own_block (de_os env) st a sz"
    using set by (simp_all add: create_setting_def)
  note c = Create_installs [OF this(1-4) mode this(5) nz run]
  have "dest AND (bundle_size (ds_app st) - 1) = 0" "sz AND (bundle_size (ds_app st) - 1) = 0"
    using Create_success [OF run nz] by metis+
  then have "region_placed (ds_app st) dest sz" using c(3) nz by (simp add: region_placed_def unat_gt_0)
  then show ?thesis using pl c(4,6-8) by (simp add: regions_placed_def region_placed_def new_region_def)
qed

text \<open>The generation a thread has to reach before the region can go.\<close>

definition closing_generation :: "NaClApp \<Rightarrow> NaClDynamicRegion \<Rightarrow> int" where
  "closing_generation nap reg =
     (if delete_generation reg < 0 then dynamic_delete_generation nap + 1 else delete_generation reg)"

text \<open>C8: When \<open>dyncode_delete\<close> of a non-empty range succeeds, the range is exactly one registered region, that
  region alone leaves the table, every live thread has by then reached the generation the deletion of
  the region started, and of the memory the program sees only the bundle heads of the region have
  changed, to HLT, and only if this call is the first request.\<close>

theorem NaClTextSysDyncode_Delete_waits:
  assumes "dyn_ready st" and "host_ok (de_os env) (ds_app st)" and "threads_ok st" and "regions_placed (ds_app st)"
    and "sz \<noteq> 0" and "NaClTextSysDyncode_Delete env natp dest sz st = run_ok 0 st'"
  shows "\<exists>reg \<in> set (dynamic_regions (ds_app st)).
     dr_start reg = mem_start (ds_app st) + dest \<and> dr_size reg = sz \<and>
     set (dynamic_regions (ds_app st')) = set (dynamic_regions (ds_app st)) - {reg} \<and>
     (\<forall>t \<in> live_threads st. closing_generation (ds_app st) reg \<le> ds_gen st' t) \<and>
     (\<forall>x. NaClIsUserAddr (ds_app st) x \<longrightarrow>
        proc_mem st' x = (if delete_generation reg < 0 then closed_view st dest sz x else proc_mem st x))"
proof -
  let ?nap = "ds_app st"
  let ?rs = "dynamic_regions ?nap"
  have inv: "dyn_inv st" and lay: "code_layout ?nap" and ok: "regions_ok ?rs"
    using assms(1) by (simp_all add: dyn_ready_def table_ok_def)
  have sp: "app_space ?nap" using inv by (simp add: dyn_inv_def text_bounds_def)
  obtain r where r: "r < length ?rs" "dr_start (?rs ! r) = mem_start ?nap + dest" "dr_size (?rs ! r) = sz"
    and steps: "if delete_generation (?rs ! r) < 0
     then \<exists>st1. close_region env dest sz r st = run_ok None st1 \<and> finish_delete env natp r st1 = run_ok 0 st'
     else finish_delete env natp r st = run_ok 0 st'"
    using Delete_first [OF assms(6,5) sp ok] by metis
  have mem: "?rs ! r \<in> set ?rs" using r(1) by simp
  note gone = delete_region_ok(2) [OF ok r(1)]
  have "set (dynamic_regions (ds_app st')) = set ?rs - {?rs ! r} \<and>
     (\<forall>t \<in> live_threads st. closing_generation ?nap (?rs ! r) \<le> ds_gen st' t) \<and>
     (\<forall>x. NaClIsUserAddr ?nap x \<longrightarrow>
        proc_mem st' x = (if delete_generation (?rs ! r) < 0 then closed_view st dest sz x else proc_mem st x))"
  proof (cases "delete_generation (?rs ! r) < 0")
    case True
    then obtain st1 where c: "close_region env dest sz r st = run_ok None st1" and f: "finish_delete env natp r st1 = run_ok 0 st'"
      using steps by auto
    have "region_placed ?nap dest sz" using assms(4) mem r(2,3) unfolding regions_placed_def by (metis add_diff_cancel_left')
    note c = close_region_result [OF c inv assms(2) lay this]
    have "threads_ok st1" using assms(3) c(2) by (simp add: threads_ok_def)
    note f = finish_delete_result [OF f _ this]
    show ?thesis using f c r(1) True gone by (simp add: closing_generation_def live_threads_def)
  next
    case False
    then have "finish_delete env natp r st = run_ok 0 st'" using steps by simp
    note f = finish_delete_result [OF this r(1) assms(3)]
    show ?thesis using f False gone by (simp add: closing_generation_def)
  qed
  then show ?thesis using mem r(2,3) by blast
qed

section \<open>Every region asked for is given back in the end\<close>

text \<open>
  The program runs \<open>dyncode_delete\<close> with size 0 in each of the threads \<open>ts\<close>, in that order, to report
  that they have left the closed regions.
\<close>

fun check_ins :: "dyn_env \<Rightarrow> u32 \<Rightarrow> nat list \<Rightarrow> dyn_state \<Rightarrow> dyn_state res option" where
  "check_ins env dest [] st = Some (Inr st)"
| "check_ins env dest (t # ts) st =
     bind_run (NaClTextSysDyncode_Delete env t dest 0 st) (\<lambda>(_, st1). check_ins env dest ts st1)"

text \<open>No thread is ahead of the application, and the threads occupy the first slots of the table.\<close>

definition generations_ok :: "dyn_state \<Rightarrow> bool" where
  "generations_ok st \<longleftrightarrow> threads_ok st \<and> (\<forall>t. ds_gen st t \<le> dynamic_delete_generation (ds_app st)) \<and>
     (\<forall>i \<in> dom (da_map (threads (ds_threads st))). i < unat (num_threads (ds_threads st)))"

lemma SetThreadGeneration_runs:
  assumes "ds_gen st t \<le> g"
  shows "NaClSetThreadGeneration t g st = Inr (st\<lparr>ds_gen := (ds_gen st)(t := g)\<rparr>)"
proof (cases "ds_gen st t = g")
  case True
  then have "(ds_gen st)(t := g) = ds_gen st" by auto
  then have "st\<lparr>ds_gen := (ds_gen st)(t := g)\<rparr> = st" by simp
  then show ?thesis using True by (simp add: NaClSetThreadGeneration_def)
next
  case False
  then show ?thesis using assms by (simp add: NaClSetThreadGeneration_def)
qed

definition delete_allowed :: "dyn_state \<Rightarrow> u32 \<Rightarrow> u32 \<Rightarrow> bool" where
  "delete_allowed st dest sz \<longleftrightarrow> text_shm (ds_app st) \<noteq> None \<and> allow_dyncode_replacement (ds_app st) \<and>
     NaClUserToSysAddrRange (ds_app st) dest sz \<noteq> kNaClBadAddress"

lemma check_ins_result:
  assumes "\<forall>t. ds_gen st t \<le> dynamic_delete_generation (ds_app st)" and "delete_allowed st dest 0"
  shows "check_ins env dest ts st =
     Some (Inr (st\<lparr>ds_gen := \<lambda>t. if t \<in> set ts then dynamic_delete_generation (ds_app st) else ds_gen st t\<rparr>))"
  using assms
proof (induction ts arbitrary: st)
  case Nil
  then show ?case by simp
next
  case (Cons t ts)
  let ?g = "dynamic_delete_generation (ds_app st)"
  let ?st1 = "st\<lparr>ds_gen := (ds_gen st)(t := ?g)\<rparr>"
  have "NaClTextSysDyncode_Delete env t dest 0 st = run_ok 0 ?st1"
    using Cons.prems SetThreadGeneration_runs [of st t ?g]
    by (auto simp: NaClTextSysDyncode_Delete_def delete_allowed_def Let_def)
  moreover have "check_ins env dest ts ?st1 =
      Some (Inr (?st1\<lparr>ds_gen := \<lambda>x. if x \<in> set ts then dynamic_delete_generation (ds_app ?st1) else ds_gen ?st1 x\<rparr>))"
    by (rule Cons.IH) (use Cons.prems in \<open>auto simp: delete_allowed_def\<close>)
  moreover have "(\<lambda>x. if x \<in> set ts then dynamic_delete_generation (ds_app ?st1) else ds_gen ?st1 x) =
      (\<lambda>x. if x \<in> set (t # ts) then ?g else ds_gen st x)"
    by auto
  ultimately show ?case by (simp only: check_ins.simps bind_run.simps prod.case) simp
qed

lemma smaller_range_ok:
  assumes "app_space nap" and "NaClUserToSysAddrRange nap dest sz \<noteq> kNaClBadAddress"
  shows "NaClUserToSysAddrRange nap dest 0 \<noteq> kNaClBadAddress"
proof -
  note u = UserToSysAddrRange_cases [OF assms]
  have bits: "unat (addr_bits nap) \<le> 30" using assms(1) by (simp add: app_space_def)
  have "\<not> addr_limit nap \<le> dest" using u(2) addr_limit_eq(2) [OF bits] by (simp add: word_le_nat_alt)
  moreover have "dest + mem_start nap \<noteq> kNaClBadAddress" using u(3) assms(2) by simp
  ultimately show ?thesis using u(1) by (simp add: NaClUserToSysAddrRange_def Let_def)
qed

lemma finish_delete_runs:
  assumes gens: "generations_ok st" and tab: "table_ok (ds_app st)" and r: "r < length (dynamic_regions (ds_app st))"
    and re: "de_realloc_ok env"
    and reached: "\<forall>t \<in> live_threads st. t = natp \<or> ds_gen st t = dynamic_delete_generation (ds_app st)"
    and old: "delete_generation (dynamic_regions (ds_app st) ! r) \<le> dynamic_delete_generation (ds_app st)"
  shows "\<exists>st'. finish_delete env natp r st = run_ok 0 st' \<and>
     set (dynamic_regions (ds_app st')) = set (dynamic_regions (ds_app st)) - {dynamic_regions (ds_app st) ! r}"
proof -
  let ?g = "dynamic_delete_generation (ds_app st)"
  let ?st1 = "st\<lparr>ds_gen := (ds_gen st)(natp := ?g)\<rparr>"
  have s: "NaClSetThreadGeneration natp ?g st = Inr ?st1"
    using gens by (intro SetThreadGeneration_runs) (simp add: generations_ok_def)
  have tok: "thread_inv (ds_threads ?st1)" "num_threads (ds_threads ?st1) \<noteq> 0" "unat (num_threads (ds_threads ?st1)) < 2 ^ 31"
    using gens by (simp_all add: generations_ok_def threads_ok_def)
  have low: "NaClMinimumThreadGeneration ?st1 = Inr ?g"
  proof (cases "NaClMinimumThreadGeneration ?st1")
    case (Inl e)
    with minimum_generation [OF tok] obtain i where "i \<ge> unat (num_threads (ds_threads st))"
      "i \<in> dom (da_map (threads (ds_threads st)))" by auto
    then have False using gens unfolding generations_ok_def by (metis not_le)
    then show ?thesis ..
  next
    case (Inr low)
    with minimum_generation [OF tok] obtain t where "t \<in> live_threads ?st1" "low = ds_gen ?st1 t" by auto
    then have "low = ?g" using reached by (auto simp: live_threads_def)
    with Inr show ?thesis by simp
  qed
  obtain rs' alloc where d: "NaClDynamicRegionDelete True (ds_app st) r =
      Inr ((ds_app st)\<lparr>dynamic_regions := rs', dynamic_regions_allocated := alloc\<rparr>)"
    and rs': "set rs' = set (dynamic_regions (ds_app st)) - {dynamic_regions (ds_app st) ! r}"
    using Delete_cases [OF _ _ r] tab unfolding table_ok_def by blast
  have "finish_delete env natp r st = run_ok 0 (?st1\<lparr>ds_app := (ds_app st)\<lparr>dynamic_regions := rs', dynamic_regions_allocated := alloc\<rparr>\<rparr>)"
    using s low d re old by (simp add: finish_delete_def)
  then show ?thesis using rs' by auto
qed

lemma Delete_again:
  assumes sp: "app_space (ds_app st)" and tab: "table_ok (ds_app st)" and reg: "reg \<in> set (dynamic_regions (ds_app st))"
    and at: "dr_start reg = mem_start (ds_app st) + dest" and allowed: "delete_allowed st dest (dr_size reg)"
    and closed: "0 \<le> delete_generation reg"
  obtains r where "r < length (dynamic_regions (ds_app st))" "reg = dynamic_regions (ds_app st) ! r"
    "NaClTextSysDyncode_Delete env natp dest (dr_size reg) st = finish_delete env natp r st"
proof -
  obtain r where r: "r < length (dynamic_regions (ds_app st))" "reg = dynamic_regions (ds_app st) ! r"
    "NaClDynamicRegionFind (ds_app st) (dr_start reg) (dr_size reg) = Some r"
    using Find_self [OF tab reg] by metis
  have "region_ok reg" using tab reg by (simp add: table_ok_def regions_ok_def)
  then have nz: "dr_size reg \<noteq> 0" by (auto simp: region_ok_def)
  have a: "NaClUserToSysAddrRange (ds_app st) dest (dr_size reg) = dr_start reg"
    using UserToSysAddrRange_cases(3) [OF sp] allowed at by (simp add: delete_allowed_def add.commute)
  then have "dr_start reg \<noteq> kNaClBadAddress" using allowed by (simp add: delete_allowed_def)
  then have "NaClTextSysDyncode_Delete env natp dest (dr_size reg) st = finish_delete env natp r st"
    using allowed nz a r closed by (auto simp: NaClTextSysDyncode_Delete_def delete_allowed_def Let_def)
  then show thesis using that r(1,2) by blast
qed

text \<open>C9: Provided the live threads occupy the slots below \<open>num_threads\<close> of the thread table without a
  gap (after a thread with a lower number has exited, the same calls follow a NULL pointer), no thread
  is ahead of the application's deletion generation, and the shrinking reallocation succeeds: once a region
  is closed, and after every live thread other than the caller has made one
  \<open>dyncode_delete\<close> call with size 0, in any order and any number of times, asking again for the
  deletion of the region succeeds and takes exactly that region out of the table.\<close>

theorem NaClTextSysDyncode_Delete_eventually:
  assumes "app_space (ds_app st)" and "table_ok (ds_app st)" and "generations_ok st" and "de_realloc_ok env"
    and "reg \<in> set (dynamic_regions (ds_app st))" and "dr_start reg = mem_start (ds_app st) + dest"
    and "0 \<le> delete_generation reg" and "delete_generation reg \<le> dynamic_delete_generation (ds_app st)"
    and "delete_allowed st dest (dr_size reg)" and "live_threads st \<subseteq> insert natp (set ts)"
  shows "\<exists>st1 st2. check_ins env dest ts st = Some (Inr st1) \<and>
     NaClTextSysDyncode_Delete env natp dest (dr_size reg) st1 = run_ok 0 st2 \<and>
     set (dynamic_regions (ds_app st2)) = set (dynamic_regions (ds_app st)) - {reg}"
proof -
  let ?g = "dynamic_delete_generation (ds_app st)"
  define st1 where "st1 = st\<lparr>ds_gen := \<lambda>t. if t \<in> set ts then ?g else ds_gen st t\<rparr>"
  have small: "delete_allowed st dest 0"
    using assms(9) smaller_range_ok [OF assms(1)] by (auto simp: delete_allowed_def)
  have g: "\<forall>t. ds_gen st t \<le> ?g" using assms(3) by (simp add: generations_ok_def)
  have c: "check_ins env dest ts st = Some (Inr st1)" unfolding st1_def by (rule check_ins_result [OF g small])
  have app: "ds_app st1 = ds_app st" by (simp add: st1_def)
  have "generations_ok st1" using assms(3) by (simp add: generations_ok_def threads_ok_def st1_def)
  moreover have "\<forall>t \<in> live_threads st1. t = natp \<or> ds_gen st1 t = dynamic_delete_generation (ds_app st1)"
    using assms(10) by (auto simp: st1_def live_threads_def)
  moreover obtain r where r: "r < length (dynamic_regions (ds_app st1))" "reg = dynamic_regions (ds_app st1) ! r"
    "NaClTextSysDyncode_Delete env natp dest (dr_size reg) st1 = finish_delete env natp r st1"
    using Delete_again [of st1 reg dest env natp] assms(1,2,5,6,7,9) app by (auto simp: delete_allowed_def)
  ultimately obtain st2 where "finish_delete env natp r st1 = run_ok 0 st2"
    "set (dynamic_regions (ds_app st2)) = set (dynamic_regions (ds_app st)) - {reg}"
    using finish_delete_runs [of st1 r env natp] assms(2,4,8) app by auto
  then show ?thesis using c r(3) by auto
qed

text \<open>A program with one region of one bundle, open or closed in generation 1, and one thread.\<close>

definition delete_app :: "int \<Rightarrow> NaClApp" where
  "delete_app g = text_app\<lparr>dynamic_regions := [\<lparr>dr_start = 0x40040000, dr_size = 16, delete_generation = g\<rparr>],
     dynamic_regions_allocated := 32, dynamic_delete_generation := 1, allow_dyncode_replacement := True\<rparr>"

definition delete_state :: "int \<Rightarrow> dyn_state" where
  "delete_state g = text_state\<lparr>ds_app := delete_app g\<rparr>"

lemma delete_ready: "dyn_ready (delete_state g)" "app_space (delete_app g)" "table_ok (delete_app g)"
  "regions_placed (delete_app g)" "host_ok page_host (delete_app g)" "threads_ok (delete_state g)"
proof -
  have inv: "dyn_inv text_state" and lay: "code_layout text_app" using text_ready by (simp_all add: dyn_ready_def text_state_def)
  have "dyn_inv (delete_state g)"
    using inv by (simp add: dyn_inv_def delete_state_def delete_app_def text_state_def text_mapped_def window_fits_def
        text_span_def window_span_def NaClIsUserAddr_def addr_limit_def text_bounds_def app_space_def Let_def)
  moreover have "code_layout (delete_app g)" using lay by (simp add: delete_app_def code_layout_def)
  moreover show tab: "table_ok (delete_app g)"
    by (simp add: table_ok_def regions_ok_def capacity_ok_def delete_app_def region_ok_def region_end_def)
  ultimately show "dyn_ready (delete_state g)" by (simp add: dyn_ready_def delete_state_def)
  then show "app_space (delete_app g)" by (simp add: dyn_ready_def dyn_inv_def text_bounds_def delete_state_def)
  show "regions_placed (delete_app g)"
    by (simp add: regions_placed_def region_placed_def delete_app_def text_app_def sample_app_def in_text_def)
  have "NaClIsUserAddr (delete_app g) = NaClIsUserAddr text_app"
    by (simp add: fun_eq_iff NaClIsUserAddr_def addr_limit_def delete_app_def)
  then show "host_ok page_host (delete_app g)" using page_host_ok by (simp add: host_ok_def)
  show "threads_ok (delete_state g)"
    using one_thread_inv(1) by (simp add: threads_ok_def delete_state_def text_state_def) (simp add: one_thread_def)
qed

lemma delete_generations: "generations_ok (delete_state g)"
  using delete_ready(6) [of g] one_thread_inv(2)
  by (simp add: generations_ok_def) (simp add: delete_state_def delete_app_def text_state_def one_thread_def)

lemma delete_ok: "delete_allowed (delete_state g) 0x40000 16"
  by (simp add: delete_allowed_def delete_state_def delete_app_def text_app_def sample_app_def NaClUserToSysAddrRange_def
      addr_limit_def kNaClBadAddress_def)

theorem NaClTextSysDyncode_Delete_eventually_witness:
  "\<exists>st1 st2. check_ins text_env 0x40000 [5, 5] (delete_state 1) = Some (Inr st1) \<and>
     NaClTextSysDyncode_Delete text_env 5 0x40000 16 st1 = run_ok 0 st2 \<and> dynamic_regions (ds_app st2) = []"
proof -
  let ?reg = "\<lparr>dr_start = 0x40040000, dr_size = 16, delete_generation = 1\<rparr> :: NaClDynamicRegion"
  have rs: "dynamic_regions (ds_app (delete_state 1)) = [?reg]" "mem_start (ds_app (delete_state 1)) = 0x40000000"
    "dynamic_delete_generation (ds_app (delete_state 1)) = 1"
    by (simp_all add: delete_state_def delete_app_def text_app_def sample_app_def)
  have "live_threads (delete_state 1) \<subseteq> insert 5 (set [5, 5])"
    using one_thread_inv(2) by (simp add: live_threads_def delete_state_def text_state_def)
  moreover have "app_space (ds_app (delete_state 1))" "table_ok (ds_app (delete_state 1))" "de_realloc_ok text_env"
    using delete_ready(2,3) by (simp_all add: delete_state_def text_env_def)
  ultimately show ?thesis
    using NaClTextSysDyncode_Delete_eventually [of "delete_state 1" text_env ?reg "0x40000" 5 "[5, 5]"]
      delete_generations delete_ok rs by simp
qed

lemma close_region_runs:
  assumes inv: "dyn_inv st" and host: "host_ok (de_os env) (ds_app st)" and lay: "code_layout (ds_app st)"
    and pl: "region_placed (ds_app st) dest sz" and young: "dynamic_delete_generation (ds_app st) \<noteq> 0x7FFFFFFF"
    and wrap: "NaclTextMapWrapper env dest sz st = run_ok (Some a) st1"
  shows "\<exists>st'. close_region env dest sz r st = run_ok None st'"
proof -
  have rng: "in_text (ds_app st) dest sz" and pos: "0 < unat sz"
    and al: "dest AND (bundle_size (ds_app st) - 1) = 0" "sz AND (bundle_size (ds_app st) - 1) = 0"
    using pl by (simp_all add: region_placed_def)
  obtain m es where rep: "ReplaceBundleHeadsWithHalts a sz (bundle_size (ds_app st1)) (proc_mem st1, []) = Some (m, es)"
    using ReplaceBundleHeads_result [OF mapped_bundled [OF inv host lay rng pos al wrap], of "proc_mem st1" "[]"] by auto
  note inv2 = write_text_inv [OF MapWrapper_inv(1) [OF inv host rng pos wrap], of m]
  have core2: "app_core (ds_app (write_text m st1)) = app_core (ds_app st)"
    using write_text_same [of st1 m] MapWrapper_same [OF wrap] by (simp add: same_but_maps_def)
  have "host_ok (de_os env) (ds_app (write_text m st1))"
    using host same_app_spans(2) [OF core2] by (simp add: host_ok_def)
  then obtain st3 where "NaclTextMapClearCacheIfNeeded env dest sz (write_text m st1) = Some (Inr st3)"
    using ClearCache_returns [OF inv2] by blast
  then show ?thesis using young wrap rep by (simp add: close_region_def Let_def)
qed

lemma delete_runs: "\<exists>st'. NaClTextSysDyncode_Delete text_env 5 0x40000 16 (delete_state (- 1)) = run_ok 0 st'"
proof -
  let ?st = "delete_state (- 1)"
  let ?nap = "delete_app (- 1)"
  let ?reg = "\<lparr>dr_start = 0x40040000, dr_size = 16, delete_generation = - 1\<rparr> :: NaClDynamicRegion"
  have app: "ds_app ?st = ?nap" by (simp add: delete_state_def)
  have nap: "dynamic_regions ?nap = [?reg]" "mem_start ?nap = 0x40000000" "dynamic_delete_generation ?nap = 1"
    "dynamic_regions_allocated ?nap = 32" "dynamic_text_start ?nap = 0x30000"
    "dynamic_mapcache_size ?nap = 0" "dynamic_mapcache_offset ?nap = 0"
    by (simp_all add: delete_app_def text_app_def sample_app_def)
  have inv: "dyn_inv ?st" "code_layout (ds_app ?st)" using delete_ready(1) by (simp_all add: dyn_ready_def)
  have host: "host_ok (de_os text_env) (ds_app ?st)" using delete_ready(5) app by (simp add: text_env_def)
  have pl: "region_placed (ds_app ?st) 0x40000 16"
    using delete_ready(4) [of "- 1"] nap app by (simp add: regions_placed_def)
  obtain st4 where w: "NaclTextMapWrapper text_env 0x40000 16 ?st = run_ok (Some 0x80000000) st4"
    using text_window [of ?st] nap app by auto
  obtain st1 where c: "close_region text_env 0x40000 16 0 ?st = run_ok None st1"
    using close_region_runs [OF inv(1) host inv(2) pl _ w] nap app by auto
  note cr = close_region_result [OF c inv(1) host inv(2) pl]
  have "generations_ok st1"
    using delete_generations [of "- 1"] cr(2-4) nap app by (auto simp: generations_ok_def threads_ok_def intro: order_trans)
  moreover have "table_ok (ds_app st1)"
    using cr(1,5) nap app by (simp add: table_ok_def regions_ok_def capacity_ok_def region_ok_def region_end_def)
  moreover have "\<forall>t \<in> live_threads st1. t = 5"
    using one_thread_inv(2) cr(2) by (simp add: live_threads_def delete_state_def text_state_def)
  moreover have "de_realloc_ok text_env" by (simp add: text_env_def)
  ultimately obtain st' where f: "finish_delete text_env 5 0 st1 = run_ok 0 st'"
    using finish_delete_runs [of st1 0 text_env 5] cr(1,4) nap app by auto
  have "NaClDynamicRegionFind ?nap 0x40040000 16 = Some 0"
    using nap by (simp add: NaClDynamicRegionFind_def NaClDynamicRegionFindClosestLEQ_def Let_def)
  moreover have "NaClUserToSysAddrRange ?nap 0x40000 16 = 0x40040000"
    by (simp add: delete_app_def text_app_def sample_app_def NaClUserToSysAddrRange_def addr_limit_def)
  moreover have "text_shm ?nap = Some 1" "allow_dyncode_replacement ?nap" by (simp_all add: delete_app_def text_app_def)
  ultimately have "NaClTextSysDyncode_Delete text_env 5 0x40000 16 ?st = run_ok 0 st'"
    using c f app nap by (simp add: NaClTextSysDyncode_Delete_def Let_def kNaClBadAddress_def)
  then show ?thesis by blast
qed

theorem NaClTextSysDyncode_Delete_waits_witness:
  "\<exists>st'. NaClTextSysDyncode_Delete text_env 5 0x40000 16 (delete_state (- 1)) = run_ok 0 st' \<and>
     dynamic_regions (ds_app st') = [] \<and> (\<forall>t \<in> live_threads (delete_state (- 1)). 2 \<le> ds_gen st' t) \<and>
     proc_mem st' 0x40040000 = 0xf4 \<and> proc_mem st' 0x40040004 = 5"
proof -
  let ?st = "delete_state (- 1)"
  obtain st' where r: "NaClTextSysDyncode_Delete text_env 5 0x40000 16 ?st = run_ok 0 st'" using delete_runs by blast
  have app: "ds_app ?st = delete_app (- 1)" by (simp add: delete_state_def)
  have nap: "dynamic_regions (ds_app ?st) = [\<lparr>dr_start = 0x40040000, dr_size = 16, delete_generation = - 1\<rparr>]"
    "mem_start (ds_app ?st) = 0x40000000" "dynamic_delete_generation (ds_app ?st) = 1" "bundle_size (ds_app ?st) = 16"
    by (simp_all add: app delete_app_def text_app_def sample_app_def)
  have u: "NaClIsUserAddr (ds_app ?st) 0x40040000" "NaClIsUserAddr (ds_app ?st) 0x40040004"
    by (simp_all add: app delete_app_def text_app_def sample_app_def NaClIsUserAddr_def addr_limit_def)
  have "proc_mem ?st = proc_mem text_state" by (simp add: proc_mem_def delete_state_def text_state_def delete_app_def)
  then have m: "proc_mem ?st = (\<lambda>_. 5)" by (simp add: text_proc_mem)
  have host: "host_ok (de_os text_env) (ds_app ?st)" "regions_placed (ds_app ?st)"
    using delete_ready(4,5) app by (simp_all add: text_env_def)
  note w = NaClTextSysDyncode_Delete_waits [OF delete_ready(1) host(1) delete_ready(6) host(2) _ r, unfolded nap, simplified]
  from w u have "dynamic_regions (ds_app st') = []" "\<forall>t \<in> live_threads ?st. 2 \<le> ds_gen st' t"
    "proc_mem st' 0x40040000 = closed_view ?st 0x40000 16 0x40040000" "proc_mem st' 0x40040004 = closed_view ?st 0x40000 16 0x40040004"
    by (simp_all add: closing_generation_def nap)
  then show ?thesis using r by (simp add: closed_view_def Let_def nap m)
qed

end
