(* ===== verification/Text_Share.thy ===== *)
theory Text_Share
  imports Dyn_Calls
begin

text \<open>
  \<open>NaClMakeDynamicTextShared\<close> of \<open>service_runtime/nacl_text.c\<close>, which turns the space between the static text
  and the data into the dynamic text. It establishes the invariant the calls on dynamic code rely on.
\<close>

section \<open>One page\<close>

text \<open>A host that maps where it is told and has the memory.\<close>

definition host_maps :: "host_os \<Rightarrow> bool" where
  "host_maps os \<longleftrightarrow> fixed_maps os \<and> maps_succeed os \<and> unmaps_succeed os"

lemma fixed_map_request:
  assumes "host_maps os" and "pr = 3 \<or> pr = 5" and "unat a + 65536 < 2 ^ 32" and "unat off + 131072 < 2 ^ 31"
  shows "\<exists>sp'. NaClDescImcShmMap os shm (NaClDescEffectorShmUnmapMemory os) a 0x10000 pr 0x11 (ucast off) sp = Some (Inr (a, sp')) \<and>
           mapped_over a 0x10000 (shm_h shm) off pr sp sp'"
  using ShmMap_request [of os pr a 1 off "0x11" a sp sp shm] assms by (auto simp: host_maps_def)

lemma unmap_request:
  assumes "host_maps os" and "unat a + 65536 < 2 ^ 32"
  shows "\<exists>sp'. NaClDescImcShmUnmapUnsafe os ma a 0x10000 sp = Some (Inr (0, sp')) \<and> unmapped_over a 0x10000 sp sp'"
  using unmap_pages_result [of os a 1 ma sp] assms
  by (simp add: host_maps_def NaClDescImcShmUnmapUnsafe_def NaClDescImcShmUnmapCommon_def)

text \<open>\<open>n\<close> bytes of the text from \<open>off\<close> on are mapped executable at \<open>a\<close> and hold HLT.\<close>

definition shared_over :: "uintptr_t \<Rightarrow> size_t \<Rightarrow> int \<Rightarrow> u32 \<Rightarrow> shm_space \<Rightarrow> shm_space \<Rightarrow> bool" where
  "shared_over a n h off sp sp' \<longleftrightarrow>
     (\<forall>x. sp_map sp' x = (if x - a < n then Some (h, off + (x - a), 5) else sp_map sp x)) \<and>
     (\<forall>g k. sp_shm sp' g k = (if g = h \<and> k - off < n then NACL_HALT_OPCODE else sp_shm sp g k))"

lemma share_page_result:
  assumes host: "host_maps (de_os env)" and a: "NaClUserToSys nap (vb + off) = Inr a" "unat a + 65536 < 2 ^ 32"
    and off: "unat off + 131072 < 2 ^ 31"
  shows "\<exists>sp'. share_page env shm nap vb off sp = Some (Inr sp') \<and> shared_over a 0x10000 (shm_h shm) off sp sp'"
proof -
  let ?os = "de_os env" and ?h = "shm_h shm"
  have c: "PROT_READ OR PROT_WRITE = 3" "PROT_READ OR PROT_EXEC = 5" "NACL_ABI_MAP_SHARED OR NACL_ABI_MAP_FIXED = 0x11"
    by (simp_all add: PROT_READ_def PROT_WRITE_def PROT_EXEC_def NACL_ABI_MAP_SHARED_def NACL_ABI_MAP_FIXED_def)
  obtain sp1 where m1: "NaClDescImcShmMap ?os shm (NaClDescEffectorShmUnmapMemory ?os) a 0x10000 3 0x11 (ucast off) sp = Some (Inr (a, sp1))"
    and s1: "mapped_over a 0x10000 ?h off 3 sp sp1"
    using fixed_map_request [OF host _ a(2) off, of 3 shm sp] by auto
  obtain m' where fill: "NaClFillMemoryRegionWithHalt a 0x10000 (view sp1 (app_mem nap)) = Inr m'"
    and m': "m' = (\<lambda>x. if x - a < 0x10000 then NACL_HALT_OPCODE else view sp1 (app_mem nap) x)"
    by (simp add: NaClFillMemoryRegionWithHalt_def NACL_HALT_LEN_def check_res_def)
  define sp2 where "sp2 = set_window a 0x10000 off ?h m' sp1"
  obtain sp3 where u: "NaClDescImcShmUnmapUnsafe ?os NaClDescEffectorShmMapAnonymousMemory a 0x10000 sp2 = Some (Inr (0, sp3))"
    and s3: "unmapped_over a 0x10000 sp2 sp3"
    using unmap_request [OF host a(2)] by blast
  obtain sp4 where m4: "NaClDescImcShmMap ?os shm (NaClDescEffectorShmUnmapMemory ?os) a 0x10000 5 0x11 (ucast off) sp3 = Some (Inr (a, sp4))"
    and s4: "mapped_over a 0x10000 ?h off 5 sp3 sp4"
    using fixed_map_request [OF host _ a(2) off, of 5 shm sp3] by auto
  have "share_page env shm nap vb off sp = Some (Inr sp4)"
    using a(1) m1 fill u m4 by (simp add: share_page_def Let_def c sp2_def)
  moreover have "sp_shm sp2 g k = (if g = ?h \<and> k - off < 0x10000 then NACL_HALT_OPCODE else sp_shm sp g k)" for g k
    using s1 by (simp add: sp2_def set_window_def m' mapped_over_def Let_def)
  moreover have "sp_map sp2 = sp_map sp1" by (simp add: sp2_def set_window_def)
  ultimately show ?thesis
    using s1 s3 s4 by (auto simp: shared_over_def mapped_over_def unmapped_over_def)
qed

section \<open>All pages\<close>

lemma share_pages_result:
  assumes host: "host_maps (de_os env)" and sp: "app_space nap" and vb: "vb \<noteq> 0"
    and "sz = off + 0x10000 * of_nat n" and "unat vb + unat off + 65536 * n \<le> 2 ^ unat (addr_bits nap)"
  shows "\<exists>s'. share_pages env shm nap vb sz off s = Some (Inr s') \<and>
     shared_over (mem_start nap + vb + off) (0x10000 * of_nat n) (shm_h shm) off s s'"
  using assms(4,5)
proof (induction n arbitrary: off s)
  case 0
  then show ?case by (auto simp: share_pages.simps shared_over_def)
next
  case (Suc n)
  have bits: "unat (addr_bits nap) \<le> 30" and top: "unat (mem_start nap) + 2 ^ unat (addr_bits nap) < 2 ^ 32"
    using sp by (simp_all add: app_space_def)
  note lim = addr_limit_eq [OF bits]
  have small: "unat vb + unat off + 65536 * Suc n \<le> 2 ^ 30" using Suc.prems(2) lim(3) by linarith
  then have big: "65536 * Suc n < (2 :: nat) ^ 32" by simp
  have uo: "unat (vb + off) = unat vb + unat off" using small by (intro unat_add_no_wrap) simp
  let ?a = "mem_start nap + vb + off"
  have ua: "unat ?a = unat (mem_start nap) + unat vb + unat off"
    using unat_add_no_wrap [of "mem_start nap" "vb + off"] uo Suc.prems(2) top by (simp add: add.assoc)
  have "0 < unat vb" using vb by (simp add: unat_gt_0)
  then have "vb + off \<noteq> 0" using uo by (metis add_is_0 neq0_conv unat_0)
  moreover have "vb + off < addr_limit nap" using uo lim(2) Suc.prems(2) by (simp add: word_less_nat_alt)
  ultimately have sys: "NaClUserToSys nap (vb + off) = Inr ?a"
    by (simp add: NaClUserToSys_def algebra_simps)
  have fit: "unat ?a + 65536 < 2 ^ 32" "unat off + 131072 < 2 ^ 31" using ua Suc.prems(2) top small by simp_all
  obtain s1 where p: "share_page env shm nap vb off s = Some (Inr s1)" and s1: "shared_over ?a 0x10000 (shm_h shm) off s s1"
    using share_page_result [OF host sys fit] by blast
  have o: "unat (off + 0x10000) = unat off + 65536" using fit(2) unat_add_no_wrap [of off "0x10000"] by simp
  have e: "sz = off + 0x10000 + 0x10000 * of_nat n" using Suc.prems(1) by (simp add: algebra_simps)
  have fit1: "unat vb + unat (off + 0x10000) + 65536 * n \<le> 2 ^ unat (addr_bits nap)" using o Suc.prems(2) by simp
  obtain s' where r: "share_pages env shm nap vb sz (off + 0x10000) s1 = Some (Inr s')"
    and s': "shared_over (mem_start nap + vb + (off + 0x10000)) (0x10000 * of_nat n) (shm_h shm) (off + 0x10000) s1 s'"
    using Suc.IH [OF e fit1] by blast
  have "unat sz = unat off + 65536 * Suc n"
    unfolding Suc.prems(1) using unat_add_no_wrap [of off "0x10000 * of_nat (Suc n)"] unat_pages [OF big] small by simp
  then have lt: "off < sz" by (simp add: word_less_nat_alt)
  have "share_pages env shm nap vb sz off s = Some (Inr s')"
    using lt p r by (subst share_pages.simps) simp
  moreover have d: "x - (mem_start nap + vb + (off + 0x10000)) = x - ?a - 0x10000" "k - (off + 0x10000) = k - off - 0x10000"
    for x k :: u32 by (simp_all add: algebra_simps)
  have "shared_over ?a (0x10000 * of_nat (Suc n)) (shm_h shm) off s s'"
    using s1 s' unfolding shared_over_def in_first_or_rest [OF big] d by auto
  ultimately show ?case by blast
qed

section \<open>The whole text\<close>

text \<open>The limits of the dynamic text: from the page after the static text to the read-only data, or to
  the data when there is none.\<close>

definition text_lower :: "NaClApp \<Rightarrow> uintptr_t" where
  "text_lower nap = NaClRoundAllocPage (NaClEndOfStaticText nap)"

definition text_upper :: "NaClApp \<Rightarrow> uintptr_t" where
  "text_upper nap = (if rodata_start nap \<noteq> 0 then rodata_start nap else data_start nap)"

text \<open>
  A loaded program before its text is shared: the space between the limits is a positive number of
  pages inside the address space, no writable window is mapped, and the handle of the new object is
  not in use.
\<close>

definition share_setting :: "dyn_env \<Rightarrow> nat \<Rightarrow> dyn_state \<Rightarrow> bool" where
  "share_setting env n st \<longleftrightarrow>
     (let nap = ds_app st; h = os_create (de_os env) (0x10000 * of_nat n) True in
      host_maps (de_os env) \<and> de_desc_ok env \<and> h \<noteq> NACL_INVALID_HANDLE \<and>
      (\<forall>x k pr. sp_map (ds_space st) x \<noteq> Some (h, k, pr)) \<and>
      app_space nap \<and> use_shm_for_dynamic_text nap \<and> dynamic_mapcache_size nap = 0 \<and>
      text_lower nap \<noteq> 0 \<and> text_upper nap = text_lower nap + 0x10000 * of_nat n \<and> 0 < n \<and>
      unat (text_lower nap) + 65536 * n \<le> 2 ^ unat (addr_bits nap))"

lemma size_fits: "\<not> size_unfit (ucast (w :: u32))" if "unat w < 2 ^ 31"
proof -
  have u: "unat (ucast w :: u64) = unat w"
    using unat_lt_size_t [of w] by (simp add: unsigned_ucast_eq take_bit_nat_eq_self)
  have "int (unat (ucast w :: u64)) < int (2 ^ 31)" unfolding u using that by (simp only: of_nat_less_iff)
  then have "uint (ucast w :: u64) < 2 ^ 31" by (simp only: uint_nat of_nat_power of_nat_numeral)
  then have "sint (ucast w :: u64) = uint (ucast w :: u64)"
    unfolding sint_uint using signed_take_bit_small [of "uint (ucast w :: u64)"] by simp
  moreover have "\<not> 0xFFFFFFFF < (ucast w :: u64)" unfolding word_less_nat_alt u using that by simp
  ultimately show ?thesis by (simp add: size_unfit_def)
qed

lemma ucast_ucast_id_u32: "ucast (ucast w :: u64) = (w :: u32)"
  by (rule bit_word_eqI) (simp add: bit_unsigned_iff)

lemma shared_view:
  assumes "shared_over a n h 0 sp sp'" and "\<forall>x k pr. sp_map sp x \<noteq> Some (h, k, pr)"
  shows "view sp' m x = (if x - a < n then NACL_HALT_OPCODE else view sp m x)"
  using assms by (auto simp: view_def shared_over_def split: option.splits)

lemma shared_mapped:
  assumes "shared_over (text_base nap) (dynamic_text_end nap - dynamic_text_start nap) (shm_h shm) 0 sp sp'"
    and "\<forall>x k pr. sp_map sp x \<noteq> Some (shm_h shm, k, pr)" and "dynamic_mapcache_size nap = 0"
  shows "text_mapped (st\<lparr>ds_app := nap, ds_space := sp', ds_text := shm\<rparr>)"
  using assms by (auto simp: text_mapped_def shared_over_def text_span_def window_span_def Let_def split: if_splits)

text \<open>C10: \<open>NaClMakeDynamicTextShared\<close> succeeds on a loaded program whose data segments are aligned, and leaves
  the space between the static text and the data mapped executable but not writable, filled with HLT,
  as a new shared memory object mapped nowhere else; every other byte of the process is as before.
  This is the invariant the calls on dynamic code need.\<close>

theorem NaClMakeDynamicTextShared_correct:
  assumes "share_setting env n st"
  shows "\<exists>st'. NaClMakeDynamicTextShared env (Some p) st = run_ok LOAD_OK st' \<and> dyn_inv st' \<and>
     text_shm (ds_app st') = Some p \<and> mem_start (ds_app st') = mem_start (ds_app st) \<and>
     dynamic_text_start (ds_app st') = text_lower (ds_app st) \<and> dynamic_text_end (ds_app st') = text_upper (ds_app st) \<and>
     (\<forall>x. proc_mem st' x = (if text_span (ds_app st') x then NACL_HALT_OPCODE else proc_mem st x))"
proof -
  let ?nap = "ds_app st" and ?N = "0x10000 * of_nat n :: u32"
  let ?h = "os_create (de_os env) ?N True"
  have host: "host_maps (de_os env)" and ok: "de_desc_ok env" "?h \<noteq> NACL_INVALID_HANDLE"
    and fresh: "\<forall>x k pr. sp_map (ds_space st) x \<noteq> Some (?h, k, pr)"
    and sp: "app_space ?nap" and use: "use_shm_for_dynamic_text ?nap" and cache: "dynamic_mapcache_size ?nap = 0"
    and lo: "text_lower ?nap \<noteq> 0" and up: "text_upper ?nap = text_lower ?nap + ?N" and n: "0 < n"
    and fit: "unat (text_lower ?nap) + 65536 * n \<le> 2 ^ unat (addr_bits ?nap)"
    using assms by (simp_all add: share_setting_def Let_def)
  have "2 ^ unat (addr_bits ?nap) \<le> (2 :: nat) ^ 30" using addr_limit_eq(3) [of ?nap] sp by (simp add: app_space_def)
  then have small: "unat (text_lower ?nap) + 65536 * n \<le> 2 ^ 30" using fit by simp
  then have uN: "unat ?N = 65536 * n" by (intro unat_pages) simp
  have u: "unat (text_upper ?nap) = unat (text_lower ?nap) + 65536 * n"
    unfolding up using unat_add_no_wrap [of "text_lower ?nap" ?N] uN small by simp
  have nz: "?N \<noteq> 0" using uN n by (metis nat_0_less_mult_iff unat_0 zero_less_numeral less_irrefl)
  have unz: "text_upper ?nap \<noteq> 0" using u n by (metis add_is_0 nat_0_less_mult_iff unat_0 zero_less_numeral less_irrefl)
  let ?shm = "\<lparr>shm_h = ?h, shm_size = ucast ?N\<rparr> :: NaClDescImcShm"
  have "\<not> size_unfit (ucast ?N)" using uN small by (intro size_fits) simp
  moreover have "ucast (ucast ?N :: u64) = ?N" by (rule ucast_ucast_id_u32)
  ultimately have alloc: "NaClDescImcShmAllocCtor (de_os env) (de_desc_ok env) (ucast ?N) True = Some ?shm"
    using ok by (simp add: NaClDescImcShmAllocCtor_def NaClDescImcShmCtor_def Let_def)
  let ?nap1 = "?nap\<lparr>dynamic_text_start := text_lower ?nap, dynamic_text_end := text_upper ?nap\<rparr>"
  have sp1: "app_space ?nap1" using sp by (simp add: app_space_def)
  obtain s' where r: "share_pages env ?shm ?nap1 (text_lower ?nap) ?N 0 (ds_space st) = Some (Inr s')"
    and s': "shared_over (mem_start ?nap + text_lower ?nap) ?N ?h 0 (ds_space st) s'"
    using share_pages_result [OF host sp1 lo, of ?N 0 n ?shm "ds_space st"] fit by auto
  let ?st' = "st\<lparr>ds_app := ?nap1\<lparr>text_shm := Some p\<rparr>, ds_space := s', ds_text := ?shm\<rparr>"
  have bound: "(let b = if 0 = rodata_start ?nap then data_start ?nap else rodata_start ?nap in if 0 = b then text_lower ?nap else b)
      = text_upper ?nap" using unz by (auto simp: text_upper_def Let_def)
  have d: "text_upper ?nap - text_lower ?nap = ?N" using up by simp
  have "NaClMakeDynamicTextShared env (Some p) st = run_ok LOAD_OK ?st'"
    using use bound d nz alloc r unfolding NaClMakeDynamicTextShared_def Let_def text_lower_def [symmetric] by simp
  moreover have "text_mapped ?st'"
    using shared_mapped [of "?nap1\<lparr>text_shm := Some p\<rparr>" ?shm "ds_space st" s' st] s' fresh cache d by simp
  then have "dyn_inv ?st'"
    using sp1 u fit cache by (simp add: dyn_inv_def text_bounds_def window_fits_def app_space_def word_le_nat_alt)
  moreover have "proc_mem ?st' x = (if text_span (ds_app ?st') x then NACL_HALT_OPCODE else proc_mem st x)" for x
    using shared_view [OF s' fresh, of "app_mem ?nap" x] d by (simp add: proc_mem_def text_span_def)
  ultimately show ?thesis by (intro exI [of _ ?st']) simp
qed

text \<open>A program with static text up to 0x20000 and data from 0x100000.\<close>

definition fresh_state :: dyn_state where
  "fresh_state = text_state\<lparr>ds_app := text_app\<lparr>static_text_end := 0x20000, rodata_start := 0, data_start := 0x100000,
     use_shm_for_dynamic_text := True, dynamic_text_start := 0, dynamic_text_end := 0, text_shm := None\<rparr>,
     ds_space := \<lparr>sp_map = \<lambda>_. None, sp_shm = \<lambda>_ _. 0, sp_calls = 0\<rparr>\<rparr>"

lemma fresh_setting: "share_setting text_env 14 fresh_state"
proof -
  have "text_lower (ds_app fresh_state) = 0x20000"
    by (simp add: text_lower_def NaClEndOfStaticText_def fresh_state_def NaClRoundAllocPage_def page_consts)
  moreover have "text_upper (ds_app fresh_state) = 0x100000" by (simp add: text_upper_def fresh_state_def)
  moreover have "host_maps page_host"
    by (simp add: host_maps_def fixed_maps_def maps_succeed_def unmaps_succeed_def page_host_def)
  ultimately show ?thesis
    by (simp add: share_setting_def Let_def text_env_def)
      (simp add: fresh_state_def text_app_def sample_app_def app_space_def page_host_def NACL_INVALID_HANDLE_def)
qed

theorem NaClMakeDynamicTextShared_correct_witness:
  "\<exists>st'. NaClMakeDynamicTextShared text_env (Some 1) fresh_state = run_ok LOAD_OK st' \<and> dyn_inv st' \<and>
     proc_mem st' 0x40020000 = 0xf4 \<and> proc_mem st' 0x40100000 = 5"
proof -
  have lim: "text_lower (ds_app fresh_state) = 0x20000" "text_upper (ds_app fresh_state) = 0x100000"
    by (simp_all add: text_lower_def text_upper_def NaClEndOfStaticText_def fresh_state_def NaClRoundAllocPage_def page_consts)
  obtain st' where r: "NaClMakeDynamicTextShared text_env (Some 1) fresh_state = run_ok LOAD_OK st'" "dyn_inv st'"
    and lo: "dynamic_text_start (ds_app st') = 0x20000" "dynamic_text_end (ds_app st') = 0x100000"
    and start: "mem_start (ds_app st') = mem_start (ds_app fresh_state)"
    and v: "\<forall>x. proc_mem st' x = (if text_span (ds_app st') x then NACL_HALT_OPCODE else proc_mem fresh_state x)"
    using NaClMakeDynamicTextShared_correct [OF fresh_setting, of 1] unfolding lim by blast
  have "mem_start (ds_app st') = 0x40000000" using start by (simp add: fresh_state_def text_app_def sample_app_def)
  moreover have "proc_mem fresh_state = (\<lambda>_. 5)" by (simp add: proc_mem_def view_def fun_eq_iff fresh_state_def text_app_def)
  ultimately show ?thesis using r v lo by (simp add: text_span_def NACL_HALT_OPCODE_def)
qed

end
