(* ===== verification/Spec2Isabelle.thy ===== *)
theory Spec2Isabelle
  imports Nacl_Prelude Dyn_Array Desc_Table Sel_Util Vmmap App_State Gio_Mem Elf_Util
    Ncdecode Ncvalidate Sel_Validate Code_Replace Copy_Code Dyn_Regions Code_Install
    Imc_Shm Dyn_Text Dyn_Calls Dyn_Delete Text_Share
begin

text \<open>
  Verification of the Native Client service runtime and its x86-32 validator.

  \<^bold>\<open>The program.\<close> Native Client runs untrusted machine code inside a trusted process. The service runtime
  (\<open>src/src/trusted/service_runtime\<close>) reads an ELF image, checks its program headers, loads it into
  a block of address space, has the validator (\<open>src/src/trusted/validator_x86\<close>) check its code, and then
  serves its system calls. It keeps a table of descriptors, a table of threads and a map of the pages
  of the application. A running program may add code (\<open>dyncode_create\<close>), replace it (\<open>dyncode_modify\<close>) and
  give it back (\<open>dyncode_delete\<close>); the runtime validates it and writes it through a second mapping of the
  shared memory object (\<open>src/src/trusted/desc/nacl_desc_imc_shm.c\<close>) that backs the executable pages. The
  sandbox holds as long as the validator is sound, the loader stays inside the address space, and the
  calls on dynamic code never show the program code that was not validated.

  \<^bold>\<open>The build.\<close> The model is the 32-bit x86 Linux build: \<open>size_t\<close> and \<open>uintptr_t\<close> are \<^typ>\<open>32 word\<close>, and the
  branches of the conditional compilation for other targets are left out. Every routine is a function
  under its C name; what C does by side effect is a state passed through. An abort (\<open>LOG_FATAL\<close>, a failed
  \<open>CHECK\<close>), an access outside a block, a NULL pointer or a use after free is an error value \<open>Inl\<close>; a loop that
  would run for ever is the value \<open>None\<close>. Log statements are left out throughout.

  \<^bold>\<open>The theories.\<close>

  \<^item> \<open>Nacl_Prelude\<close>: integer types, errors, checked array access, lemmas on words and lists.

  \<^item> \<open>Dyn_Array\<close> (\<open>dyn_array.c\<close>): the growable pointer array with its bitmap of free slots. \<open>DynArraySet\<close> changes
    exactly one slot for an index below \<open>2 ^ 29\<close>, \<open>DynArrayFirstAvail\<close> finds the least free one; for an index
    from \<open>2 ^ 30\<close> on the size passed to \<open>realloc\<close> wraps, and the slot lies outside the block. The locale \<open>slot_table\<close> is the contract the tables above it use.

  \<^item> \<open>Desc_Table\<close> (\<open>sel_ldr.c\<close>, \<open>nacl_refcount.c\<close>, \<open>nacl_desc_base.c\<close>): descriptor and thread tables over reference
    counts. The calls are the steps of the relation \<open>table_step\<close>; in every reachable state the counts
    equal the references, so nothing freed is touched.

  \<^item> \<open>Sel_Util\<close> (\<open>sel_util.c\<close>, \<open>sel_util-inl.h\<close>): rounding to pages and to powers of two, with the wrap-around
    at the top of the address space.

  \<^item> \<open>Vmmap\<close> (\<open>sel_mem.c\<close>, \<open>nacl_memory_object.c\<close>): the sorted array of page ranges. \<open>NaClVmmapUpdate\<close> refines the
    update of a finite map from pages to protections and offsets; the searches are correct; removing
    the last range follows a NULL pointer.

  \<^item> \<open>App_State\<close> (\<open>sel_ldr.h\<close>, \<open>sel_ldr-inl.h\<close>): the application record and the address translation: an accepted
    range lies in the sandbox, and the two directions of the translation are inverse to each other.

  \<^item> \<open>Gio_Mem\<close> (\<open>gio_mem.c\<close>, \<open>gio.h\<close>): the memory file, and the locale \<open>gio_file\<close> with the laws of a generic I/O
    object that the loader relies on.

  \<^item> \<open>Elf_Util\<close> (\<open>elf_util.c\<close>): reading, checking and loading an image. Headers that validate describe segments
    inside the address space, and loading changes bytes of the file parts of those segments only.

  \<^item> \<open>Ncdecode\<close> (\<open>ncdecode.c\<close>): the table-driven decoder with its callbacks. It reads only the twenty bytes at an
    instruction, and ends on every segment that stops short of the top of the address space. The locales \<open>decoder_client\<close> and \<open>client_invariant\<close> state what a client of
    the callbacks must keep and carry the inductions over the decoding loops; the validator and the code
    copier interpret them.

  \<^item> \<open>Ncvalidate\<close> (\<open>ncvalidate.c\<close>): the validator; accepted code is \<open>sandboxed\<close>: it consists of allowed instructions,
    direct jumps go to instruction starts, no jump lands behind the mask of an indirect jump, and bundles
    start instructions. The locale \<open>target_table\<close> is the contract of its jump target bitmaps.

  \<^item> \<open>Sel_Validate\<close> and \<open>Code_Replace\<close> (\<open>sel_validate_image.c\<close>, the pairwise part of \<open>ncvalidate.c\<close>): the entry points
    of the validator. Unless the result is ignored, a validated image is left as the sandboxed code found in it,
    with unsupported instructions as HLT; replacement code keeps the instruction boundaries and
    the indirect jumps of the old code, and validation always returns.

  \<^item> \<open>Copy_Code\<close> (\<open>nccopycode.c\<close>): copying replacement code over running code. Stores and \<open>mprotect\<close> calls are
    events; \<open>visible\<close> gives the memories another processor can load from between them, and \<open>fetched\<close> the bytes
    it can assemble from blocks it fetched at different moments. It never fetches a half-changed instruction;
    but when the two codes stop matching, the copy stops there and still reports success.

  \<^item> \<open>Dyn_Regions\<close> (\<open>nacl_text.c\<close>): the sorted table of dynamic regions, as a set of disjoint ranges (locale
    \<open>region_table\<close>). The search equals its specification, insertion refuses exactly the overlaps, and
    deletion undoes insertion.

  \<^item> \<open>Code_Install\<close> (\<open>nacl_text.c\<close>): the word stores that install and close bundles. At every moment a bundle starts
    with HLT or is complete.

  \<^item> \<open>Imc_Shm\<close> (\<open>nacl_desc_imc_shm.c\<close>, and the single \<open>mmap\<close> and \<open>munmap\<close> calls of \<open>nacl_find_addrsp.c\<close> and
    \<open>nacl_imc_unistd.cc\<close>): shared memory descriptors and the address space. The locale \<open>effector\<close> is what
    \<open>Map\<close> needs of the effector it is given; the one of \<open>nacl_text.c\<close> interprets it.

  \<^item> \<open>Dyn_Text\<close> (\<open>nacl_text.c\<close>): the remaining routines and the three system calls, with the invariant \<open>dyn_inv\<close>: the
    text object is mapped executable as the dynamic text, writable in one window outside the sandbox, and
    nowhere else.

  \<^item> \<open>Text_Share\<close>, \<open>Dyn_Calls\<close> and \<open>Dyn_Delete\<close>: what these give together. \<open>NaClMakeDynamicTextShared\<close> establishes
    \<open>dyn_inv\<close> over text full of HLT; \<open>dyncode_create\<close>, outside the debugging modes that ignore the validator or
    stub code out, shows the program only validated code, in a free range, and changes nothing else;
    \<open>dyncode_delete\<close> frees a region only when every thread has passed the generation in which it was closed,
    and, as long as the thread table has no gaps, frees it once all have.

  \<^bold>\<open>Parameters and hypotheses.\<close> Code that is not in the repository, or that the build generates, is an argument:
  the opcode tables (\<open>DecodeTables\<close>), the processor features (\<open>CPUFeatures\<close>), whether allocations succeed, the
  generic I/O object of an image, the answers of \<open>mmap\<close> and \<open>munmap\<close> (\<open>host_os\<close>), and of the calls that serialise
  the processors (\<open>serial_env\<close>). What is relied on is named where it is used: \<open>tables_typed\<close> (the tables give
  every opcode a known kind of immediate), \<open>fixed_maps\<close>, \<open>maps_succeed\<close> and \<open>unmaps_succeed\<close> (documented
  behaviour of \<open>mmap\<close> with a fixed address, and of a host that has the memory), \<open>host_ok\<close> (address space handed
  out lies outside the sandbox), \<open>serial_ok\<close> (the host calls of \<open>SerializeAllProcessors\<close> succeed and nobody else
  changes the protection of its page). Each has an instance in the witnesses.

  \<^bold>\<open>Loops.\<close> A loop whose bound is an array or a counter is a recursive function with a measure. Loops over
  addresses, which a wrap-around could keep running, are partial functions into \<open>option\<close>, and theorems say
  that they return. \<open>NaClAppPow2Ceil\<close> alone uses fuel: its variable is shifted left once per round, so 33
  rounds decide; the outcome \<open>Diverges\<close> is the loop that never ends.

  \<^bold>\<open>Concurrency.\<close> The tables and the calls on dynamic code run under a mutex each, so a call is one step of
  their state. What other processors see of the stores into running code, which no mutex protects, is
  part of the specifications in \<open>Copy_Code\<close> and \<open>Code_Install\<close>. They take from the manuals and comments the
  source cites: stores become visible in program order; a store of one byte, or an aligned one of 2, 4 or 8
  bytes, is seen whole, any other byte by byte (\<open>store_atomic\<close>); instructions are fetched in aligned blocks of 8
  bytes, each of which a processor can keep until it is serialised; an \<open>mprotect\<close> that changes a protection
  serialises every processor (\<open>serialising\<close>). At the start of a copy no processor holds older blocks of the code.

  \<^bold>\<open>Not modelled.\<close> The x86-64 and ARM validators and the programs that generate the opcode tables: the first
  two are separate programs for other targets, the tables are a parameter. The system call handlers of
  \<open>nacl_syscall_common.c\<close>, application construction in \<open>sel_ldr.c\<close> and \<open>sel_ldr_standard.c\<close>, threads, signals and
  context switches: sequences of host calls and assembly whose effect is that of the host. The other
  descriptors, inter-module communication and RPC, the browser plugin, the debug stub and the outer
  sandbox: communication between processes. For \<open>dyncode_modify\<close> the whole call is defined, and its parts
  (replacement check and copy) have their theorems; there is no theorem on the composed call.
\<close>

end
